(* ===== verification/Prelude.thy ===== *)
theory Prelude
  imports Main "HOL-Library.Word" "HOL-Library.AList" "HOL-Library.Sublist"
    "HOL-Library.Signed_Division" "HOL-Library.Code_Target_Nat"
begin

text \<open>
  What the components share: the Go types they use (64-bit integers, durations, instants, byte
  strings, maps), the parts of the standard library several of them call (\<open>strconv.FormatInt\<close>,
  \<open>strconv.ParseInt\<close>, \<open>strings.HasPrefix\<close>), and the lemma collections that carry their proofs.

  \<^item> A Go string or byte slice is a \<^typ>\<open>string\<close>: a list of bytes.
  \<^item> A 64-bit signed integer is an \<^typ>\<open>int\<close> in the range of \<open>is_int64\<close>; arithmetic that can
    leave that range is written with \<open>wrap64\<close>. Go's \<open>/\<close> and \<open>%\<close> truncate towards zero:
    they are \<open>sdiv\<close> and \<open>smod\<close> of HOL-Library.
  \<^item> A \<open>time.Duration\<close> is an \<^typ>\<open>int\<close> of nanoseconds, a \<open>time.Time\<close> an \<^typ>\<open>int\<close> of
    nanoseconds since the Unix epoch; the zero \<open>Time\<close> is the first instant of year 1.
  \<^item> A Go map is an association list with distinct keys. Its order is the runtime's iteration
    order; where the code depends on that order the choice is an argument of the model.
\<close>

named_theorems go_simps \<open>evaluation of the models of Go's own operations\<close>
named_theorems map_simps \<open>lookups and sizes of Go maps after an update\<close>

section \<open>Integers, durations and instants\<close>

type_synonym duration = int
type_synonym instant = int

definition is_int64 :: "int \<Rightarrow> bool" where
  "is_int64 x \<longleftrightarrow> - (2 ^ 63) \<le> x \<and> x < 2 ^ 63"

definition wrap64 :: "int \<Rightarrow> int" where
  "wrap64 x = (x + 2 ^ 63) mod 2 ^ 64 - 2 ^ 63"

definition max_int64 :: int where
  "max_int64 = 2 ^ 63 - 1"

definition min_int64 :: int where
  "min_int64 = - (2 ^ 63)"

lemma is_int64_wrap64 [simp]: "is_int64 (wrap64 x)"
proof -
  have "0 \<le> (x + 2 ^ 63) mod 2 ^ 64" and "(x + 2 ^ 63) mod 2 ^ 64 < (2::int) ^ 64"
    by simp_all
  then show ?thesis by (simp add: is_int64_def wrap64_def)
qed

lemma wrap64_id [simp]: "is_int64 x \<Longrightarrow> wrap64 x = x"
  by (simp add: is_int64_def wrap64_def)

lemma is_int64_0 [simp]: "is_int64 0"
  by (simp add: is_int64_def)

lemma is_int64_mono:
  "is_int64 a \<Longrightarrow> is_int64 b \<Longrightarrow> a \<le> x \<Longrightarrow> x \<le> b \<Longrightarrow> is_int64 x"
  by (auto simp: is_int64_def)

text \<open>The unit constants of package \<open>time\<close>.\<close>

definition Microsecond :: duration where
  "Microsecond = 1000"

definition Millisecond :: duration where
  "Millisecond = 1000000"

definition Second :: duration where
  "Second = 1000000000"

lemmas unit_defs [go_simps] = Microsecond_def Millisecond_def Second_def

text \<open>
  \<open>Time.Sub\<close> saturates at the ends of the 64-bit range; \<open>Time.Unix\<close> and \<open>Time.UnixMicro\<close>
  round towards minus infinity, since the nanosecond field of a \<open>Time\<close> is never negative.
\<close>

definition zero_time :: instant where
  "zero_time = - 62135596800 * 1000000000"

definition time_sub :: "instant \<Rightarrow> instant \<Rightarrow> duration" where
  "time_sub t u = max min_int64 (min max_int64 (t - u))"

definition time_unix :: "instant \<Rightarrow> int" where
  "time_unix t = t div Second"

definition time_unix_micro :: "instant \<Rightarrow> int" where
  "time_unix_micro t = wrap64 (t div Microsecond)"

lemma time_sub_eq [simp]: "is_int64 (t - u) \<Longrightarrow> time_sub t u = t - u"
  by (simp add: time_sub_def is_int64_def min_int64_def max_int64_def)

lemma is_int64_time_sub [simp]: "is_int64 (time_sub t u)"
  by (simp add: time_sub_def is_int64_def min_int64_def max_int64_def)

lemma time_sub_pos: "u < t \<Longrightarrow> 0 < time_sub t u"
  by (simp add: time_sub_def min_int64_def max_int64_def)

lemma time_sub_le: "u \<le> t \<Longrightarrow> time_sub t u \<le> t - u"
  by (simp add: time_sub_def min_int64_def max_int64_def)

lemma time_unix_mono: "t \<le> u \<Longrightarrow> time_unix t \<le> time_unix u"
  by (simp add: time_unix_def Second_def zdiv_mono1)

section \<open>Truncating division\<close>

lemma sdiv_nonneg [simp]: "0 \<le> a \<Longrightarrow> 0 < b \<Longrightarrow> a sdiv b = a div (b::int)"
  by (cases "a = 0") (simp_all add: signed_divide_int_def)

lemma smod_nonneg [simp]: "0 \<le> a \<Longrightarrow> 0 < b \<Longrightarrow> a smod b = a mod (b::int)"
  by (cases "a = 0") (simp_all add: signed_modulo_int_def)

section \<open>Decimal text\<close>

definition digit_char :: "nat \<Rightarrow> char" where
  "digit_char d = char_of (48 + d)"

definition is_digit :: "char \<Rightarrow> bool" where
  "is_digit c \<longleftrightarrow> 48 \<le> (of_char c :: nat) \<and> (of_char c :: nat) \<le> 57"

definition digit_val :: "char \<Rightarrow> nat" where
  "digit_val c = of_char c - 48"

lemma digit_char_props [simp]:
  assumes "d < 10"
  shows "is_digit (digit_char d)" and "digit_val (digit_char d) = d"
  using assms by (simp_all add: is_digit_def digit_val_def digit_char_def)

text \<open>\<open>strconv.FormatInt(n, 10)\<close>, and \<open>strconv.Itoa\<close> with it.\<close>

fun format_nat :: "nat \<Rightarrow> string" where
  "format_nat n = (if n < 10 then [digit_char n] else format_nat (n div 10) @ [digit_char (n mod 10)])"

declare format_nat.simps [simp del]

definition format_int :: "int \<Rightarrow> string" where
  "format_int n = (if n < 0 then CHR ''-'' # format_nat (nat (- n)) else format_nat (nat n))"

definition digits_val :: "string \<Rightarrow> nat" where
  "digits_val s = foldl (\<lambda>n c. 10 * n + digit_val c) 0 s"

lemma digits_val_snoc: "digits_val (s @ [c]) = 10 * digits_val s + digit_val c"
  by (simp add: digits_val_def)

lemma format_nat_digits: "list_all is_digit (format_nat n)"
proof (induction n rule: format_nat.induct)
  case (1 n)
  then show ?case by (subst format_nat.simps) auto
qed

lemma format_nat_nonempty [simp]: "format_nat n \<noteq> []"
  by (subst format_nat.simps) simp

lemma digits_val_format_nat [simp]: "digits_val (format_nat n) = n"
proof (induction n rule: format_nat.induct)
  case (1 n)
  show ?case
  proof (cases "n < 10")
    case True
    then show ?thesis by (subst format_nat.simps) (simp add: digits_val_def)
  next
    case False
    with 1 have "digits_val (format_nat (n div 10)) = n div 10" by simp
    with False show ?thesis by (subst format_nat.simps) (simp add: digits_val_snoc)
  qed
qed

lemma format_nat_inj: "format_nat m = format_nat n \<longleftrightarrow> m = n"
  by (metis digits_val_format_nat)

text \<open>
  \<open>strconv.ParseInt(s, 10, 64)\<close>: an optional sign, then one or more decimal digits, in the range of
  a 64-bit integer. Any error of the Go function is \<^const>\<open>None\<close>; its callers use the number only
  where there is no error.
\<close>

definition parse_digits :: "string \<Rightarrow> nat option" where
  "parse_digits s = (if s \<noteq> [] \<and> list_all is_digit s then Some (digits_val s) else None)"

definition parse_int64 :: "string \<Rightarrow> int option" where
  "parse_int64 s =
     (case s of
        [] \<Rightarrow> None
      | c # cs \<Rightarrow>
          let neg = (c = CHR ''-''); body = (if c = CHR ''-'' \<or> c = CHR ''+'' then cs else s)
          in case parse_digits body of
               None \<Rightarrow> None
             | Some n \<Rightarrow>
                 let v = (if neg then - int n else int n)
                 in if is_int64 v then Some v else None)"

lemma parse_digits_format_nat [simp]: "parse_digits (format_nat n) = Some n"
  by (simp add: parse_digits_def format_nat_digits)

lemma is_digit_no_sign: "is_digit c \<Longrightarrow> c \<noteq> CHR ''-'' \<and> c \<noteq> CHR ''+''"
  by (auto simp: is_digit_def)

lemma format_nat_Cons: "format_nat n = c # cs \<Longrightarrow> is_digit c"
  using format_nat_digits [of n] by simp

lemma parse_int64_format_nat: "is_int64 (int n) \<Longrightarrow> parse_int64 (format_nat n) = Some (int n)"
proof (cases "format_nat n")
  case (Cons c cs)
  then have "c \<noteq> CHR ''-''" and "c \<noteq> CHR ''+''"
    using is_digit_no_sign [OF format_nat_Cons [OF Cons]] by auto
  moreover assume "is_int64 (int n)"
  moreover have "parse_digits (c # cs) = Some n"
    using parse_digits_format_nat [of n] Cons by simp
  ultimately show ?thesis using Cons by (simp add: parse_int64_def Let_def)
qed simp

lemma parse_int64_format_int [go_simps]: "is_int64 n \<Longrightarrow> parse_int64 (format_int n) = Some n"
proof (cases "n < 0")
  case True
  moreover assume "is_int64 n"
  ultimately show ?thesis by (simp add: format_int_def parse_int64_def Let_def)
next
  case False
  moreover assume "is_int64 n"
  ultimately show ?thesis
    using parse_int64_format_nat [of "nat n"] by (simp add: format_int_def)
qed

lemma format_int_inj: "format_int m = format_int n \<longleftrightarrow> m = n"
proof
  assume eq: "format_int m = format_int n"
  have sign: "format_nat a \<noteq> CHR ''-'' # t" for a t
    using format_nat_Cons [of a] is_digit_no_sign by blast
  show "m = n"
    using eq by (auto simp: format_int_def format_nat_inj sign sign [symmetric] split: if_splits)
qed simp

lemma parse_int64_range: "parse_int64 s = Some n \<Longrightarrow> is_int64 n"
  by (auto simp: parse_int64_def Let_def split: list.splits option.splits if_splits)

section \<open>Go maps\<close>

type_synonym ('k, 'v) gomap = "('k \<times> 'v) list"

abbreviation go_get :: "('k, 'v) gomap \<Rightarrow> 'k \<Rightarrow> 'v option" where
  "go_get m k \<equiv> map_of m k"

abbreviation go_set :: "'k \<Rightarrow> 'v \<Rightarrow> ('k, 'v) gomap \<Rightarrow> ('k, 'v) gomap" where
  "go_set k v m \<equiv> AList.update k v m"

abbreviation go_delete :: "'k \<Rightarrow> ('k, 'v) gomap \<Rightarrow> ('k, 'v) gomap" where
  "go_delete k m \<equiv> AList.delete k m"

abbreviation go_len :: "('k, 'v) gomap \<Rightarrow> nat" where
  "go_len m \<equiv> length m"

definition wf_map :: "('k, 'v) gomap \<Rightarrow> bool" where
  "wf_map m \<longleftrightarrow> distinct (map fst m)"

lemma wf_map_Nil [simp]: "wf_map []"
  by (simp add: wf_map_def)

lemma wf_map_set [simp]: "wf_map m \<Longrightarrow> wf_map (go_set k v m)"
  by (simp add: wf_map_def distinct_update)

lemma wf_map_delete [simp]: "wf_map m \<Longrightarrow> wf_map (go_delete k m)"
  by (simp add: wf_map_def distinct_delete)

lemma wf_map_filter [simp]: "wf_map m \<Longrightarrow> wf_map (filter P m)"
  by (induction m) (auto simp: wf_map_def)

lemma go_len_set [map_simps]:
  "go_len (go_set k v m) = (if go_get m k = None then Suc (go_len m) else go_len m)"
  by (induction m) auto

lemma delete_absent: "k \<notin> fst ` set m \<Longrightarrow> go_delete k m = m"
  by (induction m) (auto simp: AList.delete_eq)

lemma go_len_delete [map_simps]:
  "wf_map m \<Longrightarrow> go_len (go_delete k m) = (if go_get m k = None then go_len m else go_len m - 1)"
proof (induction m)
  case (Cons p m)
  show ?case
  proof (cases "fst p = k")
    case True
    with Cons.prems have "k \<notin> fst ` set m" by (auto simp: wf_map_def)
    then have "go_delete k m = m" by (rule delete_absent)
    with True show ?thesis by (cases p) (simp add: AList.delete_eq)
  next
    case False
    have "go_len m > 0" if "go_get m k \<noteq> None" using that by (cases m) auto
    with False Cons show ?thesis by (cases p) (auto simp: AList.delete_eq wf_map_def)
  qed
qed simp

lemma go_get_filter:
  "wf_map m \<Longrightarrow> go_get (filter (\<lambda>(k, v). P k v) m) k =
     (case go_get m k of None \<Rightarrow> None | Some v \<Rightarrow> if P k v then Some v else None)"
proof (induction m)
  case (Cons p m)
  have "go_get m (fst p) = None"
    using Cons.prems by (auto simp: wf_map_def map_of_eq_None_iff)
  with Cons show ?case by (cases p) (auto simp: wf_map_def split: option.splits)
qed simp

lemma go_get_mem: "wf_map m \<Longrightarrow> (k, v) \<in> set m \<longleftrightarrow> go_get m k = Some v"
  by (simp add: wf_map_def)

section \<open>Lists\<close>

lemma prefix_iff_take: "prefix xs ys \<longleftrightarrow> xs = take (length xs) ys"
proof
  assume "xs = take (length xs) ys"
  then show "prefix xs ys" by (metis take_is_prefix)
qed (auto elim!: prefixE)

lemma find_append: "find P (xs @ ys) = (case find P xs of None \<Rightarrow> find P ys | Some x \<Rightarrow> Some x)"
  by (induction xs) auto

lemma find_map: "find P (map f xs) = map_option f (find (P \<circ> f) xs)"
  by (induction xs) auto

lemma find_never [simp]: "find (\<lambda>x. False) xs = None"
  by (induction xs) auto

text \<open>Searching the indices below a bound from the top.\<close>

lemma find_rev_upt:
  "find P (rev [0..<Suc (Suc n)]) =
     (case find (P \<circ> Suc) (rev [0..<Suc n]) of
        None \<Rightarrow> if P 0 then Some 0 else None
      | Some k \<Rightarrow> Some (Suc k))"
proof -
  have "rev [0..<Suc (Suc n)] = map Suc (rev [0..<Suc n]) @ [0]"
    by (metis map_Suc_upt rev.simps(2) rev_map upt_conv_Cons zero_less_Suc)
  then show ?thesis
    by (simp add: find_append find_map split: option.splits del: upt_Suc)
qed

lemma find_rev_upt_Some:
  "find P (rev [0..<n]) = Some k \<longleftrightarrow> k < n \<and> P k \<and> (\<forall>j. k < j \<and> j < n \<longrightarrow> \<not> P j)"
proof (induction n)
  case (Suc n)
  then show ?case by (auto simp: less_Suc_eq)
qed simp

lemma find_rev_upt_None: "find P (rev [0..<n]) = None \<longleftrightarrow> (\<forall>k < n. \<not> P k)"
  by (auto simp: find_None_iff)

end
