(* ===== verification/GoNet.thy ===== *)
theory GoNet
  imports Prelude
begin

unbundle bit_operations_syntax

text \<open>
  The parts of Go's packages \<open>net\<close> and \<open>net/netip\<close> that package \<open>iplookup\<close> calls:
  \<open>net.ParseIP\<close>, \<open>net.ParseCIDR\<close>, \<open>IP.To4\<close>, \<open>IP.Mask\<close>, \<open>IP.String\<close>,
  \<open>net.CIDRMask\<close> and \<open>IPMask.Size\<close>, plus \<open>strings.TrimSpace\<close>. An \<open>IP\<close> is a list of
  bytes (4 or 16 of them when it comes from a parser); text that does not parse is \<^const>\<open>None\<close>.
\<close>

type_synonym byte = "8 word"
type_synonym ip = "byte list"

record IPNet =
  IP :: ip
  Mask :: "byte list"

section \<open>Addresses as bytes\<close>

definition v4_in_v6_prefix :: "byte list" where
  "v4_in_v6_prefix = replicate 10 0 @ [255, 255]"

definition To4 :: "ip \<Rightarrow> ip option" where
  "To4 a =
     (if length a = 4 then Some a
      else if length a = 16 \<and> take 12 a = v4_in_v6_prefix then Some (drop 12 a)
      else None)"

definition CIDRMask :: "nat \<Rightarrow> nat \<Rightarrow> byte list" where
  "CIDRMask ones bits =
     map (\<lambda>i. if 8 * i + 8 \<le> ones then 255
              else if ones \<le> 8 * i then 0
              else NOT (mask (8 - (ones - 8 * i)))) [0..<bits div 8]"

definition mask_bit :: "byte list \<Rightarrow> nat \<Rightarrow> bool" where
  "mask_bit m i = bit (m ! (i div 8)) (7 - i mod 8)"

definition mask_bits :: "byte list \<Rightarrow> bool list" where
  "mask_bits m = map (mask_bit m) [0..<8 * length m]"

text \<open>\<open>IPMask.Size\<close>: the number of leading ones and the length in bits, or two zeros when the
  ones are not all at the front.\<close>

definition mask_size :: "byte list \<Rightarrow> nat \<times> nat" where
  "mask_size m =
     (let bs = mask_bits m; ones = length (takeWhile id bs)
      in if list_all Not (drop ones bs) then (ones, 8 * length m) else (0, 0))"

definition ip_mask :: "ip \<Rightarrow> byte list \<Rightarrow> ip option" where
  "ip_mask a m =
     (let m' = (if length m = 16 \<and> length a = 4 \<and> list_all (\<lambda>b. b = 255) (take 12 m)
                then drop 12 m else m);
          a' = (if length m' = 4 \<and> length a = 16 \<and> take 12 a = v4_in_v6_prefix
                then drop 12 a else a)
      in if length a' \<noteq> length m' then None else Some (map2 (AND) a' m'))"

section \<open>Parsing addresses\<close>

datatype addr = Addr4 "byte list" | Addr6 "byte list"

definition addr_bits :: "addr \<Rightarrow> nat" where
  "addr_bits a = (case a of Addr4 _ \<Rightarrow> 32 | Addr6 _ \<Rightarrow> 128)"

definition as16 :: "addr \<Rightarrow> ip" where
  "as16 a = (case a of Addr4 b \<Rightarrow> v4_in_v6_prefix @ b | Addr6 b \<Rightarrow> b)"

text \<open>
  \<open>netip.parseIPv4\<close>: one pass over the bytes. \<open>octets\<close> are the octets closed so far,
  \<open>val\<close> and \<open>dig_len\<close> the open one, \<open>prev\<close> the byte before (none at the start).
\<close>

fun parse_ipv4_go :: "byte list \<Rightarrow> nat \<Rightarrow> nat \<Rightarrow> char option \<Rightarrow> string \<Rightarrow> byte list option" where
  "parse_ipv4_go octets val dig_len prev [] =
     (if length octets < 3 then None else Some (octets @ [of_nat val]))"
| "parse_ipv4_go octets val dig_len prev (c # cs) =
     (if is_digit c then
        if dig_len = 1 \<and> val = 0 then None
        else if 10 * val + digit_val c > 255 then None
        else parse_ipv4_go octets (10 * val + digit_val c) (dig_len + 1) (Some c) cs
      else if c = CHR ''.'' then
        if prev = None \<or> cs = [] \<or> prev = Some (CHR ''.'') then None
        else if length octets = 3 then None
        else parse_ipv4_go (octets @ [of_nat val]) 0 0 (Some c) cs
      else None)"

definition parse_ipv4 :: "string \<Rightarrow> byte list option" where
  "parse_ipv4 s = parse_ipv4_go [] 0 0 None s"

definition hex_val :: "char \<Rightarrow> nat option" where
  "hex_val c =
     (let n = of_char c :: nat in
      if 48 \<le> n \<and> n \<le> 57 then Some (n - 48)
      else if 97 \<le> n \<and> n \<le> 102 then Some (n - 87)
      else if 65 \<le> n \<and> n \<le> 70 then Some (n - 55)
      else None)"

text \<open>
  The hex number at the front of a group: \<open>Some (acc, off, rest)\<close>, or \<^const>\<open>None\<close> for a
  fifth digit (four digits cannot pass \<open>0xffff\<close>, so the second check of the Go loop never fires).
\<close>

fun hex_group :: "nat \<Rightarrow> nat \<Rightarrow> string \<Rightarrow> (nat \<times> nat \<times> string) option" where
  "hex_group acc off [] = Some (acc, off, [])"
| "hex_group acc off (c # cs) =
     (case hex_val c of
        None \<Rightarrow> Some (acc, off, c # cs)
      | Some d \<Rightarrow> if off > 3 then None else hex_group (16 * acc + d) (off + 1) cs)"

lemma hex_group_shorter:
  "hex_group acc off s = Some (acc', off', rest) \<Longrightarrow> length rest + off' = length s + off"
  by (induction acc off s rule: hex_group.induct) (auto split: option.splits if_splits)

definition u16_bytes :: "nat \<Rightarrow> byte list" where
  "u16_bytes n = [of_nat (n div 256), of_nat n]"

text \<open>
  One round of the group loop of \<open>netip.parseIPv6\<close>: \<open>out\<close> are the bytes written so far (the
  loop's \<open>i\<close> is their number), \<open>ell\<close> the position of the ellipsis. A round fails, breaks out of
  the loop with the text used up, or goes on with the text left.
\<close>

datatype v6_round =
    V6_fail
  | V6_break "byte list" "nat option"
  | V6_next "byte list" "nat option" string

definition after_group :: "byte list \<Rightarrow> nat option \<Rightarrow> string \<Rightarrow> v6_round" where
  "after_group out ell rest =
     (case rest of
        [] \<Rightarrow> V6_break out ell
      | [c] \<Rightarrow> V6_fail
      | c # d # ds \<Rightarrow>
          if c \<noteq> CHR '':'' then V6_fail
          else if d = CHR '':'' then
            if ell \<noteq> None then V6_fail
            else if ds = [] then V6_break out (Some (length out))
            else V6_next out (Some (length out)) ds
          else V6_next out ell (d # ds))"

definition v6_group :: "byte list \<Rightarrow> nat option \<Rightarrow> string \<Rightarrow> v6_round" where
  "v6_group out ell s =
     (case hex_group 0 0 s of
        None \<Rightarrow> V6_fail
      | Some (acc, off, rest) \<Rightarrow>
          if off = 0 then V6_fail
          else if rest \<noteq> [] \<and> hd rest = CHR ''.'' then
            if ell = None \<and> length out \<noteq> 12 then V6_fail
            else if length out + 4 > 16 then V6_fail
            else (case parse_ipv4 s of
                    None \<Rightarrow> V6_fail
                  | Some ip4 \<Rightarrow> V6_break (out @ ip4) ell)
          else after_group (out @ u16_bytes acc) ell rest)"

lemma after_group_shorter: "after_group out ell s = V6_next out' ell' s' \<Longrightarrow> length s' < length s"
  by (auto simp: after_group_def split: list.splits if_splits)

lemma v6_group_shorter: "v6_group out ell s = V6_next out' ell' s' \<Longrightarrow> length s' < length s"
  by (auto simp: v6_group_def split: option.splits if_splits
      dest!: hex_group_shorter after_group_shorter)

function parse_ipv6_go ::
  "byte list \<Rightarrow> nat option \<Rightarrow> string \<Rightarrow> (byte list \<times> nat option \<times> string) option" where
  "parse_ipv6_go out ell s =
     (if length out \<ge> 16 then Some (out, ell, s)
      else case v6_group out ell s of
        V6_fail \<Rightarrow> None
      | V6_break out' ell' \<Rightarrow> Some (out', ell', [])
      | V6_next out' ell' s' \<Rightarrow> parse_ipv6_go out' ell' s')"
  by pat_completeness auto
termination
  by (relation "measure (\<lambda>(out, ell, s). length s)") (auto dest: v6_group_shorter)

declare parse_ipv6_go.simps [simp del]

text \<open>\<open>netip.parseIPv6\<close> for text without a zone: both callers reject an address with a zone.\<close>

definition parse_ipv6 :: "string \<Rightarrow> byte list option" where
  "parse_ipv6 s =
     (let lead = (length s \<ge> 2 \<and> s ! 0 = CHR '':'' \<and> s ! 1 = CHR '':'');
          ell0 = (if lead then Some 0 else None);
          body = (if lead then drop 2 s else s)
      in if lead \<and> body = [] then Some (replicate 16 0)
         else case parse_ipv6_go [] ell0 body of
           None \<Rightarrow> None
         | Some (out, ell, rest) \<Rightarrow>
             if rest \<noteq> [] then None
             else if length out < 16 then
               (case ell of
                  None \<Rightarrow> None
                | Some e \<Rightarrow> Some (take e out @ replicate (16 - length out) 0 @ drop e out))
             else if ell \<noteq> None then None
             else Some out)"

text \<open>
  \<open>netip.ParseAddr\<close>: the first of \<open>.\<close>, \<open>:\<close> and \<open>%\<close> decides. A \<open>%\<close> after a colon starts
  a zone, and \<open>net.ParseIP\<close> and \<open>net.ParseCIDR\<close> refuse an address with a zone, so any \<open>%\<close>
  is a failure here.
\<close>

definition parse_addr :: "string \<Rightarrow> addr option" where
  "parse_addr s =
     (case find (\<lambda>c. c = CHR ''.'' \<or> c = CHR '':'' \<or> c = CHR ''%'') s of
        None \<Rightarrow> None
      | Some c \<Rightarrow>
          if c = CHR ''.'' then map_option Addr4 (parse_ipv4 s)
          else if c = CHR '':'' then
            if CHR ''%'' \<in> set s then None else map_option Addr6 (parse_ipv6 s)
          else None)"

definition ParseIP :: "string \<Rightarrow> ip option" where
  "ParseIP s = map_option as16 (parse_addr s)"

text \<open>\<open>net.dtoi\<close>: the decimal at the front, its length, and whether there was one below \<open>0xFFFFFF\<close>.\<close>

fun dtoi_go :: "nat \<Rightarrow> nat \<Rightarrow> string \<Rightarrow> nat \<times> nat \<times> bool" where
  "dtoi_go n i [] = (if i = 0 then (0, 0, False) else (n, i, True))"
| "dtoi_go n i (c # cs) =
     (if is_digit c then
        if 10 * n + digit_val c \<ge> 16777215 then (16777215, i, False)
        else dtoi_go (10 * n + digit_val c) (i + 1) cs
      else if i = 0 then (0, 0, False) else (n, i, True))"

definition ParseCIDR :: "string \<Rightarrow> IPNet option" where
  "ParseCIDR s =
     (if CHR ''/'' \<notin> set s then None
      else
        let addr = takeWhile (\<lambda>c. c \<noteq> CHR ''/'') s;
            msk = tl (dropWhile (\<lambda>c. c \<noteq> CHR ''/'') s)
        in case parse_addr addr of
             None \<Rightarrow> None
           | Some a \<Rightarrow>
               (case dtoi_go 0 0 msk of (n, i, ok) \<Rightarrow>
                  if \<not> ok \<or> i \<noteq> length msk \<or> n > addr_bits a then None
                  else let m = CIDRMask n (addr_bits a)
                       in map_option (\<lambda>b. \<lparr>IP = b, Mask = m\<rparr>) (ip_mask (as16 a) m)))"

section \<open>Membership\<close>

text \<open>\<open>IPNet.Contains\<close>, with \<open>networkNumberAndMask\<close>; \<^const>\<open>None\<close> there is the pair of nils.\<close>

definition network_number_and_mask :: "IPNet \<Rightarrow> (ip \<times> byte list) option" where
  "network_number_and_mask c =
     (let a = (case To4 (IP c) of Some v4 \<Rightarrow> v4 | None \<Rightarrow> IP c)
      in if To4 (IP c) = None \<and> length a \<noteq> 16 then None
         else if length (Mask c) = 4 then if length a \<noteq> 4 then None else Some (a, Mask c)
         else if length (Mask c) = 16 then Some (a, if length a = 4 then drop 12 (Mask c) else Mask c)
         else None)"

definition IPNet_Contains :: "IPNet \<Rightarrow> ip \<Rightarrow> bool" where
  "IPNet_Contains c a =
     (let x = (case To4 a of Some v4 \<Rightarrow> v4 | None \<Rightarrow> a)
      in case network_number_and_mask c of
           None \<Rightarrow> x = []
         | Some (nn, m) \<Rightarrow>
             length x = length nn \<and> (\<forall>i < length x. nn ! i AND m ! i = x ! i AND m ! i))"

section \<open>Printing addresses\<close>

definition hex_digit :: "nat \<Rightarrow> char" where
  "hex_digit d = char_of (if d < 10 then 48 + d else 87 + d)"

fun format_hex :: "nat \<Rightarrow> string" where
  "format_hex n = (if n < 16 then [hex_digit n] else format_hex (n div 16) @ [hex_digit (n mod 16)])"

declare format_hex.simps [simp del]

definition string4 :: "byte list \<Rightarrow> string" where
  "string4 b = format_nat (unat (b ! 0)) @ ''.'' @ format_nat (unat (b ! 1)) @ ''.''
     @ format_nat (unat (b ! 2)) @ ''.'' @ format_nat (unat (b ! 3))"

definition v6u16 :: "byte list \<Rightarrow> nat \<Rightarrow> nat" where
  "v6u16 b i = 256 * unat (b ! (2 * i)) + unat (b ! (2 * i + 1))"

definition zero_run :: "byte list \<Rightarrow> nat \<Rightarrow> nat" where
  "zero_run b i = i + length (takeWhile (\<lambda>j. v6u16 b j = 0) [i..<8])"

text \<open>The longest run of at least two zero groups, the first of them on a tie; 255 when there is none.\<close>

definition zero_span :: "byte list \<Rightarrow> nat \<times> nat" where
  "zero_span b =
     foldl (\<lambda>(zs, ze) i. let j = zero_run b i
                         in if 2 \<le> j - i \<and> ze - zs < j - i then (i, j) else (zs, ze))
       (255, 255) [0..<8]"

function string6_go :: "byte list \<Rightarrow> nat \<Rightarrow> nat \<Rightarrow> nat \<Rightarrow> string" where
  "string6_go b zs ze i =
     (if i \<ge> 8 then []
      else if i = zs then
        if ze \<ge> 8 then ''::''
        else if ze \<le> i then []
        else ''::'' @ format_hex (v6u16 b ze) @ string6_go b zs ze (ze + 1)
      else (if i > 0 then '':'' else []) @ format_hex (v6u16 b i) @ string6_go b zs ze (i + 1))"
  by pat_completeness auto
termination
  by (relation "measure (\<lambda>(b, zs, ze, i). 8 - i)") auto

declare string6_go.simps [simp del]

definition ip_string :: "ip \<Rightarrow> string" where
  "ip_string a =
     (if length a = 0 then ''<nil>''
      else if length a \<noteq> 4 \<and> length a \<noteq> 16 then
        ''?'' @ concat (map (\<lambda>w. [hex_digit (unat w div 16), hex_digit (unat w mod 16)]) a)
      else case To4 a of
        Some v4 \<Rightarrow> string4 v4
      | None \<Rightarrow> (case zero_span a of (zs, ze) \<Rightarrow> string6_go a zs ze 0))"

text \<open>
  \<open>strings.TrimSpace\<close>: the UTF-8 encodings of the code points of \<open>unicode.IsSpace\<close>, cut off
  one by one from the front and then from the back.
\<close>

definition space_seqs :: "string list" where
  "space_seqs = map (map (char_of :: nat \<Rightarrow> char))
     ([[9], [10], [11], [12], [13], [32], [194, 133], [194, 160], [225, 154, 128]]
      @ map (\<lambda>b. [226, 128, b]) [128..<139]
      @ [[226, 128, 168], [226, 128, 169], [226, 128, 175], [226, 129, 159], [227, 128, 128]])"

function trim_seqs :: "string list \<Rightarrow> string \<Rightarrow> string" where
  "trim_seqs qs s =
     (case find (\<lambda>q. prefix q s) qs of
        None \<Rightarrow> s
      | Some q \<Rightarrow> if q = [] then s else trim_seqs qs (drop (length q) s))"
  by pat_completeness auto
termination
proof (relation "measure (\<lambda>(qs, s). length s)")
  fix qs s q
  assume "find (\<lambda>q. prefix q s) qs = Some q" and "q \<noteq> []"
  then have "prefix q s" by (auto simp: find_Some_iff)
  with \<open>q \<noteq> []\<close> show "((qs, drop (length q) s), qs, s) \<in> measure (\<lambda>(qs, s). length s)"
    by (cases s) auto
qed simp

declare trim_seqs.simps [simp del]

definition TrimSpace :: "string \<Rightarrow> string" where
  "TrimSpace s = rev (trim_seqs (map rev space_seqs) (rev (trim_seqs space_seqs s)))"

section \<open>Lengths and masks\<close>

lemma parse_ipv4_go_length:
  "parse_ipv4_go octets val dig_len prev s = Some b \<Longrightarrow> length octets \<le> 3 \<Longrightarrow> length b = 4"
  by (induction octets val dig_len prev s rule: parse_ipv4_go.induct) (auto split: if_splits)

lemma parse_ipv4_length: "parse_ipv4 s = Some b \<Longrightarrow> length b = 4"
  by (auto simp: parse_ipv4_def dest: parse_ipv4_go_length)

definition v6_inv :: "byte list \<Rightarrow> nat option \<Rightarrow> bool" where
  "v6_inv out ell \<longleftrightarrow> even (length out) \<and> length out \<le> 16 \<and> (\<forall>e. ell = Some e \<longrightarrow> e \<le> length out)"

lemma after_group_inv:
  assumes "v6_inv out ell"
  shows "after_group out ell s = V6_break out' ell' \<Longrightarrow> v6_inv out' ell'"
    and "after_group out ell s = V6_next out' ell' s' \<Longrightarrow> v6_inv out' ell'"
  using assms by (auto simp: after_group_def v6_inv_def split: list.splits if_splits)

lemma v6_inv_grow: "v6_inv out ell \<Longrightarrow> length out < 16 \<Longrightarrow> v6_inv (out @ u16_bytes acc) ell"
  by (auto simp: v6_inv_def u16_bytes_def elim!: evenE)

lemma v6_group_cases:
  assumes "v6_group out ell s = r" and "r \<noteq> V6_fail"
  obtains (dotted) ip4 where "length ip4 = 4" "length out + 4 \<le> 16" "r = V6_break (out @ ip4) ell"
    | (group) acc rest where "after_group (out @ u16_bytes acc) ell rest = r"
proof (cases "hex_group 0 0 s")
  case None
  with assms show ?thesis by (simp add: v6_group_def)
next
  case (Some p)
  obtain acc off rest where p: "p = (acc, off, rest)" by (cases p) auto
  show ?thesis
  proof (cases "rest \<noteq> [] \<and> hd rest = CHR ''.''")
    case True
    with Some p assms show ?thesis
      by (auto simp: v6_group_def split: option.splits if_splits dest: parse_ipv4_length
          intro!: dotted)
  next
    case False
    with Some p assms have "after_group (out @ u16_bytes acc) ell rest = r"
      by (auto simp: v6_group_def split: if_splits)
    then show ?thesis by (rule group)
  qed
qed

lemma v6_group_inv:
  assumes "v6_inv out ell" and "length out < 16"
  shows "v6_group out ell s = V6_break out' ell' \<Longrightarrow> v6_inv out' ell'"
    and "v6_group out ell s = V6_next out' ell' s' \<Longrightarrow> v6_inv out' ell'"
proof -
  show "v6_group out ell s = V6_break out' ell' \<Longrightarrow> v6_inv out' ell'"
  proof (erule v6_group_cases)
    fix ip4 :: "byte list"
    assume "length ip4 = 4" "length out + 4 \<le> 16" "V6_break out' ell' = V6_break (out @ ip4) ell"
    with assms(1) show ?thesis by (auto simp: v6_inv_def)
  qed (auto dest: after_group_inv(1) [OF v6_inv_grow [OF assms]])
  show "v6_group out ell s = V6_next out' ell' s' \<Longrightarrow> v6_inv out' ell'"
    by (erule v6_group_cases) (auto dest: after_group_inv(2) [OF v6_inv_grow [OF assms]])
qed

lemma parse_ipv6_go_inv:
  "parse_ipv6_go out ell s = Some (out', ell', rest) \<Longrightarrow> v6_inv out ell \<Longrightarrow> v6_inv out' ell'"
proof (induction out ell s rule: parse_ipv6_go.induct)
  case (1 out ell s)
  then show ?case
    by (subst (asm) (2) parse_ipv6_go.simps) (auto split: if_splits v6_round.splits dest: v6_group_inv)
qed

lemma parse_ipv6_length: "parse_ipv6 s = Some b \<Longrightarrow> length b = 16"
proof -
  have "v6_inv [] ell0 \<longleftrightarrow> ell0 = None \<or> ell0 = Some 0" for ell0
    by (cases ell0) (auto simp: v6_inv_def)
  note start = this
  assume "parse_ipv6 s = Some b"
  then show ?thesis
    by (auto simp: parse_ipv6_def Let_def start split: if_splits option.splits
        dest!: parse_ipv6_go_inv) (auto simp: v6_inv_def min_def)
qed

lemma parse_addr_length:
  "parse_addr s = Some (Addr4 b) \<Longrightarrow> length b = 4" "parse_addr s = Some (Addr6 b) \<Longrightarrow> length b = 16"
  by (auto simp: parse_addr_def split: option.splits if_splits dest: parse_ipv4_length parse_ipv6_length)

lemma as16_length: "parse_addr s = Some a \<Longrightarrow> length (as16 a) = 16"
  by (cases a) (auto simp: as16_def v4_in_v6_prefix_def dest: parse_addr_length)

lemma length_CIDRMask [simp]: "length (CIDRMask n bits) = bits div 8"
  by (simp add: CIDRMask_def)

lemma bit_255: "j < 8 \<Longrightarrow> bit (255 :: byte) j"
proof -
  assume "j < 8"
  moreover have m: "(255 :: byte) = mask 8" by (simp add: mask_eq_exp_minus_1)
  ultimately show ?thesis unfolding m by (simp add: bit_mask_iff)
qed

lemma mask_bit_CIDRMask: "i < 8 * (bits div 8) \<Longrightarrow> mask_bit (CIDRMask n bits) i \<longleftrightarrow> i < n"
proof -
  assume i: "i < 8 * (bits div 8)"
  obtain q r where qr: "i = 8 * q + r" "r < 8"
    by (metis mod_less_divisor mult_div_mod_eq zero_less_numeral)
  with i have "q < bits div 8" by linarith
  with qr bit_255 [of "7 - r"] show ?thesis
    by (auto simp: mask_bit_def CIDRMask_def bit_not_iff bit_mask_iff)
qed

lemma mask_size_prefix:
  assumes "\<And>i. i < 8 * length m \<Longrightarrow> mask_bit m i \<longleftrightarrow> i < n" and "n \<le> 8 * length m"
  shows "mask_size m = (n, 8 * length m)"
proof -
  have "mask_bits m = map (\<lambda>i. i < n) [0..<8 * length m]"
    using assms(1) by (simp add: mask_bits_def)
  also have "\<dots> = replicate n True @ replicate (8 * length m - n) False"
    using assms(2) by (intro nth_equalityI) (auto simp: nth_append)
  finally have bits: "mask_bits m = replicate n True @ replicate (8 * length m - n) False" .
  have "takeWhile id (replicate n True @ replicate k False) = replicate n True" for k
    by (induction n) (cases k; simp)+
  with bits show ?thesis by (simp add: mask_size_def Let_def list_all_iff)
qed

lemma mask_size_CIDRMask:
  "n \<le> bits \<Longrightarrow> 8 dvd bits \<Longrightarrow> mask_size (CIDRMask n bits) = (n, bits)"
  using mask_size_prefix [of "CIDRMask n bits" n] mask_bit_CIDRMask [of _ bits n] by auto


section \<open>What ParseCIDR returns\<close>

lemma bit_map2_and:
  "length a = length m \<Longrightarrow> j < length a \<Longrightarrow> map2 (AND) a m ! j = a ! j AND (m ! j :: byte)"
  by simp

lemma ParseCIDR_cases:
  assumes "ParseCIDR s = Some c"
  obtains (v4) b n where "length b = 4" "n \<le> 32" "Mask c = CIDRMask n 32" "IP c = map2 (AND) b (Mask c)"
    | (v6) b n where "length b = 16" "n \<le> 128" "Mask c = CIDRMask n 128" "IP c = map2 (AND) b (Mask c)"
proof -
  from assms obtain t a n where a: "parse_addr t = Some a" and n: "\<not> addr_bits a < n"
      and c: "ip_mask (as16 a) (CIDRMask n (addr_bits a)) = Some (IP c)" "Mask c = CIDRMask n (addr_bits a)"
    by (auto simp: ParseCIDR_def Let_def split: if_splits option.splits prod.splits)
  show ?thesis
  proof (cases a)
    case (Addr4 b)
    with a have "length b = 4" by (auto dest: parse_addr_length)
    with Addr4 n c v4 [of b n] show ?thesis
      by (simp add: addr_bits_def as16_def ip_mask_def v4_in_v6_prefix_def Let_def)
  next
    case (Addr6 b)
    with a have "length b = 16" by (auto dest: parse_addr_length)
    with Addr6 n c v6 [of b n] show ?thesis
      by (simp add: addr_bits_def as16_def ip_mask_def Let_def)
  qed
qed

text \<open>A mapped network keeps its mapped form only from length 96 on: a shorter mask clears a bit of
  the two \<open>0xff\<close> bytes.\<close>

lemma To4_masked:
  assumes "length b = 16" and "To4 (map2 (AND) b (CIDRMask n 128)) \<noteq> None"
  shows "96 \<le> n"
proof (rule ccontr)
  assume "\<not> 96 \<le> n"
  then have "\<not> mask_bit (CIDRMask n 128) 95" by (simp add: mask_bit_CIDRMask)
  then have "\<not> bit (map2 (AND) b (CIDRMask n 128) ! 11) 0"
    using assms(1) by (simp add: mask_bit_def bit_and_iff)
  moreover have eq: "take 12 (map2 (AND) b (CIDRMask n 128)) = v4_in_v6_prefix"
    using assms by (auto simp: To4_def split: if_splits)
  have "take 12 (map2 (AND) b (CIDRMask n 128)) ! 11 = 255"
    unfolding eq by (simp add: v4_in_v6_prefix_def nth_append)
  then have "map2 (AND) b (CIDRMask n 128) ! 11 = 255" by simp
  ultimately show False by simp
qed

section \<open>Printing and parsing back\<close>

subsection \<open>Dotted decimal\<close>

lemma digits_val_Cons:
  "foldl (\<lambda>n c. 10 * n + digit_val c) v ds \<ge> v" for v :: nat
proof (induction ds arbitrary: v)
  case (Cons c ds)
  have "v \<le> 10 * v + digit_val c" by simp
  also have "\<dots> \<le> foldl (\<lambda>n c. 10 * n + digit_val c) (10 * v + digit_val c) ds" by (rule Cons.IH)
  finally show ?case by simp
qed simp

lemma parse_ipv4_digits:
  "list_all is_digit ds \<Longrightarrow> 0 < v \<or> d = 0 \<and> (length ds \<le> 1 \<or> digit_val (hd ds) \<noteq> 0) \<Longrightarrow>
   foldl (\<lambda>n c. 10 * n + digit_val c) v ds \<le> 255 \<Longrightarrow> d = 0 \<longrightarrow> v = 0 \<Longrightarrow>
   parse_ipv4_go octets v d prev (ds @ rest) =
     parse_ipv4_go octets (foldl (\<lambda>n c. 10 * n + digit_val c) v ds) (d + length ds)
       (if ds = [] then prev else Some (last ds)) rest"
proof (induction ds arbitrary: v d prev)
  case (Cons c ds)
  let ?v = "10 * v + digit_val c"
  have "?v \<le> 255" using Cons.prems(3) digits_val_Cons [of ?v ds] by simp
  moreover have "\<not> (d = 1 \<and> v = 0)" using Cons.prems(2) by auto
  moreover have "is_digit c" using Cons.prems(1) by simp
  ultimately have "parse_ipv4_go octets v d prev ((c # ds) @ rest)
      = parse_ipv4_go octets ?v (d + 1) (Some c) (ds @ rest)"
    by auto
  also have "\<dots> = parse_ipv4_go octets (foldl (\<lambda>n c. 10 * n + digit_val c) ?v ds) (d + 1 + length ds)
       (if ds = [] then Some c else Some (last ds)) rest"
  proof (cases "ds = []")
    case False
    with Cons.prems(2,4) have "0 < ?v" by (cases ds) auto
    with Cons show ?thesis by (intro Cons.IH) auto
  qed simp
  finally show ?case by simp
qed simp

lemma format_nat_hd: "10 \<le> n \<Longrightarrow> digit_val (hd (format_nat n)) \<noteq> 0"
proof (induction n rule: format_nat.induct)
  case (1 n)
  have "hd (format_nat n) = hd (format_nat (n div 10))"
    using 1(2) by (subst format_nat.simps) (simp add: hd_append)
  moreover have "digit_val (hd (format_nat (n div 10))) \<noteq> 0"
  proof (cases "n div 10 < 10")
    case True
    then have "format_nat (n div 10) = [digit_char (n div 10)]" by (subst format_nat.simps) simp
    with True 1(2) show ?thesis by auto
  next
    case False
    with 1 show ?thesis by simp
  qed
  ultimately show ?case by simp
qed

lemma format_nat_short: "n < 10 \<Longrightarrow> length (format_nat n) = 1"
  by (subst format_nat.simps) simp

lemma last_format_nat: "is_digit (last (format_nat n))"
  using format_nat_digits [of n] by (simp add: list_all_iff)

lemma parse_ipv4_octet:
  "n \<le> 255 \<Longrightarrow> \<exists>d c. is_digit c \<and> parse_ipv4_go octets 0 0 prev (format_nat n @ rest)
     = parse_ipv4_go octets n d (Some c) rest"
proof -
  assume n: "n \<le> 255"
  have "length (format_nat n) \<le> 1 \<or> digit_val (hd (format_nat n)) \<noteq> 0"
    using format_nat_short [of n] format_nat_hd [of n] by linarith
  then have "parse_ipv4_go octets 0 0 prev (format_nat n @ rest)
      = parse_ipv4_go octets n (length (format_nat n)) (Some (last (format_nat n))) rest"
    using parse_ipv4_digits [of "format_nat n" 0 0 octets prev rest] n
    by (simp add: format_nat_digits digits_val_format_nat [unfolded digits_val_def])
  then show ?thesis using last_format_nat by blast
qed

lemma is_digit_not_dot: "is_digit c \<Longrightarrow> c \<noteq> CHR ''.''"
  by (auto simp: is_digit_def)

lemma dot_not_digit: "\<not> is_digit (CHR ''.'')"
  by (simp add: is_digit_def)

lemma parse_ipv4_octet_dot:
  assumes "n \<le> 255" and "length octets < 3" and "rest \<noteq> []"
  shows "\<exists>c. parse_ipv4_go octets 0 0 prev (format_nat n @ ''.'' @ rest)
     = parse_ipv4_go (octets @ [of_nat n]) 0 0 (Some c) rest"
proof -
  obtain d c where c: "is_digit c"
    and eq: "parse_ipv4_go octets 0 0 prev (format_nat n @ ''.'' @ rest)
       = parse_ipv4_go octets n d (Some c) (''.'' @ rest)"
    using parse_ipv4_octet [OF assms(1), of octets prev "''.'' @ rest"] by blast
  then show ?thesis using assms(2,3) is_digit_not_dot [OF c] dot_not_digit by auto
qed

lemma length4: "length b = 4 \<Longrightarrow> b = [b ! 0, b ! 1, b ! 2, b ! 3]"
  by (auto simp: numeral_eq_Suc length_Suc_conv)

lemma parse_ipv4_string4:
  assumes "length b = 4"
  shows "parse_ipv4 (string4 b) = Some b"
proof -
  have u: "unat w \<le> 255" for w :: byte
  proof -
    have "unat w < 2 ^ LENGTH(8)" by (rule unsigned_less)
    then show ?thesis by simp
  qed
  obtain c1 where 1: "parse_ipv4_go [] 0 0 None (format_nat (unat (b ! 0)) @ ''.'' @ format_nat (unat (b ! 1)) @ ''.''
     @ format_nat (unat (b ! 2)) @ ''.'' @ format_nat (unat (b ! 3)))
     = parse_ipv4_go [b ! 0] 0 0 (Some c1) (format_nat (unat (b ! 1)) @ ''.''
     @ format_nat (unat (b ! 2)) @ ''.'' @ format_nat (unat (b ! 3)))"
    using parse_ipv4_octet_dot [OF u, of "[]" _ None "b ! 0"] by fastforce
  obtain c2 where 2: "parse_ipv4_go [b ! 0] 0 0 (Some c1) (format_nat (unat (b ! 1)) @ ''.''
     @ format_nat (unat (b ! 2)) @ ''.'' @ format_nat (unat (b ! 3)))
     = parse_ipv4_go [b ! 0, b ! 1] 0 0 (Some c2) (format_nat (unat (b ! 2)) @ ''.'' @ format_nat (unat (b ! 3)))"
    using parse_ipv4_octet_dot [OF u, of "[b ! 0]" _ "Some c1" "b ! 1"] by fastforce
  obtain c3 where 3: "parse_ipv4_go [b ! 0, b ! 1] 0 0 (Some c2) (format_nat (unat (b ! 2)) @ ''.'' @ format_nat (unat (b ! 3)))
     = parse_ipv4_go [b ! 0, b ! 1, b ! 2] 0 0 (Some c3) (format_nat (unat (b ! 3)))"
    using parse_ipv4_octet_dot [OF u, of "[b ! 0, b ! 1]" _ "Some c2" "b ! 2"] by fastforce
  obtain d c4 where 4: "parse_ipv4_go [b ! 0, b ! 1, b ! 2] 0 0 (Some c3) (format_nat (unat (b ! 3)) @ [])
     = parse_ipv4_go [b ! 0, b ! 1, b ! 2] (unat (b ! 3)) d (Some c4) []"
    using parse_ipv4_octet [OF u] by blast
  show ?thesis
    using length4 [OF assms] 1 2 3 4 by (simp add: parse_ipv4_def string4_def)
qed

subsection \<open>Colon hexadecimal\<close>

lemma hex_val_digit: "d < 16 \<Longrightarrow> hex_val (hex_digit d) = Some d"
  by (auto simp: hex_val_def hex_digit_def Let_def)

lemma hex_val_special: "hex_val (CHR '':'') = None" "hex_val (CHR ''.'') = None"
  "hex_val (CHR ''%'') = None" "hex_val (CHR ''/'') = None"
  by (simp_all add: hex_val_def)

lemma format_hex_digits: "list_all (\<lambda>c. hex_val c \<noteq> None) (format_hex n)"
  by (induction n rule: format_hex.induct) (subst format_hex.simps, simp add: hex_val_digit)

lemma format_hex_nonempty [simp]: "format_hex n \<noteq> []"
  by (subst format_hex.simps) simp

lemma format_hex_clean: "c \<in> set (format_hex n) \<Longrightarrow> c \<notin> {CHR '':'', CHR ''.'', CHR ''%'', CHR ''/''}"
  using format_hex_digits [of n] hex_val_special by (auto simp: list_all_iff)

lemma length_format_hex: "n < 16 ^ k \<Longrightarrow> 0 < k \<Longrightarrow> length (format_hex n) \<le> k"
proof (induction n arbitrary: k rule: format_hex.induct)
  case (1 n)
  show ?case
  proof (cases "n < 16")
    case True
    then show ?thesis using 1(3) by (subst format_hex.simps) simp
  next
    case False
    then obtain j where k: "k = Suc j" "0 < j" using 1(2,3) by (cases k; cases "k - 1") auto
    with 1(2) have "n div 16 < 16 ^ j" by (simp add: less_mult_imp_div_less mult.commute)
    with 1(1) False k(2) have "length (format_hex (n div 16)) \<le> j" by blast
    then show ?thesis using False k by (subst format_hex.simps) simp
  qed
qed

lemma hex_group_append:
  "list_all (\<lambda>c. hex_val c \<noteq> None) ds \<Longrightarrow> off + length ds \<le> 4 \<Longrightarrow>
   hex_group acc off (ds @ rest) =
     hex_group (foldl (\<lambda>n c. 16 * n + the (hex_val c)) acc ds) (off + length ds) rest"
  by (induction ds arbitrary: acc off) auto

lemma foldl_format_hex: "foldl (\<lambda>n c. 16 * n + the (hex_val c)) 0 (format_hex n) = n"
  by (induction n rule: format_hex.induct)
    (subst format_hex.simps, simp add: hex_val_digit)

definition no_hex :: "string \<Rightarrow> bool" where
  "no_hex s = (s = [] \<or> hex_val (hd s) = None)"

lemma hex_group_format:
  assumes "n < 65536" and "no_hex rest"
  shows "hex_group 0 0 (format_hex n @ rest) = Some (n, length (format_hex n), rest)"
proof -
  have "length (format_hex n) \<le> 4" using length_format_hex [of n 4] assms(1) by simp
  then have "hex_group 0 0 (format_hex n @ rest) = hex_group n (length (format_hex n)) rest"
    using hex_group_append [OF format_hex_digits, of 0 n 0 rest] by (simp add: foldl_format_hex)
  then show ?thesis using assms(2) by (cases rest) (auto simp: no_hex_def)
qed

definition colon_hex :: "nat list \<Rightarrow> string" where
  "colon_hex gs = concat (map (\<lambda>g. CHR '':'' # format_hex g) gs)"

lemma colon_hex_simps [simp]:
  "colon_hex [] = []"
  "colon_hex (g # gs) = CHR '':'' # format_hex g @ colon_hex gs"
  by (simp_all add: colon_hex_def)

lemma colon_hex_append [simp]: "colon_hex (gs @ hs) = colon_hex gs @ colon_hex hs"
  by (simp add: colon_hex_def)

definition starts_colon :: "string \<Rightarrow> bool" where
  "starts_colon s = (s = [] \<or> hd s = CHR '':'')"

lemma starts_colon_hex: "starts_colon s \<Longrightarrow> starts_colon (colon_hex gs @ s)"
  by (cases gs) (auto simp: starts_colon_def)

lemma v6_group_format:
  assumes "g < 65536" and "starts_colon rest"
  shows "v6_group out ell (format_hex g @ rest) = after_group (out @ u16_bytes g) ell rest"
proof -
  have "no_hex rest" using assms(2) hex_val_special by (auto simp: starts_colon_def no_hex_def)
  moreover have "\<not> (rest \<noteq> [] \<and> hd rest = CHR ''.'')" using assms(2) by (auto simp: starts_colon_def)
  ultimately show ?thesis unfolding v6_group_def by (auto simp: hex_group_format assms(1))
qed

lemma after_group_colon:
  "after_group out ell (CHR '':'' # format_hex g @ s) = V6_next out ell (format_hex g @ s)"
proof -
  obtain c cs where c: "format_hex g = c # cs" by (cases "format_hex g") auto
  then have "c \<noteq> CHR '':''" using format_hex_clean [of c g] by simp
  then show ?thesis by (simp add: after_group_def c)
qed

lemma length_u16_bytes [simp]: "length (u16_bytes g) = 2"
  by (simp add: u16_bytes_def)

definition u16s :: "nat list \<Rightarrow> byte list" where
  "u16s gs = concat (map u16_bytes gs)"

lemma u16s_simps [simp]: "u16s [] = []" "u16s (g # gs) = u16_bytes g @ u16s gs"
  "u16s (gs @ hs) = u16s gs @ u16s hs"
  by (simp_all add: u16s_def)

lemma length_u16s [simp]: "length (u16s gs) = 2 * length gs"
  by (induction gs) auto

lemma parse_ipv6_groups:
  "\<forall>h \<in> set (g # gs). h < 65536 \<Longrightarrow> starts_colon rest \<Longrightarrow> length out + 2 * length gs < 16 \<Longrightarrow>
   parse_ipv6_go out ell (format_hex g @ colon_hex gs @ rest) =
     (case after_group (out @ u16s (g # gs)) ell rest of
        V6_fail \<Rightarrow> None
      | V6_break out' ell' \<Rightarrow> Some (out', ell', [])
      | V6_next out' ell' s' \<Rightarrow> parse_ipv6_go out' ell' s')"
proof (induction gs arbitrary: g out)
  case Nil
  then show ?case by (subst parse_ipv6_go.simps) (simp add: v6_group_format)
next
  case (Cons h hs)
  have "starts_colon (colon_hex (h # hs) @ rest)" by (simp add: starts_colon_def)
  then have "parse_ipv6_go out ell (format_hex g @ colon_hex (h # hs) @ rest)
      = parse_ipv6_go (out @ u16_bytes g) ell (format_hex h @ colon_hex hs @ rest)"
    using Cons.prems by (subst parse_ipv6_go.simps)
      (simp add: v6_group_format after_group_colon)
  also have "\<dots> = (case after_group ((out @ u16_bytes g) @ u16s (h # hs)) ell rest of
        V6_fail \<Rightarrow> None
      | V6_break out' ell' \<Rightarrow> Some (out', ell', [])
      | V6_next out' ell' s' \<Rightarrow> parse_ipv6_go out' ell' s')"
    using Cons.prems by (intro Cons.IH) auto
  finally show ?case by simp
qed

definition hex_join :: "nat list \<Rightarrow> string" where
  "hex_join gs = (case gs of [] \<Rightarrow> [] | g # hs \<Rightarrow> format_hex g @ colon_hex hs)"

lemma parse_ipv6_tail:
  "\<forall>h \<in> set gs. h < 65536 \<Longrightarrow> gs \<noteq> [] \<Longrightarrow> length out + 2 * length gs \<le> 16 \<Longrightarrow>
   parse_ipv6_go out ell (hex_join gs) = Some (out @ u16s gs, ell, [])"
  by (cases gs)
    (use parse_ipv6_groups [where rest = "[]"] in
      \<open>auto simp: hex_join_def starts_colon_def after_group_def\<close>)

lemma parse_ipv6_ellipsis:
  assumes "\<forall>h \<in> set gs. h < 65536" and "gs \<noteq> []" and "\<forall>h \<in> set hs. h < 65536"
    and "length gs + length hs \<le> 7"
  shows "parse_ipv6_go [] None (hex_join gs @ ''::'' @ hex_join hs)
     = Some (u16s gs @ u16s hs, Some (2 * length gs), [])"
proof -
  obtain g gs' where gs: "gs = g # gs'" using assms(2) by (cases gs) auto
  have "parse_ipv6_go [] None (hex_join gs @ ''::'' @ hex_join hs)
     = (case after_group (u16s gs) None (''::'' @ hex_join hs) of
        V6_fail \<Rightarrow> None
      | V6_break out' ell' \<Rightarrow> Some (out', ell', [])
      | V6_next out' ell' s' \<Rightarrow> parse_ipv6_go out' ell' s')"
    using parse_ipv6_groups [of g gs' "''::'' @ hex_join hs" "[]" None] assms gs
    by (simp add: hex_join_def starts_colon_def)
  also have "\<dots> = Some (u16s gs @ u16s hs, Some (2 * length gs), [])"
  proof (cases "hs = []")
    case True
    then show ?thesis by (simp add: after_group_def hex_join_def)
  next
    case False
    then have "hex_join hs \<noteq> []" by (cases hs) (auto simp: hex_join_def)
    then have "after_group (u16s gs) None (''::'' @ hex_join hs)
        = V6_next (u16s gs) (Some (2 * length gs)) (hex_join hs)"
      by (simp add: after_group_def)
    with parse_ipv6_tail [of hs "u16s gs"] assms False show ?thesis by simp
  qed
  finally show ?thesis .
qed

definition groups :: "ip \<Rightarrow> nat \<Rightarrow> nat \<Rightarrow> nat list" where
  "groups a i j = map (v6u16 a) [i..<j]"

lemma byte_less: "unat (w :: byte) < 256"
proof -
  have "unat w < 2 ^ LENGTH(8)" by (rule unsigned_less)
  then show ?thesis by simp
qed

lemma v6u16_less: "v6u16 a i < 65536"
  using byte_less [of "a ! (2 * i)"] byte_less [of "a ! (2 * i + 1)"] by (simp add: v6u16_def)

lemma groups_less: "\<forall>h \<in> set (groups a i j). h < 65536"
  by (auto simp: groups_def v6u16_less)

lemma length_groups [simp]: "length (groups a i j) = j - i"
  by (simp add: groups_def)

lemma groups_split: "i \<le> j \<Longrightarrow> j \<le> k \<Longrightarrow> groups a i k = groups a i j @ groups a j k"
  unfolding groups_def by (metis le_Suc_ex map_append upt_add_eq_append)

lemma groups_Cons: "i < j \<Longrightarrow> groups a i j = v6u16 a i # groups a (Suc i) j"
  by (simp add: groups_def upt_conv_Cons)

lemma u16_bytes_v6u16: "u16_bytes (v6u16 a i) = [a ! (2 * i), a ! (2 * i + 1)]"
proof -
  have "(256 :: byte) = 0" by simp
  then have "256 * a ! (2 * i) = 0" by (simp only: mult_zero_left)
  then have "of_nat (v6u16 a i) = a ! (2 * i + 1)" by (simp add: v6u16_def)
  moreover have "v6u16 a i div 256 = unat (a ! (2 * i))"
    using byte_less [of "a ! (2 * i + 1)"] by (simp add: v6u16_def)
  ultimately show ?thesis by (simp add: u16_bytes_def)
qed

lemma u16s_groups: "length a = 16 \<Longrightarrow> u16s (groups a 0 8) = a"
  by (rule nth_equalityI)
    (auto simp: groups_def u16_bytes_v6u16 u16s_def upt_rec nth_Cons numeral_eq_Suc less_Suc_eq)

lemma u16s_zero: "\<forall>g \<in> set gs. g = 0 \<Longrightarrow> u16s gs = replicate (2 * length gs) 0"
  by (induction gs) (auto simp: u16_bytes_def)

lemma zero_run_bounds:
  assumes "i < 8"
  shows "i \<le> zero_run b i" and "zero_run b i \<le> 8" and "i \<le> j \<Longrightarrow> j < zero_run b i \<Longrightarrow> v6u16 b j = 0"
proof -
  have len: "length (takeWhile (\<lambda>j. v6u16 b j = 0) [i..<8]) \<le> 8 - i"
    using length_takeWhile_le [of "\<lambda>j. v6u16 b j = 0" "[i..<8]"] by simp
  then show "i \<le> zero_run b i" "zero_run b i \<le> 8" using assms by (simp_all add: zero_run_def)
  assume j: "i \<le> j" "j < zero_run b i"
  then have k: "j - i < length (takeWhile (\<lambda>j. v6u16 b j = 0) [i..<8])" by (simp add: zero_run_def)
  then have "takeWhile (\<lambda>j. v6u16 b j = 0) [i..<8] ! (j - i) = [i..<8] ! (j - i)"
    by (rule takeWhile_nth)
  also have "\<dots> = j" using j k len by simp
  finally have "j \<in> set (takeWhile (\<lambda>j. v6u16 b j = 0) [i..<8])" using k by (metis nth_mem)
  then show "v6u16 b j = 0" by (auto dest: set_takeWhileD)
qed

definition span_ok :: "ip \<Rightarrow> nat \<times> nat \<Rightarrow> bool" where
  "span_ok b z = (case z of (zs, ze) \<Rightarrow>
     zs = 255 \<and> ze = 255 \<or> zs + 2 \<le> ze \<and> ze \<le> 8 \<and> (\<forall>j. zs \<le> j \<longrightarrow> j < ze \<longrightarrow> v6u16 b j = 0))"

lemma span_ok_fold:
  "\<forall>i \<in> set is. i < 8 \<Longrightarrow> span_ok b z \<Longrightarrow>
   span_ok b (foldl (\<lambda>(zs, ze) i. let j = zero_run b i
     in if 2 \<le> j - i \<and> ze - zs < j - i then (i, j) else (zs, ze)) z is)"
proof (induction "is" arbitrary: z)
  case (Cons i "is")
  let ?z = "(\<lambda>(zs, ze) i. let j = zero_run b i
     in if 2 \<le> j - i \<and> ze - zs < j - i then (i, j) else (zs, ze)) z i"
  have "span_ok b ?z"
    using Cons.prems zero_run_bounds [where i = i and b = b] by (auto simp: span_ok_def Let_def split: if_splits)
  with Cons show ?case by simp
qed simp

lemma span_ok_zero_span: "span_ok b (zero_span b)"
  unfolding zero_span_def by (rule span_ok_fold) (auto simp: span_ok_def)

lemma string6_go_after:
  "0 < i \<Longrightarrow> zs < i \<or> 8 \<le> zs \<Longrightarrow> string6_go b zs ze i = colon_hex (groups b i 8)"
proof (induction "8 - i" arbitrary: i)
  case 0
  then show ?case by (subst string6_go.simps) (simp add: groups_def)
next
  case (Suc n)
  then have "string6_go b zs ze (Suc i) = colon_hex (groups b (Suc i) 8)" by (intro Suc(1)) auto
  moreover have "i < 8" "i \<noteq> zs" using Suc by auto
  ultimately show ?case using Suc(3) by (subst string6_go.simps) (simp add: groups_Cons [of i 8 b])
qed

lemma string6_go_span: "zs < ze \<Longrightarrow> ze \<le> 8 \<Longrightarrow> string6_go b zs ze zs = ''::'' @ hex_join (groups b ze 8)"
  by (subst string6_go.simps)
    (auto simp: string6_go_after hex_join_def groups_Cons [of ze 8 b] groups_def [of b 8 8])

lemma string6_go_before:
  "0 < i \<Longrightarrow> i \<le> zs \<Longrightarrow> zs < ze \<Longrightarrow> ze \<le> 8 \<Longrightarrow>
   string6_go b zs ze i = colon_hex (groups b i zs) @ ''::'' @ hex_join (groups b ze 8)"
proof (induction "zs - i" arbitrary: i)
  case 0
  then show ?case using string6_go_span by (simp add: groups_def)
next
  case (Suc n)
  then have "string6_go b zs ze (Suc i) = colon_hex (groups b (Suc i) zs) @ ''::'' @ hex_join (groups b ze 8)"
    by (intro Suc(1)) auto
  moreover have "i < 8" "i \<noteq> zs" "i < zs" using Suc by auto
  ultimately show ?case using Suc(3) by (subst string6_go.simps) (simp add: groups_Cons [of i zs b])
qed

lemma string6_cases:
  assumes "span_ok b (zs, ze)"
  obtains (plain) "string6_go b zs ze 0 = hex_join (groups b 0 8)"
  | (ellipsis) "zs + 2 \<le> ze" "ze \<le> 8" "\<forall>g \<in> set (groups b zs ze). g = 0"
      "string6_go b zs ze 0 = hex_join (groups b 0 zs) @ ''::'' @ hex_join (groups b ze 8)"
proof (cases "zs = 255 \<and> ze = 255")
  case True
  then have "string6_go b zs ze 0 = format_hex (v6u16 b 0) @ colon_hex (groups b 1 8)"
    by (subst string6_go.simps) (simp add: string6_go_after)
  then show ?thesis using plain by (simp add: hex_join_def groups_Cons [of 0 8 b])
next
  case False
  with assms have z: "zs + 2 \<le> ze" "ze \<le> 8" "\<forall>g \<in> set (groups b zs ze). g = 0"
    by (auto simp: span_ok_def groups_def)
  have "string6_go b zs ze 0 = hex_join (groups b 0 zs) @ ''::'' @ hex_join (groups b ze 8)"
  proof (cases "zs = 0")
    case True
    then show ?thesis using string6_go_span [of 0 ze b] z by (simp add: groups_def hex_join_def)
  next
    case False
    then have "string6_go b zs ze 0 = format_hex (v6u16 b 0) @ string6_go b zs ze 1"
      using z by (subst string6_go.simps) simp
    with False z show ?thesis
      by (simp add: string6_go_before hex_join_def groups_Cons [of 0 zs b])
  qed
  with z show ?thesis by (rule ellipsis)
qed

lemma hex_join_hd: "gs \<noteq> [] \<Longrightarrow> hex_join gs @ s \<noteq> [] \<and> hd (hex_join gs @ s) \<noteq> CHR '':''"
proof (cases gs)
  case (Cons g hs)
  have "hd (format_hex g) \<in> set (format_hex g)" by simp
  from format_hex_clean [OF this] show ?thesis using Cons by (simp add: hex_join_def hd_append)
qed simp

lemma parse_ipv6_no_lead:
  "s \<noteq> [] \<Longrightarrow> hd s \<noteq> CHR '':'' \<Longrightarrow>
   parse_ipv6 s = (case parse_ipv6_go [] None s of
      None \<Rightarrow> None
    | Some (out, ell, rest) \<Rightarrow>
        if rest \<noteq> [] then None
        else if length out < 16 then
          (case ell of None \<Rightarrow> None | Some e \<Rightarrow> Some (take e out @ replicate (16 - length out) 0 @ drop e out))
        else if ell \<noteq> None then None
        else Some out)"
  by (simp add: parse_ipv6_def Let_def hd_conv_nth)

lemma u16s_ellipsis:
  assumes "length a = 16" and "zs \<le> ze" and "ze \<le> 8" and "\<forall>g \<in> set (groups a zs ze). g = 0"
  shows "u16s (groups a 0 zs) @ replicate (2 * (ze - zs)) 0 @ u16s (groups a ze 8) = a"
proof -
  have "groups a 0 8 = groups a 0 zs @ groups a zs ze @ groups a ze 8"
    using assms groups_split [of 0 zs 8 a] groups_split [of zs ze 8 a] by simp
  then have "a = u16s (groups a 0 zs) @ u16s (groups a zs ze) @ u16s (groups a ze 8)"
    using u16s_groups [OF assms(1)] by simp
  then show ?thesis using u16s_zero [OF assms(4)] by simp
qed

lemma parse_ipv6_string6:
  assumes a: "length a = 16" and "span_ok a (zs, ze)"
  shows "parse_ipv6 (string6_go a zs ze 0) = Some a"
  using assms(2)
proof (cases rule: string6_cases)
  case plain
  have "groups a 0 8 \<noteq> []" by (simp add: groups_Cons)
  then show ?thesis
    using parse_ipv6_tail [OF groups_less, of a 0 8 "[]" None] hex_join_hd [of "groups a 0 8" "[]"] a
    by (simp add: plain parse_ipv6_no_lead u16s_groups)
next
  case ellipsis
  note eq = u16s_ellipsis [OF a _ ellipsis(2,3)]
  show ?thesis
  proof (cases "zs = 0")
    case True
    then have s: "string6_go a zs ze 0 = ''::'' @ hex_join (groups a ze 8)"
      using ellipsis(4) by (simp add: groups_def hex_join_def)
    show ?thesis
    proof (cases "ze = 8")
      case True
      with eq \<open>zs = 0\<close> show ?thesis
        using s by (simp add: parse_ipv6_def hex_join_def groups_def)
    next
      case False
      then have ne: "groups a ze 8 \<noteq> []" using ellipsis(2) by (simp add: groups_Cons)
      then have "hex_join (groups a ze 8) \<noteq> []" using hex_join_hd [of "groups a ze 8" "[]"] by simp
      moreover have "parse_ipv6_go [] (Some 0) (hex_join (groups a ze 8))
          = Some (u16s (groups a ze 8), Some 0, [])"
        using parse_ipv6_tail [OF groups_less, of a ze 8 "[]" "Some 0"] ne by simp
      moreover have "replicate (16 - 2 * (8 - ze)) 0 @ u16s (groups a ze 8) = a"
        using eq True ellipsis(2) by (simp add: groups_def [of a 0 0] diff_mult_distrib2)
      ultimately show ?thesis unfolding s using ellipsis(1,2) True by (simp add: parse_ipv6_def Let_def)
    qed
  next
    case False
    then have ne: "groups a 0 zs \<noteq> []" by (simp add: groups_Cons)
    have "parse_ipv6_go [] None (string6_go a zs ze 0)
        = Some (u16s (groups a 0 zs) @ u16s (groups a ze 8), Some (2 * zs), [])"
      using parse_ipv6_ellipsis [OF groups_less ne groups_less, of a ze 8] ellipsis by simp
    moreover have "16 - (2 * zs + 2 * (8 - ze)) = 2 * (ze - zs)" using ellipsis(1,2) by simp
    ultimately show ?thesis
      using hex_join_hd [OF ne, of "''::'' @ hex_join (groups a ze 8)"] eq ellipsis(1,2)
      by (simp add: parse_ipv6_no_lead ellipsis(4))
  qed
qed

subsection \<open>Addresses\<close>

lemma string4_clean: "set (string4 b) \<subseteq> insert (CHR ''.'') {c. is_digit c}"
proof -
  have "set (format_nat n) \<subseteq> {c. is_digit c}" for n
    using format_nat_digits [of n] by (auto simp: list_all_iff)
  then show ?thesis by (auto simp: string4_def)
qed

lemma find_first_dot: "\<forall>c \<in> set ds. \<not> P c \<Longrightarrow> P x \<Longrightarrow> find P (ds @ x # rest) = Some x"
  by (induction ds) auto

lemma is_digit_clean: "is_digit c \<Longrightarrow> c \<notin> {CHR '':'', CHR ''.'', CHR ''%'', CHR ''/''}"
  by (auto simp: is_digit_def)

lemma parse_addr_string4: "length b = 4 \<Longrightarrow> parse_addr (string4 b) = Some (Addr4 b)"
proof -
  assume "length b = 4"
  moreover have "\<forall>c \<in> set (format_nat n). \<not> (c = CHR ''.'' \<or> c = CHR '':'' \<or> c = CHR ''%'')" for n
    using format_nat_digits [of n] is_digit_clean by (auto simp: list_all_iff)
  then have "find (\<lambda>c. c = CHR ''.'' \<or> c = CHR '':'' \<or> c = CHR ''%'') (string4 b) = Some (CHR ''.'')"
    unfolding string4_def append_Cons append_Nil by (intro find_first_dot) auto
  ultimately show ?thesis by (simp add: parse_addr_def parse_ipv4_string4)
qed

lemma hex_join_clean: "set (hex_join gs) \<subseteq> - {CHR ''.'', CHR ''%'', CHR ''/''}"
proof -
  have "set (colon_hex hs) \<subseteq> - {CHR ''.'', CHR ''%'', CHR ''/''}" for hs
    using format_hex_clean by (induction hs) fastforce+
  then show ?thesis using format_hex_clean by (cases gs) (fastforce simp: hex_join_def)+
qed

lemma find_only: "x \<in> set s \<Longrightarrow> P x \<Longrightarrow> \<forall>c \<in> set s. P c \<longrightarrow> c = x \<Longrightarrow> find P s = Some x"
proof (induction s)
  case (Cons c s)
  show ?case
  proof (cases "P c")
    case True
    with Cons.prems(3) show ?thesis by simp
  next
    case False
    with Cons.prems(1,2) have "x \<in> set s" by (metis set_ConsD)
    moreover have "\<forall>c \<in> set s. P c \<longrightarrow> c = x" using Cons.prems(3) by simp
    ultimately have "find P s = Some x" using Cons.IH Cons.prems(2) by blast
    with False show ?thesis by simp
  qed
qed simp

lemma string6_clean:
  assumes "span_ok a (zs, ze)"
  shows "CHR '':'' \<in> set (string6_go a zs ze 0)"
    and "set (string6_go a zs ze 0) \<inter> {CHR ''.'', CHR ''%'', CHR ''/''} = {}"
  using assms
proof (atomize (full), cases rule: string6_cases)
  case plain
  then show "CHR '':'' \<in> set (string6_go a zs ze 0)
      \<and> set (string6_go a zs ze 0) \<inter> {CHR ''.'', CHR ''%'', CHR ''/''} = {}"
    using hex_join_clean [of "groups a 0 8"] by (auto simp: hex_join_def groups_Cons)
next
  case ellipsis
  then show "CHR '':'' \<in> set (string6_go a zs ze 0)
      \<and> set (string6_go a zs ze 0) \<inter> {CHR ''.'', CHR ''%'', CHR ''/''} = {}"
    using hex_join_clean [of "groups a 0 zs"] hex_join_clean [of "groups a ze 8"] by auto
qed

lemma parse_addr_string6:
  assumes "length a = 16" and "span_ok a (zs, ze)"
  shows "parse_addr (string6_go a zs ze 0) = Some (Addr6 a)"
proof -
  have "find (\<lambda>c. c = CHR ''.'' \<or> c = CHR '':'' \<or> c = CHR ''%'') (string6_go a zs ze 0) = Some (CHR '':'')"
    using string6_clean [OF assms(2)] by (intro find_only) auto
  moreover have "CHR ''%'' \<notin> set (string6_go a zs ze 0)"
    using string6_clean(2) [OF assms(2)] by auto
  ultimately show ?thesis using parse_ipv6_string6 [OF assms] by (simp add: parse_addr_def)
qed

definition ip_norm :: "ip \<Rightarrow> ip" where
  "ip_norm a = (case To4 a of Some v4 \<Rightarrow> v4 | None \<Rightarrow> a)"

lemma To4_length: "To4 a = Some v4 \<Longrightarrow> length v4 = 4"
  by (auto simp: To4_def split: if_splits)

lemma To4_v4: "length v4 = 4 \<Longrightarrow> To4 v4 = Some v4"
  by (simp add: To4_def)

definition ip_addr :: "ip \<Rightarrow> addr" where
  "ip_addr a = (case To4 a of Some v4 \<Rightarrow> Addr4 v4 | None \<Rightarrow> Addr6 a)"

lemma parse_addr_ip_string:
  assumes "length a = 4 \<or> length a = 16"
  shows "parse_addr (ip_string a) = Some (ip_addr a)" and "CHR ''/'' \<notin> set (ip_string a)"
proof (atomize (full), cases "To4 a")
  case None
  then have a: "length a = 16" using assms by (auto simp: To4_def)
  obtain zs ze where z: "zero_span a = (zs, ze)" by (cases "zero_span a")
  then have "span_ok a (zs, ze)" using span_ok_zero_span [of a] by simp
  then show "parse_addr (ip_string a) = Some (ip_addr a) \<and> CHR ''/'' \<notin> set (ip_string a)"
    using parse_addr_string6 [OF a] string6_clean(2) [of a zs ze] a None z
    by (auto simp: ip_string_def ip_addr_def)
next
  case (Some v4)
  have "CHR ''/'' \<notin> set (string4 v4)" using string4_clean [of v4] is_digit_clean by fastforce
  with Some assms show "parse_addr (ip_string a) = Some (ip_addr a) \<and> CHR ''/'' \<notin> set (ip_string a)"
    using parse_addr_string4 [OF To4_length [OF Some]] by (auto simp: ip_string_def ip_addr_def)
qed

lemma CIDRMask_full: "CIDRMask 32 32 = replicate 4 255" "CIDRMask 128 128 = replicate 16 255"
  by code_simp+

lemma map2_and_full: "length a = n \<Longrightarrow> map2 (AND) a (replicate n (255 :: byte)) = a"
proof (induction a arbitrary: n)
  case (Cons w a)
  have "w AND 255 = w" by (rule bit_word_eqI) (auto simp: bit_simps less_Suc_eq numeral_eq_Suc)
  with Cons show ?case by (cases n) auto
qed simp

lemma ParseCIDR_slash:
  assumes "CHR ''/'' \<notin> set s" and "parse_addr s = Some a" and "dtoi_go 0 0 m = (n, length m, True)"
    and "n \<le> addr_bits a"
  shows "ParseCIDR (s @ CHR ''/'' # m) = map_option (\<lambda>b. \<lparr>IP = b, Mask = CIDRMask n (addr_bits a)\<rparr>)
    (ip_mask (as16 a) (CIDRMask n (addr_bits a)))"
proof -
  have "\<And>c. c \<in> set s \<Longrightarrow> c \<noteq> CHR ''/''" using assms(1) by blast
  then have "takeWhile (\<lambda>c. c \<noteq> CHR ''/'') (s @ CHR ''/'' # m) = s"
    and "dropWhile (\<lambda>c. c \<noteq> CHR ''/'') (s @ CHR ''/'' # m) = CHR ''/'' # m"
    by (simp_all add: takeWhile_append2 dropWhile_append2)
  then show ?thesis using assms by (simp add: ParseCIDR_def Let_def)
qed

end
