(* ===== verification/IPLookup.thy ===== *)
theory IPLookup
  imports GoNet
begin

unbundle bit_operations_syntax

text \<open>
  Package \<open>iplookup\<close> (\<open>src/iplookup/tree.go\<close> and \<open>helper.go\<close>): a CIDR store with one bit-wise
  radix tree per address family. The first part translates the tree and the helper; indexing a
  byte slice out of range is a Go panic, the outer \<^const>\<open>None\<close> of the walks. The second part is
  the abstract store, a map from bit strings to labels with longest-prefix match, and the locale
  that states its laws; the tree is shown to implement it and the helper's properties follow.
\<close>

section \<open>The radix tree\<close>

datatype radixNode =
  Node (isEndpoint: bool) (prefixLen: nat) (metadata: string)
       (left: "radixNode option") (right: "radixNode option")

record ipRadixTree =
  root :: radixNode

definition empty_node :: radixNode where
  "empty_node = Node False 0 [] None None"

definition newIPRadixTree :: ipRadixTree where
  "newIPRadixTree = \<lparr>root = empty_node\<rparr>"

definition set_child :: "bool \<Rightarrow> radixNode option \<Rightarrow> radixNode \<Rightarrow> radixNode" where
  "set_child b c n =
     (if b then Node (isEndpoint n) (prefixLen n) (metadata n) (left n) c
      else Node (isEndpoint n) (prefixLen n) (metadata n) c (right n))"

definition child :: "bool \<Rightarrow> radixNode \<Rightarrow> radixNode option" where
  "child b n = (if b then right n else left n)"

definition bitAt :: "ip \<Rightarrow> nat \<Rightarrow> byte option" where
  "bitAt walk actualBitPos =
     (let bytePos = actualBitPos div 8; bitPos = 7 - actualBitPos mod 8
      in if bytePos < length walk then Some (drop_bit bitPos (walk ! bytePos) AND 1) else None)"

definition familyWalk :: "ip \<Rightarrow> ip \<times> nat" where
  "familyWalk a = (case To4 a of Some v4 \<Rightarrow> (v4, 32) | None \<Rightarrow> (a, 128))"

definition prefixWalk :: "IPNet \<Rightarrow> ip \<times> nat" where
  "prefixWalk cidr =
     (let walk = fst (familyWalk (IP cidr)); (ones, bits) = mask_size (Mask cidr)
      in (walk, if To4 (IP cidr) \<noteq> None \<and> bits = 128 \<and> 96 \<le> ones then ones - 96 else ones))"

text \<open>
  The walk of \<open>insert\<close>: \<open>k\<close> bits are left, so the loop index is \<open>plen - k\<close>. A missing child
  is created on the way; the nodes on the path are rebuilt with the new child.
\<close>

fun insert_walk :: "ip \<Rightarrow> nat \<Rightarrow> string \<Rightarrow> nat \<Rightarrow> radixNode \<Rightarrow> (radixNode \<times> bool) option" where
  "insert_walk walk plen md 0 current =
     (if isEndpoint current
      then Some (Node True (prefixLen current) md (left current) (right current), False)
      else Some (Node True plen md (left current) (right current), True))"
| "insert_walk walk plen md (Suc k) current =
     (case bitAt walk (plen - Suc k) of
        None \<Rightarrow> None
      | Some v \<Rightarrow>
          let b = (v \<noteq> 0);
              nxt = (case child b current of None \<Rightarrow> empty_node | Some n \<Rightarrow> n)
          in case insert_walk walk plen md k nxt of
               None \<Rightarrow> None
             | Some (n, added) \<Rightarrow> Some (set_child b (Some n) current, added))"

definition tree_insert :: "IPNet \<Rightarrow> string \<Rightarrow> ipRadixTree \<Rightarrow> (ipRadixTree \<times> bool) option" where
  "tree_insert cidr md tree =
     (case prefixWalk cidr of (walk, plen) \<Rightarrow>
        map_option (\<lambda>(n, added). (tree\<lparr>root := n\<rparr>, added)) (insert_walk walk plen md plen (root tree)))"

text \<open>
  The loop of \<open>contains\<close> stops after \<open>k\<close> more bits or at a missing node; each endpoint on the
  way overwrites the result, and one more check follows the loop.
\<close>

type_synonym match = "bool \<times> nat \<times> string"

fun contains_loop ::
  "ip \<Rightarrow> nat \<Rightarrow> nat \<Rightarrow> radixNode option \<Rightarrow> match \<Rightarrow> (radixNode option \<times> match) option" where
  "contains_loop walk mx 0 current res = Some (current, res)"
| "contains_loop walk mx (Suc k) None res = Some (None, res)"
| "contains_loop walk mx (Suc k) (Some n) res =
     (let res' = (if isEndpoint n then (True, prefixLen n, metadata n) else res)
      in case bitAt walk (mx - Suc k) of
           None \<Rightarrow> None
         | Some v \<Rightarrow> contains_loop walk mx k (child (v \<noteq> 0) n) res')"

definition tree_contains :: "ip \<Rightarrow> ipRadixTree \<Rightarrow> match option" where
  "tree_contains a tree =
     (case familyWalk a of (walk, mx) \<Rightarrow>
        case contains_loop walk mx mx (Some (root tree)) (False, 0, []) of
          None \<Rightarrow> None
        | Some (current, res) \<Rightarrow>
            Some (case current of
                    None \<Rightarrow> res
                  | Some n \<Rightarrow> if isEndpoint n then (True, prefixLen n, metadata n) else res))"

text \<open>
  \<open>remove\<close> first collects the path to the prefix, innermost parent first, with the bit taken at
  each parent; \<open>Some None\<close> is the early \<open>return false\<close>. The second loop goes back up the path:
  it unlinks a node that holds nothing and stops at the first one that does.
\<close>

type_synonym path = "(radixNode \<times> bool) list"

fun remove_path :: "ip \<Rightarrow> nat \<Rightarrow> nat \<Rightarrow> radixNode \<Rightarrow> path \<Rightarrow> (radixNode \<times> path) option option" where
  "remove_path walk plen 0 current up = Some (Some (current, up))"
| "remove_path walk plen (Suc k) current up =
     (case bitAt walk (plen - Suc k) of
        None \<Rightarrow> None
      | Some v \<Rightarrow>
          (case child (v \<noteq> 0) current of
             None \<Rightarrow> Some None
           | Some n \<Rightarrow> remove_path walk plen k n ((current, v \<noteq> 0) # up)))"

fun relink :: "radixNode \<Rightarrow> path \<Rightarrow> radixNode" where
  "relink n [] = n"
| "relink n ((parent, b) # up) = relink (set_child b (Some n) parent) up"

fun prune :: "radixNode \<Rightarrow> path \<Rightarrow> radixNode" where
  "prune n [] = n"
| "prune n ((parent, b) # up) =
     (if isEndpoint n \<or> left n \<noteq> None \<or> right n \<noteq> None then relink n ((parent, b) # up)
      else prune (set_child b None parent) up)"

definition tree_remove :: "IPNet \<Rightarrow> ipRadixTree \<Rightarrow> (ipRadixTree \<times> bool) option" where
  "tree_remove cidr tree =
     (case prefixWalk cidr of (walk, plen) \<Rightarrow>
        case remove_path walk plen plen (root tree) [] of
          None \<Rightarrow> None
        | Some None \<Rightarrow> Some (tree, False)
        | Some (Some (current, up)) \<Rightarrow>
            if \<not> isEndpoint current then Some (tree, False)
            else Some (tree\<lparr>root := prune (Node False 0 [] (left current) (right current)) up\<rparr>, True))"

section \<open>The helper\<close>

datatype ip_error =
    ParseCIDRError string
  | ParseEntryError string
  | NilAddress

record Helper =
  ipv4Tree :: ipRadixTree
  ipv6Tree :: ipRadixTree
  count :: int

definition Helper_New :: Helper where
  "Helper_New = \<lparr>ipv4Tree = newIPRadixTree, ipv6Tree = newIPRadixTree, count = 0\<rparr>"

definition is_v4 :: "ip \<Rightarrow> bool" where
  "is_v4 a \<longleftrightarrow> To4 a \<noteq> None"

definition treeFor :: "ip \<Rightarrow> Helper \<Rightarrow> ipRadixTree" where
  "treeFor a h = (if is_v4 a then ipv4Tree h else ipv6Tree h)"

definition set_treeFor :: "ip \<Rightarrow> ipRadixTree \<Rightarrow> Helper \<Rightarrow> Helper" where
  "set_treeFor a t h = (if is_v4 a then h\<lparr>ipv4Tree := t\<rparr> else h\<lparr>ipv6Tree := t\<rparr>)"

definition AddCIDR :: "string \<Rightarrow> string \<Rightarrow> Helper \<Rightarrow> (Helper \<times> ip_error option) option" where
  "AddCIDR cidr md h =
     (case ParseCIDR cidr of
        None \<Rightarrow> Some (h, Some (ParseCIDRError cidr))
      | Some block \<Rightarrow>
          (case tree_insert block md (treeFor (IP block) h) of
             None \<Rightarrow> None
           | Some (t, added) \<Rightarrow>
               let h' = set_treeFor (IP block) t h
               in Some (if added then h'\<lparr>count := count h' + 1\<rparr> else h', None)))"

definition HostCIDR :: "ip \<Rightarrow> string" where
  "HostCIDR a = (case To4 a of Some v4 \<Rightarrow> ip_string v4 @ ''/32'' | None \<Rightarrow> ip_string a @ ''/128'')"

definition entryCIDR :: "string \<Rightarrow> ip_error + string" where
  "entryCIDR entry =
     (let trimmed = TrimSpace entry
      in if CHR ''/'' \<in> set trimmed then Inr trimmed
         else case ParseIP trimmed of
           None \<Rightarrow> Inl (ParseEntryError entry)
         | Some a \<Rightarrow> Inr (HostCIDR a))"

definition AddEntry :: "string \<Rightarrow> string \<Rightarrow> Helper \<Rightarrow> (Helper \<times> ip_error option) option" where
  "AddEntry entry md h =
     (case entryCIDR entry of Inl e \<Rightarrow> Some (h, Some e) | Inr cidr \<Rightarrow> AddCIDR cidr md h)"

definition RemoveCIDR :: "string \<Rightarrow> Helper \<Rightarrow> (Helper \<times> (ip_error + bool)) option" where
  "RemoveCIDR cidr h =
     (case ParseCIDR cidr of
        None \<Rightarrow> Some (h, Inl (ParseCIDRError cidr))
      | Some block \<Rightarrow>
          (case tree_remove block (treeFor (IP block) h) of
             None \<Rightarrow> None
           | Some (t, removed) \<Rightarrow>
               if \<not> removed then Some (h, Inr False)
               else let h' = set_treeFor (IP block) t h
                    in Some (h'\<lparr>count := count h' - 1\<rparr>, Inr True)))"

definition Contains :: "ip option \<Rightarrow> Helper \<Rightarrow> (ip_error + match) option" where
  "Contains ipAddr h =
     (case ipAddr of
        None \<Rightarrow> Some (Inl NilAddress)
      | Some a \<Rightarrow> map_option Inr (tree_contains a (treeFor a h)))"

definition Helper_Reset :: "Helper \<Rightarrow> Helper" where
  "Helper_Reset h = h\<lparr>ipv4Tree := newIPRadixTree, ipv6Tree := newIPRadixTree, count := 0\<rparr>"

definition Helper_Count :: "Helper \<Rightarrow> int" where
  "Helper_Count h = count h"

section \<open>The abstract store\<close>

type_synonym store = "bool list \<rightharpoonup> string"

definition longest_match :: "store \<Rightarrow> bool list \<Rightarrow> match" where
  "longest_match m bs =
     (case find (\<lambda>n. m (take n bs) \<noteq> None) (rev [0..<Suc (length bs)]) of
        None \<Rightarrow> (False, 0, [])
      | Some n \<Rightarrow> (True, n, the (m (take n bs))))"

locale prefix_store =
  fixes abs :: "'t \<Rightarrow> store"
    and inv :: "'t \<Rightarrow> bool"
    and new :: 't
    and valid_net :: "'net \<Rightarrow> bool"
    and net_key :: "'net \<Rightarrow> bool list"
    and ins :: "'net \<Rightarrow> string \<Rightarrow> 't \<Rightarrow> ('t \<times> bool) option"
    and rem :: "'net \<Rightarrow> 't \<Rightarrow> ('t \<times> bool) option"
    and valid_addr :: "'a \<Rightarrow> bool"
    and addr_key :: "'a \<Rightarrow> bool list"
    and look :: "'a \<Rightarrow> 't \<Rightarrow> match option"
  assumes abs_new: "abs new = Map.empty"
    and inv_new: "inv new"
    and finite_abs: "inv t \<Longrightarrow> finite (dom (abs t))"
    and ins_spec: "inv t \<Longrightarrow> valid_net c \<Longrightarrow>
      \<exists>t'. ins c md t = Some (t', abs t (net_key c) = None) \<and> inv t' \<and> abs t' = (abs t)(net_key c \<mapsto> md)"
    and rem_spec: "inv t \<Longrightarrow> valid_net c \<Longrightarrow>
      \<exists>t'. rem c t = Some (t', abs t (net_key c) \<noteq> None) \<and> inv t' \<and> abs t' = (abs t)(net_key c := None)"
    and look_spec: "inv t \<Longrightarrow> valid_addr a \<Longrightarrow> look a t = Some (longest_match (abs t) (addr_key a))"
begin

lemma ins_abs:
  assumes "inv t" and "valid_net c" and "ins c md t = Some (t', added)"
  shows "inv t'" and "abs t' = (abs t)(net_key c \<mapsto> md)" and "added \<longleftrightarrow> abs t (net_key c) = None"
  using ins_spec [OF assms(1,2), of md] assms(3) by auto

lemma rem_abs:
  assumes "inv t" and "valid_net c" and "rem c t = Some (t', removed)"
  shows "inv t'" and "abs t' = (abs t)(net_key c := None)" and "removed \<longleftrightarrow> abs t (net_key c) \<noteq> None"
  using rem_spec [OF assms(1,2)] assms(3) by auto

lemma card_ins:
  assumes "inv t" and "valid_net c" and "ins c md t = Some (t', added)"
  shows "card (dom (abs t')) = card (dom (abs t)) + (if added then 1 else 0)"
  using finite_abs [OF assms(1)] ins_abs [OF assms] by (auto simp: card_insert_if)

lemma card_rem:
  assumes "inv t" and "valid_net c" and "rem c t = Some (t', removed)"
  shows "card (dom (abs t)) = card (dom (abs t')) + (if removed then 1 else 0)"
proof -
  have "dom (abs t') = dom (abs t) - {net_key c}"
    using rem_abs [OF assms] by auto
  moreover have "card (dom (abs t)) > 0" if "net_key c \<in> dom (abs t)"
    using that finite_abs [OF assms(1)] by (auto simp: card_gt_0_iff)
  ultimately show ?thesis
    using finite_abs [OF assms(1)] rem_abs(3) [OF assms]
    by (cases "abs t (net_key c)") (auto simp: card_Diff_singleton_if dom_def)
qed

end

section \<open>Bits of an address\<close>

definition walk_bit :: "ip \<Rightarrow> nat \<Rightarrow> bool" where
  "walk_bit a i = bit (a ! (i div 8)) (7 - i mod 8)"

definition walk_bits :: "ip \<Rightarrow> nat \<Rightarrow> bool list" where
  "walk_bits a n = map (walk_bit a) [0..<n]"

definition net_bits :: "IPNet \<Rightarrow> bool list" where
  "net_bits c = (case prefixWalk c of (walk, plen) \<Rightarrow> walk_bits walk plen)"

definition net_ok :: "IPNet \<Rightarrow> bool" where
  "net_ok c \<longleftrightarrow> (case prefixWalk c of (walk, plen) \<Rightarrow> plen \<le> 8 * length walk)"

definition ip_bits :: "ip \<Rightarrow> bool list" where
  "ip_bits a = (case familyWalk a of (walk, mx) \<Rightarrow> walk_bits walk mx)"

definition ip_ok :: "ip \<Rightarrow> bool" where
  "ip_ok a \<longleftrightarrow> length a = 4 \<or> length a = 16"

lemma length_walk_bits [simp]: "length (walk_bits a n) = n"
  by (simp add: walk_bits_def)

lemma bitAt_eq: "i < 8 * length a \<Longrightarrow> \<exists>v. bitAt a i = Some v \<and> (v \<noteq> 0 \<longleftrightarrow> walk_bit a i)"
proof -
  assume "i < 8 * length a"
  then have "i div 8 < length a" by (simp add: less_mult_imp_div_less mult.commute)
  moreover have "drop_bit n (w :: byte) AND 1 \<noteq> 0 \<longleftrightarrow> bit w n" for n w
    by (simp add: and_one_eq bit_iff_odd_drop_bit odd_iff_mod_2_eq_one)
  ultimately show ?thesis by (simp add: bitAt_def walk_bit_def Let_def)
qed

lemma bitAt_None: "8 * length a \<le> i \<Longrightarrow> bitAt a i = None"
  by (simp add: bitAt_def Let_def)

lemma drop_walk_bits:
  "k < n \<Longrightarrow> drop (n - Suc k) (walk_bits a n) = walk_bit a (n - Suc k) # drop (n - k) (walk_bits a n)"
  by (simp add: walk_bits_def Cons_nth_drop_Suc [symmetric] Suc_diff_Suc)

lemma walk_step:
  assumes "n \<le> 8 * length a" and "Suc k \<le> n"
  obtains v where "bitAt a (n - Suc k) = Some v" and "(v \<noteq> 0) = walk_bit a (n - Suc k)"
    and "drop (n - Suc k) (walk_bits a n) = walk_bit a (n - Suc k) # drop (n - k) (walk_bits a n)"
proof -
  from assms have "n - Suc k < 8 * length a" by linarith
  then show ?thesis using bitAt_eq drop_walk_bits [of k n a] assms(2) that by auto
qed

section \<open>The tree implements the store\<close>

fun node_at :: "radixNode option \<Rightarrow> bool list \<Rightarrow> radixNode option" where
  "node_at n [] = n"
| "node_at None (b # bs) = None"
| "node_at (Some n) (b # bs) = node_at (child b n) bs"

definition stored_at :: "radixNode option \<Rightarrow> store" where
  "stored_at n bs =
     (case node_at n bs of None \<Rightarrow> None | Some m \<Rightarrow> if isEndpoint m then Some (metadata m) else None)"

definition holds_nothing :: "radixNode \<Rightarrow> bool" where
  "holds_nothing n \<longleftrightarrow> \<not> isEndpoint n \<and> left n = None \<and> right n = None"

fun wf_node :: "nat \<Rightarrow> radixNode \<Rightarrow> bool" where
  "wf_node d (Node e p md l r) =
     ((if e then p = d else p = 0 \<and> md = [])
      \<and> (case l of None \<Rightarrow> True | Some n \<Rightarrow> wf_node (Suc d) n \<and> \<not> holds_nothing n)
      \<and> (case r of None \<Rightarrow> True | Some n \<Rightarrow> wf_node (Suc d) n \<and> \<not> holds_nothing n))"

text \<open>Insertion and removal by recursion on the bits left, the reference the index loops meet.\<close>

fun node_ins :: "nat \<Rightarrow> bool list \<Rightarrow> string \<Rightarrow> radixNode \<Rightarrow> radixNode \<times> bool" where
  "node_ins plen [] md n =
     (if isEndpoint n then (Node True (prefixLen n) md (left n) (right n), False)
      else (Node True plen md (left n) (right n), True))"
| "node_ins plen (b # bs) md n =
     (let (n', added) = node_ins plen bs md (case child b n of None \<Rightarrow> empty_node | Some m \<Rightarrow> m)
      in (set_child b (Some n') n, added))"

fun node_rem :: "bool list \<Rightarrow> radixNode \<Rightarrow> radixNode option" where
  "node_rem [] n = (if isEndpoint n then Some (Node False 0 [] (left n) (right n)) else None)"
| "node_rem (b # bs) n =
     (case child b n of
        None \<Rightarrow> None
      | Some m \<Rightarrow>
          map_option (\<lambda>m'. set_child b (if holds_nothing m' then None else Some m') n) (node_rem bs m))"

lemma insert_walk_eq:
  assumes "plen \<le> 8 * length walk" and "k \<le> plen"
  shows "insert_walk walk plen md k n = Some (node_ins plen (drop (plen - k) (walk_bits walk plen)) md n)"
  using assms(2)
proof (induction k arbitrary: n)
  case (Suc k)
  obtain v where "bitAt walk (plen - Suc k) = Some v" and "(v \<noteq> 0) = walk_bit walk (plen - Suc k)"
    and "drop (plen - Suc k) (walk_bits walk plen)
         = walk_bit walk (plen - Suc k) # drop (plen - k) (walk_bits walk plen)"
    by (rule walk_step [OF assms(1) Suc.prems])
  with Suc show ?case by (auto simp: Let_def split: prod.splits)
qed simp

lemma prune_relink: "\<not> holds_nothing n \<Longrightarrow> prune n up = relink n up"
  by (cases up) (auto simp: holds_nothing_def)

lemma set_child_holds: "\<not> holds_nothing (set_child b (Some m) n)"
  by (simp add: holds_nothing_def set_child_def)

lemma prune_Cons:
  "prune m ((n, b) # up) = prune (set_child b (if holds_nothing m then None else Some m) n) up"
proof (cases "holds_nothing m")
  case True
  then show ?thesis by (simp add: holds_nothing_def)
next
  case False
  then have "prune m ((n, b) # up) = relink (set_child b (Some m) n) up"
    by (auto simp: holds_nothing_def)
  with False show ?thesis by (simp add: prune_relink set_child_holds)
qed

definition remove_result :: "(radixNode \<times> path) option \<Rightarrow> radixNode option" where
  "remove_result r =
     (case r of
        None \<Rightarrow> None
      | Some (cur, up) \<Rightarrow>
          if isEndpoint cur then Some (prune (Node False 0 [] (left cur) (right cur)) up) else None)"

lemma remove_path_eq:
  assumes "plen \<le> 8 * length walk" and "k \<le> plen"
  shows "map_option remove_result (remove_path walk plen k n up)
       = Some (map_option (\<lambda>n'. prune n' up) (node_rem (drop (plen - k) (walk_bits walk plen)) n))"
  using assms(2)
proof (induction k arbitrary: n up)
  case (Suc k)
  obtain v where step: "bitAt walk (plen - Suc k) = Some v" "(v \<noteq> 0) = walk_bit walk (plen - Suc k)"
    "drop (plen - Suc k) (walk_bits walk plen)
       = walk_bit walk (plen - Suc k) # drop (plen - k) (walk_bits walk plen)"
    by (rule walk_step [OF assms(1) Suc.prems])
  show ?case
  proof (cases "child (walk_bit walk (plen - Suc k)) n")
    case None
    with step show ?thesis by (simp add: remove_result_def)
  next
    case (Some m)
    with step Suc.prems Suc.IH [of m "(n, walk_bit walk (plen - Suc k)) # up"] show ?thesis
      by (simp add: option.map_comp comp_def prune_Cons del: prune.simps map_option_eq_Some)
  qed
qed (simp add: remove_result_def)

subsection \<open>Insertion\<close>

lemma child_set_child: "child b (set_child c m n) = (if b = c then m else child b n)"
  by (simp add: child_def set_child_def)

lemma set_child_fields [simp]:
  "isEndpoint (set_child b m n) = isEndpoint n" "prefixLen (set_child b m n) = prefixLen n"
  "metadata (set_child b m n) = metadata n"
  by (simp_all add: set_child_def)

lemma node_at_empty: "node_at (Some empty_node) bs = (if bs = [] then Some empty_node else None)"
proof (cases bs)
  case (Cons b cs)
  have "node_at None cs = None" by (cases cs) auto
  with Cons show ?thesis by (simp add: child_def empty_node_def)
qed simp

lemma node_at_None [simp]: "node_at None bs = None"
  by (cases bs) auto

lemma isEndpoint_empty [simp]: "isEndpoint empty_node = False"
  by (simp add: empty_node_def)

lemma stored_empty [simp]: "stored_at (Some empty_node) = Map.empty"
  by (rule ext) (simp add: stored_at_def node_at_empty)

lemma stored_None [simp]: "stored_at None = Map.empty"
  by (rule ext) (simp add: stored_at_def)

lemma stored_Nil: "stored_at (Some n) [] = (if isEndpoint n then Some (metadata n) else None)"
  by (simp add: stored_at_def)

lemma stored_Cons: "stored_at (Some n) (b # bs) = stored_at (child b n) bs"
  by (simp add: stored_at_def)

lemma stored_node_ins:
  "stored_at (Some (fst (node_ins plen bs md n))) = (stored_at (Some n))(bs \<mapsto> md)"
proof (induction bs arbitrary: n)
  case Nil
  show ?case
  proof
    fix cs
    show "stored_at (Some (fst (node_ins plen [] md n))) cs = ((stored_at (Some n))([] \<mapsto> md)) cs"
      by (cases cs) (auto simp: stored_Nil stored_Cons child_def)
  qed
next
  case (Cons b bs)
  let ?m = "case child b n of None \<Rightarrow> empty_node | Some m \<Rightarrow> m"
  have m: "stored_at (Some ?m) = stored_at (child b n)"
    by (cases "child b n") simp_all
  show ?case
  proof
    fix cs
    show "stored_at (Some (fst (node_ins plen (b # bs) md n))) cs = ((stored_at (Some n))(b # bs \<mapsto> md)) cs"
      by (cases cs)
        (auto simp: stored_Nil stored_Cons Let_def split_beta child_set_child Cons.IH m)
  qed
qed

lemma node_ins_added: "snd (node_ins plen bs md n) \<longleftrightarrow> stored_at (Some n) bs = None"
proof (induction bs arbitrary: n)
  case (Cons b bs)
  then show ?case
    by (cases "child b n") (auto simp: stored_Cons Let_def split_beta)
qed (simp add: stored_Nil)

lemma wf_node_fields: "wf_node d n \<longleftrightarrow>
    (if isEndpoint n then prefixLen n = d else prefixLen n = 0 \<and> metadata n = [])
    \<and> (\<forall>b m. child b n = Some m \<longrightarrow> wf_node (Suc d) m \<and> \<not> holds_nothing m)"
  by (cases n) (auto simp: child_def split: option.splits if_splits)

lemma wf_empty [simp]: "wf_node d empty_node"
  by (simp add: empty_node_def)

lemma node_ins_holds: "\<not> holds_nothing (fst (node_ins plen bs md n))"
  by (cases bs) (auto simp: holds_nothing_def set_child_def Let_def split_beta)

lemma wf_node_ins:
  "wf_node d n \<Longrightarrow> plen = d + length bs \<Longrightarrow> wf_node d (fst (node_ins plen bs md n))"
proof (induction bs arbitrary: n d)
  case Nil
  then show ?case by (cases n) (auto split: if_splits)
next
  case (Cons b bs)
  let ?m = "case child b n of None \<Rightarrow> empty_node | Some m \<Rightarrow> m"
  have "wf_node (Suc d) ?m"
    using Cons.prems(1) by (auto simp: wf_node_fields [of d] split: option.splits)
  with Cons have "wf_node (Suc d) (fst (node_ins plen bs md ?m))" by simp
  with Cons.prems(1) show ?case
    by (auto simp: wf_node_fields [of d] Let_def split_beta child_set_child node_ins_holds split: if_splits)
qed

subsection \<open>Removal\<close>

lemma stored_node_rem:
  "stored_at (Some n) bs = None \<Longrightarrow> node_rem bs n = None"
proof (induction bs arbitrary: n)
  case (Cons b bs)
  then show ?case by (auto simp: stored_Cons split: option.splits)
qed (simp add: stored_Nil split: if_splits)

lemma stored_holds_nothing: "holds_nothing n \<Longrightarrow> stored_at (Some n) = Map.empty"
proof
  fix cs
  assume "holds_nothing n"
  then show "stored_at (Some n) cs = None"
    by (cases cs) (auto simp: stored_Nil stored_Cons holds_nothing_def child_def stored_at_def)
qed

lemma node_rem_Some:
  assumes "stored_at (Some n) bs \<noteq> None"
  shows "\<exists>n'. node_rem bs n = Some n' \<and> stored_at (Some n') = (stored_at (Some n))(bs := None)"
  using assms
proof (induction bs arbitrary: n)
  case Nil
  then have "isEndpoint n" by (simp add: stored_Nil split: if_splits)
  moreover have "stored_at (Some (Node False 0 [] (left n) (right n))) cs
      = ((stored_at (Some n))([] := None)) cs" for cs
    by (cases cs) (auto simp: stored_Nil stored_Cons child_def)
  ultimately show ?case by auto
next
  case (Cons b bs)
  from Cons.prems obtain m where m: "child b n = Some m"
    by (cases "child b n") (auto simp: stored_Cons stored_at_def)
  with Cons.prems have "stored_at (Some m) bs \<noteq> None" by (simp add: stored_Cons)
  from Cons.IH [OF this] obtain m' where m': "node_rem bs m = Some m'"
      "stored_at (Some m') = (stored_at (Some m))(bs := None)"
    by blast
  let ?c = "if holds_nothing m' then None else Some m'"
  have c: "stored_at ?c = stored_at (Some m')"
    by (simp add: stored_holds_nothing)
  have "stored_at (Some (set_child b ?c n)) cs = ((stored_at (Some n))(b # bs := None)) cs" for cs
    by (cases cs) (auto simp: stored_Nil stored_Cons child_set_child c m m'(2))
  with m m'(1) show ?case by auto
qed

lemma wf_node_rem: "wf_node d n \<Longrightarrow> node_rem bs n = Some n' \<Longrightarrow> wf_node d n'"
proof (induction bs arbitrary: n n' d)
  case Nil
  then show ?case by (cases n) (auto split: if_splits)
next
  case (Cons b bs)
  from Cons.prems(2) obtain m m' where m: "child b n = Some m" "node_rem bs m = Some m'"
      "n' = set_child b (if holds_nothing m' then None else Some m') n"
    by (auto split: option.splits)
  with Cons.prems(1) have "wf_node (Suc d) m" by (auto simp: wf_node_fields [of d])
  with Cons.IH m(2) have "wf_node (Suc d) m'" by blast
  with Cons.prems(1) show ?case
    by (auto simp: m(3) wf_node_fields [of d] child_set_child split: if_splits)
qed


subsection \<open>Lookup\<close>

fun node_look :: "radixNode option \<Rightarrow> bool list \<Rightarrow> match \<Rightarrow> match" where
  "node_look None bs res = res"
| "node_look (Some n) [] res = (if isEndpoint n then (True, prefixLen n, metadata n) else res)"
| "node_look (Some n) (b # bs) res =
     node_look (child b n) bs (if isEndpoint n then (True, prefixLen n, metadata n) else res)"

lemma contains_loop_eq:
  assumes "mx \<le> 8 * length walk" and "k \<le> mx"
  shows "map_option (\<lambda>(cur, res'). node_look cur [] res') (contains_loop walk mx k n res)
       = Some (node_look n (drop (mx - k) (walk_bits walk mx)) res)"
  using assms(2)
proof (induction k arbitrary: n res)
  case (Suc k)
  obtain v where "bitAt walk (mx - Suc k) = Some v" "(v \<noteq> 0) = walk_bit walk (mx - Suc k)"
    "drop (mx - Suc k) (walk_bits walk mx)
       = walk_bit walk (mx - Suc k) # drop (mx - k) (walk_bits walk mx)"
    by (rule walk_step [OF assms(1) Suc.prems])
  with Suc show ?case by (cases n) (simp_all add: Let_def del: map_option_eq_Some)
qed simp

lemma node_look_eq:
  "wf_node d n \<Longrightarrow> node_look (Some n) bs res =
     (case find (\<lambda>k. stored_at (Some n) (take k bs) \<noteq> None) (rev [0..<Suc (length bs)]) of
        None \<Rightarrow> res
      | Some k \<Rightarrow> (True, d + k, the (stored_at (Some n) (take k bs))))"
proof (induction bs arbitrary: n d res)
  case Nil
  then show ?case by (cases n) (auto simp: stored_Nil)
next
  case (Cons b bs)
  let ?res = "if isEndpoint n then (True, prefixLen n, metadata n) else res"
  have here: "?res = (if stored_at (Some n) [] \<noteq> None then (True, d, the (stored_at (Some n) [])) else res)"
    using Cons.prems by (auto simp: stored_Nil wf_node_fields [of d])
  show ?case
  proof (cases "child b n")
    case None
    then show ?thesis using here
      by (auto simp: find_rev_upt stored_Cons comp_def simp del: upt_Suc)
  next
    case (Some m)
    with Cons.prems have "wf_node (Suc d) m" by (auto simp: wf_node_fields [of d])
    from Cons.IH [OF this, of ?res] Some here show ?thesis
      by (auto simp: find_rev_upt stored_Cons comp_def simp del: upt_Suc split: option.splits)
  qed
qed


subsection \<open>The interpretation\<close>

definition stored :: "ipRadixTree \<Rightarrow> store" where
  "stored t = stored_at (Some (root t))"

definition wf_tree :: "ipRadixTree \<Rightarrow> bool" where
  "wf_tree t \<longleftrightarrow> wf_node 0 (root t)"

lemma finite_stored_at: "finite (dom (stored_at (Some n)))"
proof (induction n)
  case (Node e p md l r)
  have "dom (stored_at (Some (Node e p md l r)))
      \<subseteq> {[]} \<union> Cons False ` dom (stored_at l) \<union> Cons True ` dom (stored_at r)"
  proof
    fix bs
    assume bs: "bs \<in> dom (stored_at (Some (Node e p md l r)))"
    show "bs \<in> {[]} \<union> Cons False ` dom (stored_at l) \<union> Cons True ` dom (stored_at r)"
    proof (cases bs)
      case (Cons b cs)
      with bs have "cs \<in> dom (stored_at (if b then r else l))"
        by (cases b) (simp_all add: dom_def stored_Cons child_def)
      with Cons show ?thesis by (cases b) auto
    qed simp
  qed
  moreover have "finite (dom (stored_at l))"
    using Node(1) by (cases l) simp_all
  moreover have "finite (dom (stored_at r))"
    using Node(2) by (cases r) simp_all
  ultimately show ?case by (elim finite_subset) simp
qed

lemma tree_insert_spec:
  assumes "wf_tree t" and "net_ok c"
  shows "\<exists>t'. tree_insert c md t = Some (t', stored t (net_bits c) = None) \<and> wf_tree t'
              \<and> stored t' = (stored t)(net_bits c \<mapsto> md)"
proof -
  obtain walk plen where w: "prefixWalk c = (walk, plen)" by fastforce
  with assms(2) have "plen \<le> 8 * length walk" by (simp add: net_ok_def)
  then have "insert_walk walk plen md plen (root t) = Some (node_ins plen (net_bits c) md (root t))"
    using insert_walk_eq [of plen walk plen] by (simp add: net_bits_def w)
  moreover have "length (net_bits c) = plen" by (simp add: net_bits_def w)
  ultimately show ?thesis
    using assms(1) wf_node_ins [of 0 "root t" plen "net_bits c" md]
    by (auto simp: tree_insert_def w split_beta stored_def wf_tree_def stored_node_ins node_ins_added)
qed

lemma tree_remove_spec:
  assumes "wf_tree t" and "net_ok c"
  shows "\<exists>t'. tree_remove c t = Some (t', stored t (net_bits c) \<noteq> None) \<and> wf_tree t'
              \<and> stored t' = (stored t)(net_bits c := None)"
proof -
  obtain walk plen where w: "prefixWalk c = (walk, plen)" by fastforce
  with assms(2) have "plen \<le> 8 * length walk" by (simp add: net_ok_def)
  then have "map_option remove_result (remove_path walk plen plen (root t) [])
      = Some (node_rem (net_bits c) (root t))"
    using remove_path_eq [of plen walk plen "root t" "[]"]
    by (simp add: net_bits_def w option.map_ident del: map_option_eq_Some)
  then obtain r where r: "remove_path walk plen plen (root t) [] = Some r"
      "remove_result r = node_rem (net_bits c) (root t)"
    by auto
  have tr: "tree_remove c t = Some (case node_rem (net_bits c) (root t) of
      None \<Rightarrow> (t, False) | Some n \<Rightarrow> (t\<lparr>root := n\<rparr>, True))"
    using r by (auto simp: tree_remove_def w remove_result_def split: option.splits if_splits)
  show ?thesis
  proof (cases "stored t (net_bits c)")
    case None
    with tr stored_node_rem assms(1) show ?thesis by (auto simp: stored_def fun_upd_idem)
  next
    case (Some x)
    then obtain n where "node_rem (net_bits c) (root t) = Some n"
        "stored_at (Some n) = (stored t)(net_bits c := None)"
      using node_rem_Some [of "root t" "net_bits c"] by (auto simp: stored_def)
    with Some tr assms(1) wf_node_rem [of 0 "root t" "net_bits c" n] show ?thesis
      by (auto simp: stored_def wf_tree_def)
  qed
qed

lemma familyWalk_ok: "ip_ok a \<Longrightarrow> familyWalk a = (walk, mx) \<Longrightarrow> mx = 8 * length walk"
  by (auto simp: familyWalk_def To4_def ip_ok_def split: option.splits if_splits)

lemma tree_contains_spec:
  assumes "wf_tree t" and "ip_ok a"
  shows "tree_contains a t = Some (longest_match (stored t) (ip_bits a))"
proof -
  obtain walk mx where w: "familyWalk a = (walk, mx)" by fastforce
  with assms(2) have "mx \<le> 8 * length walk" using familyWalk_ok by fastforce
  note loop = contains_loop_eq [OF this order_refl, of "Some (root t)" "(False, 0, [])"]
  have "tree_contains a t
      = map_option (\<lambda>(cur, res). node_look cur [] res)
          (contains_loop walk mx mx (Some (root t)) (False, 0, []))"
    by (auto simp: tree_contains_def w split: option.splits)
  also have "\<dots> = Some (node_look (Some (root t)) (ip_bits a) (False, 0, []))"
    using loop by (simp add: ip_bits_def w del: map_option_eq_Some)
  also have "\<dots> = Some (longest_match (stored t) (ip_bits a))"
    using node_look_eq [OF assms(1) [unfolded wf_tree_def], of "ip_bits a" "(False, 0, [])"]
    unfolding longest_match_def stored_def add_0 by (rule arg_cong)
  finally show ?thesis .
qed

interpretation radix: prefix_store stored wf_tree newIPRadixTree net_ok net_bits tree_insert tree_remove
  ip_ok ip_bits tree_contains
proof
  show "stored newIPRadixTree = Map.empty" by (simp add: stored_def newIPRadixTree_def)
  show "wf_tree newIPRadixTree" by (simp add: wf_tree_def newIPRadixTree_def)
  show "finite (dom (stored t))" for t by (simp add: stored_def finite_stored_at)
  show "\<exists>t'. tree_insert c md t = Some (t', stored t (net_bits c) = None) \<and> wf_tree t'
      \<and> stored t' = (stored t)(net_bits c \<mapsto> md)" if "wf_tree t" "net_ok c" for t c md
    using that by (rule tree_insert_spec)
  show "\<exists>t'. tree_remove c t = Some (t', stored t (net_bits c) \<noteq> None) \<and> wf_tree t'
      \<and> stored t' = (stored t)(net_bits c := None)" if "wf_tree t" "net_ok c" for t c
    using that by (rule tree_remove_spec)
qed (rule tree_contains_spec)

section \<open>Networks from ParseCIDR\<close>

lemma prefixWalk_v4:
  "length (IP c) = 4 \<Longrightarrow> Mask c = CIDRMask n 32 \<Longrightarrow> n \<le> 32 \<Longrightarrow> prefixWalk c = (IP c, n)"
  by (simp add: prefixWalk_def familyWalk_def To4_def mask_size_CIDRMask)

lemma prefixWalk_v6:
  "To4 (IP c) = None \<Longrightarrow> Mask c = CIDRMask n 128 \<Longrightarrow> n \<le> 128 \<Longrightarrow> prefixWalk c = (IP c, n)"
  by (simp add: prefixWalk_def familyWalk_def mask_size_CIDRMask)

lemma prefixWalk_mapped:
  "To4 (IP c) = Some v4 \<Longrightarrow> Mask c = CIDRMask n 128 \<Longrightarrow> n \<le> 128 \<Longrightarrow> 96 \<le> n \<Longrightarrow>
   prefixWalk c = (v4, n - 96)"
  by (simp add: prefixWalk_def familyWalk_def mask_size_CIDRMask)

text \<open>
  The three shapes of a parsed network: the bytes the tree walks, the stored length, and the mask
  that \<open>IPNet.Contains\<close> applies to the same bytes.
\<close>

lemma ParseCIDR_walk:
  assumes "ParseCIDR s = Some c"
  obtains walk p m where "prefixWalk c = (walk, p)" and "network_number_and_mask c = Some (walk, m)"
    and "length m = length walk" and "p \<le> 8 * length walk"
    and "\<And>i. i < 8 * length walk \<Longrightarrow> mask_bit m i \<longleftrightarrow> i < p"
    and "length walk = (if is_v4 (IP c) then 4 else 16)"
  using assms
proof (cases rule: ParseCIDR_cases)
  case (v4 b n)
  then have len: "length (IP c) = 4" by simp
  then have "To4 (IP c) = Some (IP c)" by (simp add: To4_def)
  with v4 len show ?thesis
    by (intro that [of "IP c" n "Mask c"])
       (auto simp: prefixWalk_v4 network_number_and_mask_def mask_bit_CIDRMask is_v4_def)
next
  case (v6 b n)
  then have len: "length (IP c) = 16" by simp
  show ?thesis
  proof (cases "To4 (IP c)")
    case None
    with v6 len show ?thesis
      by (intro that [of "IP c" n "Mask c"])
         (auto simp: prefixWalk_v6 network_number_and_mask_def mask_bit_CIDRMask is_v4_def)
  next
    case (Some v4)
    with v6 have n: "96 \<le> n" using To4_masked [of b n] by simp
    have l4: "length v4 = 4" using Some len by (auto simp: To4_def split: if_splits)
    have mb: "mask_bit (drop 12 (CIDRMask n 128)) i \<longleftrightarrow> i < n - 96" if "i < 32" for i
    proof -
      have "(i + 96) div 8 = 12 + i div 8" by simp
      moreover have "(i + 8 * 12) mod 8 = i mod 8" by (rule mod_mult_self2)
      ultimately have "mask_bit (drop 12 (CIDRMask n 128)) i = mask_bit (CIDRMask n 128) (i + 96)"
        using that by (simp add: mask_bit_def)
      then show ?thesis using that by (auto simp: mask_bit_CIDRMask)
    qed
    show ?thesis
      using v6 Some n l4
      by (intro that [of v4 "n - 96" "drop 12 (Mask c)"])
         (auto simp: prefixWalk_mapped network_number_and_mask_def mb is_v4_def)
  qed
qed

lemma ParseCIDR_net_ok: "ParseCIDR s = Some c \<Longrightarrow> net_ok c"
  by (erule ParseCIDR_walk) (simp add: net_ok_def)

lemma and_eq_iff_bits:
  "(x :: byte) AND m = y AND m \<longleftrightarrow> (\<forall>j < 8. bit m j \<longrightarrow> bit x j = bit y j)"
  by (auto simp: bit_eq_iff bit_and_iff)

lemma all_bytes_bits: "(\<forall>q < n. \<forall>j < 8. P (8 * q + 7 - j)) \<longleftrightarrow> (\<forall>i < 8 * n. P i)" for n :: nat
proof
  assume all: "\<forall>q < n. \<forall>j < 8. P (8 * q + 7 - j)"
  show "\<forall>i < 8 * n. P i"
  proof (intro allI impI)
    fix i assume "i < 8 * n"
    then have "i div 8 < n" and "7 - i mod 8 < 8" by auto
    with all have "P (8 * (i div 8) + 7 - (7 - i mod 8))" by blast
    moreover have "i mod 8 < 8" by simp
    then have "8 * (i div 8) + 7 - (7 - i mod 8) = 8 * (i div 8) + i mod 8" by linarith
    then have "8 * (i div 8) + 7 - (7 - i mod 8) = i" by simp
    ultimately show "P i" by simp
  qed
qed auto

lemma byte_bit_index: "j < 8 \<Longrightarrow> (8 * q + 7 - j) div 8 = q" "j < 8 \<Longrightarrow> 7 - (8 * q + 7 - j) mod 8 = j"
  for q j :: nat
proof -
  assume "j < 8"
  then have "7 = j + (7 - j)" by simp
  then obtain d where d: "7 = j + d" by blast
  then have "8 * q + 7 - j = d + 8 * q" by simp
  moreover from d have "d < 8" "7 - d = j" by simp_all
  ultimately show "(8 * q + 7 - j) div 8 = q" "7 - (8 * q + 7 - j) mod 8 = j"
    by simp_all
qed

lemma masked_eq_iff_prefix:
  assumes len: "length m = length walk" "length x = length walk"
    and p: "p \<le> 8 * length walk"
    and m: "\<And>i. i < 8 * length walk \<Longrightarrow> mask_bit m i \<longleftrightarrow> i < p"
  shows "(\<forall>q < length walk. walk ! q AND m ! q = x ! q AND m ! q) \<longleftrightarrow>
         prefix (walk_bits walk p) (walk_bits x (8 * length walk))"
proof -
  have "(\<forall>q < length walk. walk ! q AND m ! q = x ! q AND m ! q) \<longleftrightarrow>
        (\<forall>q < length walk. \<forall>j < 8. mask_bit m (8 * q + 7 - j) \<longrightarrow>
            walk_bit walk (8 * q + 7 - j) = walk_bit x (8 * q + 7 - j))"
    by (simp add: and_eq_iff_bits mask_bit_def walk_bit_def byte_bit_index)
  also have "\<dots> \<longleftrightarrow> (\<forall>i < 8 * length walk. mask_bit m i \<longrightarrow> walk_bit walk i = walk_bit x i)"
    by (rule all_bytes_bits)
  also have "\<dots> \<longleftrightarrow> (\<forall>i < p. walk_bit walk i = walk_bit x i)"
    using m less_le_trans [OF _ p] by blast
  also have "\<dots> \<longleftrightarrow> walk_bits walk p = take p (walk_bits x (8 * length walk))"
    using p by (simp add: walk_bits_def take_map take_upt Ball_def)
  also have "\<dots> \<longleftrightarrow> prefix (walk_bits walk p) (walk_bits x (8 * length walk))"
    by (simp add: prefix_iff_take)
  finally show ?thesis .
qed

lemma IPNet_Contains_iff:
  assumes "ParseCIDR s = Some c" and "ip_ok a"
  shows "IPNet_Contains c a \<longleftrightarrow> is_v4 (IP c) = is_v4 a \<and> prefix (net_bits c) (ip_bits a)"
proof -
  obtain walk p m where w: "prefixWalk c = (walk, p)" "network_number_and_mask c = Some (walk, m)"
      "length m = length walk" "p \<le> 8 * length walk"
      "\<And>i. i < 8 * length walk \<Longrightarrow> mask_bit m i \<longleftrightarrow> i < p"
      "length walk = (if is_v4 (IP c) then 4 else 16)"
    using ParseCIDR_walk [OF assms(1)] by metis
  obtain x mx where x: "familyWalk a = (x, mx)" by fastforce
  have fam: "x = (case To4 a of Some v4 \<Rightarrow> v4 | None \<Rightarrow> a)" "mx = 8 * length x"
      "length x = (if is_v4 a then 4 else 16)"
    using x assms(2) by (auto simp: familyWalk_def is_v4_def ip_ok_def To4_def split: option.splits if_splits)
  have same: "length x = length walk \<longleftrightarrow> is_v4 (IP c) = is_v4 a"
    using w(6) fam(3) by simp
  show ?thesis
  proof (cases "length x = length walk")
    case True
    then show ?thesis
      using masked_eq_iff_prefix [OF w(3) True w(4,5)] same fam
      by (simp add: IPNet_Contains_def w(1,2) net_bits_def ip_bits_def x Let_def)
  next
    case False
    with same fam w(2) show ?thesis by (simp add: IPNet_Contains_def Let_def)
  qed
qed

section \<open>The helper\<close>

definition labels :: "Helper \<Rightarrow> bool \<Rightarrow> store" where
  "labels h v4 = stored (if v4 then ipv4Tree h else ipv6Tree h)"

definition wf_helper :: "Helper \<Rightarrow> bool" where
  "wf_helper h \<longleftrightarrow> wf_tree (ipv4Tree h) \<and> wf_tree (ipv6Tree h)
     \<and> count h = int (card (dom (labels h True)) + card (dom (labels h False)))"

definition found :: "Helper \<Rightarrow> ip \<Rightarrow> bool" where
  "found h a = (case Contains (Some a) h of Some (Inr (f, _, _)) \<Rightarrow> f | _ \<Rightarrow> False)"

lemma wf_treeFor: "wf_helper h \<Longrightarrow> wf_tree (treeFor a h)"
  by (simp add: wf_helper_def treeFor_def)

lemma stored_treeFor: "stored (treeFor a h) = labels h (is_v4 a)"
  by (simp add: labels_def treeFor_def)

lemma labels_set_treeFor:
  "labels (set_treeFor a t h) v4 = (if v4 = is_v4 a then stored t else labels h v4)"
  by (simp add: labels_def set_treeFor_def)

lemma labels_count [simp]: "labels (h\<lparr>count := n\<rparr>) = labels h"
  by (simp add: labels_def fun_eq_iff)

lemma wf_set_treeFor:
  assumes "wf_helper h" and "wf_tree t"
    and "int (card (dom (stored t))) = int (card (dom (labels h (is_v4 a)))) + d"
  shows "wf_helper ((set_treeFor a t h)\<lparr>count := count (set_treeFor a t h) + d\<rparr>)"
  using assms by (cases "is_v4 a") (auto simp: wf_helper_def set_treeFor_def labels_def)

lemma AddCIDR_Some:
  assumes "wf_helper h" and "ParseCIDR cidr = Some c"
  shows "\<exists>h'. AddCIDR cidr md h = Some (h', None) \<and> wf_helper h'
    \<and> labels h' = (labels h)(is_v4 (IP c) := (labels h (is_v4 (IP c)))(net_bits c \<mapsto> md))"
proof -
  note ok = wf_treeFor [OF assms(1), of "IP c"] ParseCIDR_net_ok [OF assms(2)]
  obtain t added where t: "tree_insert c md (treeFor (IP c) h) = Some (t, added)" "wf_tree t"
      "stored t = (labels h (is_v4 (IP c)))(net_bits c \<mapsto> md)"
    using radix.ins_spec [OF ok, of md] by (auto simp: stored_treeFor)
  let ?d = "if added then 1 else 0 :: int"
  have "int (card (dom (stored t))) = int (card (dom (labels h (is_v4 (IP c))))) + ?d"
    using radix.card_ins [OF ok t(1)] by (simp add: stored_treeFor)
  from wf_set_treeFor [OF assms(1) t(2) this]
  have "wf_helper ((set_treeFor (IP c) t h)\<lparr>count := count (set_treeFor (IP c) t h) + ?d\<rparr>)" .
  moreover have "AddCIDR cidr md h
      = Some ((set_treeFor (IP c) t h)\<lparr>count := count (set_treeFor (IP c) t h) + ?d\<rparr>, None)"
    by (simp add: AddCIDR_def assms(2) t(1) Let_def)
  moreover have "labels (set_treeFor (IP c) t h)
      = (labels h)(is_v4 (IP c) := (labels h (is_v4 (IP c)))(net_bits c \<mapsto> md))"
    by (rule ext) (simp add: labels_set_treeFor t(3))
  ultimately show ?thesis by auto
qed

lemma RemoveCIDR_Some:
  assumes "wf_helper h" and "ParseCIDR cidr = Some c"
  shows "\<exists>h'. RemoveCIDR cidr h = Some (h', Inr (labels h (is_v4 (IP c)) (net_bits c) \<noteq> None)) \<and> wf_helper h'
    \<and> labels h' = (labels h)(is_v4 (IP c) := (labels h (is_v4 (IP c)))(net_bits c := None))"
proof -
  note ok = wf_treeFor [OF assms(1), of "IP c"] ParseCIDR_net_ok [OF assms(2)]
  obtain t removed where t: "tree_remove c (treeFor (IP c) h) = Some (t, removed)" "wf_tree t"
      "stored t = (labels h (is_v4 (IP c)))(net_bits c := None)"
      "removed \<longleftrightarrow> labels h (is_v4 (IP c)) (net_bits c) \<noteq> None"
    using radix.rem_spec [OF ok] by (auto simp: stored_treeFor)
  show ?thesis
  proof (cases removed)
    case False
    with t assms show ?thesis by (auto simp: RemoveCIDR_def fun_upd_idem)
  next
    case True
    have "int (card (dom (stored t))) = int (card (dom (labels h (is_v4 (IP c))))) + - 1"
      using radix.card_rem [OF ok t(1)] True by (simp add: stored_treeFor)
    from wf_set_treeFor [OF assms(1) t(2) this]
    have "wf_helper ((set_treeFor (IP c) t h)\<lparr>count := count (set_treeFor (IP c) t h) - 1\<rparr>)" by simp
    moreover have "labels (set_treeFor (IP c) t h)
        = (labels h)(is_v4 (IP c) := (labels h (is_v4 (IP c)))(net_bits c := None))"
      by (rule ext) (simp add: labels_set_treeFor t(3))
    ultimately show ?thesis using True t by (simp add: RemoveCIDR_def assms(2) Let_def)
  qed
qed

lemma Contains_eq:
  "wf_helper h \<Longrightarrow> ip_ok a \<Longrightarrow>
   Contains (Some a) h = Some (Inr (longest_match (labels h (is_v4 a)) (ip_bits a)))"
  by (simp add: Contains_def radix.look_spec wf_treeFor stored_treeFor)

lemma longest_match_cases:
  obtains (none) "longest_match m bs = (False, 0, [])" and "\<And>p. prefix p bs \<Longrightarrow> m p = None"
    | (some) n md where "longest_match m bs = (True, n, md)" and "n \<le> length bs" and "m (take n bs) = Some md"
        and "\<And>p. prefix p bs \<Longrightarrow> m p \<noteq> None \<Longrightarrow> length p \<le> n"
proof (cases "find (\<lambda>n. m (take n bs) \<noteq> None) (rev [0..<Suc (length bs)])")
  case None
  then have "m (take k bs) = None" if "k < Suc (length bs)" for k
    using that unfolding find_rev_upt_None by blast
  then have "m p = None" if "prefix p bs" for p
    using that prefix_length_le [OF that] by (metis less_Suc_eq_le prefix_iff_take)
  with None show ?thesis by (intro none) (simp_all add: longest_match_def del: upt_Suc)
next
  case (Some n)
  then have n: "n < Suc (length bs)" "m (take n bs) \<noteq> None"
      "\<And>j. n < j \<Longrightarrow> j < Suc (length bs) \<Longrightarrow> m (take j bs) = None"
    unfolding find_rev_upt_Some by blast+
  have "length p \<le> n" if "prefix p bs" "m p \<noteq> None" for p
    using that n(3) [of "length p"] prefix_length_le [OF that(1)]
    by (metis less_Suc_eq_le not_le prefix_iff_take)
  with Some n show ?thesis
    by (intro some [of n "the (m (take n bs))"]) (auto simp: longest_match_def simp del: upt_Suc)
qed

lemma longest_match_found:
  "fst (longest_match m bs) \<longleftrightarrow> (\<exists>p. m p \<noteq> None \<and> prefix p bs)"
proof (cases rule: longest_match_cases [of m bs])
  case (some n md)
  then show ?thesis using take_is_prefix [of n bs] by auto
qed auto

lemma found_iff:
  "wf_helper h \<Longrightarrow> ip_ok a \<Longrightarrow> found h a \<longleftrightarrow> (\<exists>p. labels h (is_v4 a) p \<noteq> None \<and> prefix p (ip_bits a))"
  using longest_match_found [of "labels h (is_v4 a)" "ip_bits a"]
  by (cases "longest_match (labels h (is_v4 a)) (ip_bits a)") (simp add: found_def Contains_eq)

lemma wf_New: "wf_helper Helper_New" and labels_New: "labels Helper_New v4 = Map.empty"
  by (simp_all add: wf_helper_def Helper_New_def labels_def radix.abs_new radix.inv_new)

lemma Reset_eq_New: "Helper_Reset h = Helper_New"
  by (cases h) (simp add: Helper_Reset_def Helper_New_def)

lemma covered_upd:
  "(\<exists>p. (m(k \<mapsto> v)) p \<noteq> None \<and> prefix p bs) \<longleftrightarrow> prefix k bs \<or> (\<exists>p. m p \<noteq> None \<and> prefix p bs)"
  by (metis fun_upd_apply option.distinct(1))

lemma found_put:
  assumes "wf_helper h" and "wf_helper h'"
    and "labels h' = (labels h)(is_v4 (IP c) := (labels h (is_v4 (IP c)))(net_bits c \<mapsto> md))"
    and "ParseCIDR cidr = Some c" and "ip_ok a"
  shows "found h' a \<longleftrightarrow> IPNet_Contains c a \<or> found h a"
  unfolding IPNet_Contains_iff [OF assms(4,5)] found_iff [OF assms(1,5)] found_iff [OF assms(2,5)]
  using covered_upd [of "labels h (is_v4 a)" "net_bits c" md "ip_bits a"]
  by (cases "is_v4 (IP c) = is_v4 a") (simp_all add: assms(3))

text \<open>
  C11: Adding a network makes exactly its addresses found. On a well-formed helper \<open>AddCIDR\<close> of a text
  that parses never panics and returns no error, and afterwards an address is found exactly when it
  was found before or Go's own \<open>net.IPNet.Contains\<close> accepts it for the parsed network, for IPv4,
  IPv6 and IPv4-mapped networks alike.
\<close>

theorem AddCIDR_found:
  assumes "wf_helper h" and "ParseCIDR cidr = Some c" and "ip_ok a"
  shows "\<exists>h'. AddCIDR cidr md h = Some (h', None) \<and> wf_helper h'
           \<and> (found h' a \<longleftrightarrow> IPNet_Contains c a \<or> found h a)"
proof -
  obtain h' where h': "AddCIDR cidr md h = Some (h', None)" "wf_helper h'"
      "labels h' = (labels h)(is_v4 (IP c) := (labels h (is_v4 (IP c)))(net_bits c \<mapsto> md))"
    using AddCIDR_Some [OF assms(1,2)] by blast
  with found_put [OF assms(1) h'(2,3) assms(2,3)] show ?thesis by blast
qed

theorem AddCIDR_found_witness:
  "\<exists>h'. AddCIDR ''10.0.0.0/8'' ''office'' Helper_New = Some (h', None) \<and> wf_helper h'
      \<and> (found h' [10, 1, 2, 3] \<longleftrightarrow>
          IPNet_Contains \<lparr>IP = [10, 0, 0, 0], Mask = [255, 0, 0, 0]\<rparr> [10, 1, 2, 3] \<or> found Helper_New [10, 1, 2, 3])"
proof (rule AddCIDR_found [OF wf_New])
  show "ParseCIDR ''10.0.0.0/8'' = Some \<lparr>IP = [10, 0, 0, 0], Mask = [255, 0, 0, 0]\<rparr>" by code_simp
  show "ip_ok [10, 1, 2, 3]" by (simp add: ip_ok_def)
qed

text \<open>
  The longest stored prefix wins. On a well-formed helper and an address of 4 or 16 bytes
  \<open>Contains\<close> does not panic. It reports not found, length 0 and an empty label exactly when no stored
  prefix of the address's own family covers it; otherwise it reports the length and the label of a
  stored prefix that covers the address, and no longer stored prefix does.
\<close>

theorem Contains_longest:
  assumes "wf_helper h" and "ip_ok a"
  shows "\<exists>f n md. Contains (Some a) h = Some (Inr (f, n, md)) \<and>
     (if f then n \<le> length (ip_bits a) \<and> labels h (is_v4 a) (take n (ip_bits a)) = Some md
              \<and> (\<forall>p. prefix p (ip_bits a) \<and> labels h (is_v4 a) p \<noteq> None \<longrightarrow> length p \<le> n)
      else n = 0 \<and> md = [] \<and> (\<forall>p. prefix p (ip_bits a) \<longrightarrow> labels h (is_v4 a) p = None))"
  using longest_match_cases [of "labels h (is_v4 a)" "ip_bits a"]
  by cases (auto simp: Contains_eq [OF assms])

theorem Contains_longest_witness:
  "\<exists>f n md. Contains (Some [10, 1, 2, 3]) Helper_New = Some (Inr (f, n, md)) \<and>
     (if f then n \<le> length (ip_bits [10, 1, 2, 3])
              \<and> labels Helper_New (is_v4 [10, 1, 2, 3]) (take n (ip_bits [10, 1, 2, 3])) = Some md
              \<and> (\<forall>p. prefix p (ip_bits [10, 1, 2, 3]) \<and> labels Helper_New (is_v4 [10, 1, 2, 3]) p \<noteq> None
                    \<longrightarrow> length p \<le> n)
      else n = 0 \<and> md = []
         \<and> (\<forall>p. prefix p (ip_bits [10, 1, 2, 3]) \<longrightarrow> labels Helper_New (is_v4 [10, 1, 2, 3]) p = None))"
  by (rule Contains_longest [OF wf_New]) (simp add: ip_ok_def)

text \<open>
  C12: Removing a freshly added network restores every lookup. If the prefix was not stored before,
  \<open>AddCIDR\<close> raises \<open>Count\<close> by one, and \<open>RemoveCIDR\<close> of any text of the same network then
  reports true and leaves the count, both families' stored prefixes and the result of every lookup
  as they were.
\<close>

theorem Add_Remove_roundtrip:
  assumes "wf_helper h" and "ParseCIDR cidr = Some c" and "ParseCIDR cidr' = Some c"
    and "labels h (is_v4 (IP c)) (net_bits c) = None"
  shows "\<exists>h1 h2. AddCIDR cidr md h = Some (h1, None) \<and> Helper_Count h1 = Helper_Count h + 1
           \<and> RemoveCIDR cidr' h1 = Some (h2, Inr True) \<and> Helper_Count h2 = Helper_Count h
           \<and> labels h2 = labels h \<and> (\<forall>a. ip_ok a \<longrightarrow> Contains (Some a) h2 = Contains (Some a) h)"
proof -
  let ?f = "is_v4 (IP c)" and ?b = "net_bits c"
  obtain h1 where h1: "AddCIDR cidr md h = Some (h1, None)" "wf_helper h1"
      "labels h1 = (labels h)(?f := (labels h ?f)(?b \<mapsto> md))"
    using AddCIDR_Some [OF assms(1,2)] by blast
  have "labels h1 ?f ?b \<noteq> None" by (simp add: h1(3))
  with RemoveCIDR_Some [OF h1(2) assms(3)]
  obtain h2 where h2: "RemoveCIDR cidr' h1 = Some (h2, Inr True)" "wf_helper h2"
      "labels h2 = (labels h1)(?f := (labels h1 ?f)(?b := None))"
    by auto
  have labels: "labels h2 = labels h"
    using assms(4) by (auto simp: h2(3) h1(3) fun_eq_iff)
  have fin: "finite (dom (labels h v))" for v
    using assms(1) by (simp add: labels_def radix.finite_abs wf_helper_def)
  have "card (dom (labels h1 ?f)) = card (dom (labels h ?f)) + 1"
    using assms(4) fin by (simp add: h1(3) card_insert_if domIff)
  then have "count h1 = count h + 1"
    using assms(1) h1(2,3) by (cases ?f) (simp_all add: wf_helper_def)
  moreover have "count h2 = count h"
    using assms(1) h2(2) labels by (simp add: wf_helper_def)
  ultimately show ?thesis
    using h1(1) h2(1,2) labels assms(1) by (auto simp: Helper_Count_def Contains_eq)
qed

theorem Add_Remove_roundtrip_witness:
  "\<exists>h1 h2. AddCIDR ''10.0.0.1/8'' ''x'' Helper_New = Some (h1, None)
     \<and> Helper_Count h1 = Helper_Count Helper_New + 1
     \<and> RemoveCIDR ''10.9.9.9/8'' h1 = Some (h2, Inr True) \<and> Helper_Count h2 = Helper_Count Helper_New
     \<and> labels h2 = labels Helper_New
     \<and> (\<forall>a. ip_ok a \<longrightarrow> Contains (Some a) h2 = Contains (Some a) Helper_New)"
proof (rule Add_Remove_roundtrip [OF wf_New])
  show "ParseCIDR ''10.0.0.1/8'' = Some \<lparr>IP = [10, 0, 0, 0], Mask = [255, 0, 0, 0]\<rparr>" by code_simp
  show "ParseCIDR ''10.9.9.9/8'' = Some \<lparr>IP = [10, 0, 0, 0], Mask = [255, 0, 0, 0]\<rparr>" by code_simp
qed (simp add: labels_New)

subsection \<open>Host entries\<close>

lemma ParseCIDR_HostCIDR:
  assumes "length a = 4 \<or> length a = 16"
  shows "ParseCIDR (HostCIDR a) = Some \<lparr>IP = ip_norm a, Mask = replicate (length (ip_norm a)) 255\<rparr>"
proof (cases "To4 a")
  case None
  then have a: "length a = 16" using assms by (auto simp: To4_def)
  have "ip_mask a (replicate 16 255) = Some a"
    using a by (simp add: ip_mask_def map2_and_full)
  moreover have "dtoi_go 0 0 ''128'' = (128, length ''128'', True)" by code_simp
  note ParseCIDR_slash [OF parse_addr_ip_string(2,1) [OF assms] this]
  ultimately show ?thesis
    using None a by (simp add: HostCIDR_def ip_norm_def ip_addr_def as16_def addr_bits_def CIDRMask_full)
next
  case (Some v4)
  have 4: "length v4 = 4" using To4_length [OF Some] .
  have "ip_mask (v4_in_v6_prefix @ v4) (replicate 4 255) = Some v4"
    using 4 by (simp add: ip_mask_def map2_and_full v4_in_v6_prefix_def)
  moreover have len: "length v4 = 4 \<or> length v4 = 16" using 4 by simp
  have "dtoi_go 0 0 ''32'' = (32, length ''32'', True)" by code_simp
  note ParseCIDR_slash [OF parse_addr_ip_string(2,1) [OF len] this]
  ultimately show ?thesis
    using Some 4 by (simp add: HostCIDR_def ip_norm_def ip_addr_def To4_v4 as16_def
      addr_bits_def CIDRMask_full)
qed


lemma ip_norm_length: "ip_ok a \<Longrightarrow> length (ip_norm a) = 4 \<and> To4 (ip_norm a) = Some (ip_norm a)
    \<or> length (ip_norm a) = 16 \<and> To4 (ip_norm a) = None"
  by (auto simp: ip_norm_def ip_ok_def To4_def split: option.splits if_splits)

lemma nth_and_full:
  "length xs = n \<Longrightarrow> length ys = n \<Longrightarrow>
   (\<forall>i < n. xs ! i AND replicate n (255 :: byte) ! i = ys ! i AND replicate n 255 ! i) \<longleftrightarrow> xs = ys"
proof -
  assume len: "length xs = n" "length ys = n"
  have "w AND 255 = w" for w :: byte
    by (rule bit_word_eqI) (auto simp: bit_simps less_Suc_eq numeral_eq_Suc)
  then have "(\<forall>i < n. xs ! i AND replicate n (255 :: byte) ! i = ys ! i AND replicate n 255 ! i)
      \<longleftrightarrow> (\<forall>i < n. xs ! i = ys ! i)" by simp
  with len show ?thesis by (metis nth_equalityI)
qed

lemma host_contains:
  assumes "ip_ok a" and "ip_ok b"
  shows "IPNet_Contains \<lparr>IP = ip_norm a, Mask = replicate (length (ip_norm a)) 255\<rparr> b
    \<longleftrightarrow> ip_norm b = ip_norm a"
proof -
  let ?c = "\<lparr>IP = ip_norm a, Mask = replicate (length (ip_norm a)) 255\<rparr> :: IPNet"
  have "network_number_and_mask ?c = Some (ip_norm a, replicate (length (ip_norm a)) 255)"
    using ip_norm_length [OF assms(1)] by (auto simp: network_number_and_mask_def Let_def)
  then have "IPNet_Contains ?c b \<longleftrightarrow> length (ip_norm b) = length (ip_norm a) \<and>
      (\<forall>i < length (ip_norm b). ip_norm a ! i AND replicate (length (ip_norm a)) 255 ! i
         = ip_norm b ! i AND replicate (length (ip_norm a)) 255 ! i)"
    by (simp add: IPNet_Contains_def ip_norm_def [of b] Let_def)
  then show ?thesis using nth_and_full [of "ip_norm a" "length (ip_norm b)" "ip_norm b"] by auto
qed

lemma ParseIP_ok: "ParseIP s = Some a \<Longrightarrow> ip_ok a"
  by (auto simp: ParseIP_def ip_ok_def dest: as16_length)

subsection \<open>Runs of operations\<close>

datatype helper_op =
    OpAddCIDR string string
  | OpAddEntry string string
  | OpRemoveCIDR string
  | OpReset

definition helper_step :: "helper_op \<Rightarrow> Helper \<Rightarrow> Helper option" where
  "helper_step op h =
     (case op of
        OpAddCIDR cidr md \<Rightarrow> map_option fst (AddCIDR cidr md h)
      | OpAddEntry entry md \<Rightarrow> map_option fst (AddEntry entry md h)
      | OpRemoveCIDR cidr \<Rightarrow> map_option fst (RemoveCIDR cidr h)
      | OpReset \<Rightarrow> Some (Helper_Reset h))"

fun helper_run :: "helper_op list \<Rightarrow> Helper \<Rightarrow> Helper option" where
  "helper_run [] h = Some h"
| "helper_run (op # ops) h = Option.bind (helper_step op h) (helper_run ops)"

type_synonym stores = "bool \<Rightarrow> store"

definition spec_put :: "string \<Rightarrow> string option \<Rightarrow> stores \<Rightarrow> stores" where
  "spec_put cidr v m =
     (case ParseCIDR cidr of
        None \<Rightarrow> m
      | Some c \<Rightarrow> m(is_v4 (IP c) := (m (is_v4 (IP c)))(net_bits c := v)))"

definition spec_step :: "helper_op \<Rightarrow> stores \<Rightarrow> stores" where
  "spec_step op m =
     (case op of
        OpAddCIDR cidr md \<Rightarrow> spec_put cidr (Some md) m
      | OpAddEntry entry md \<Rightarrow> (case entryCIDR entry of Inl _ \<Rightarrow> m | Inr cidr \<Rightarrow> spec_put cidr (Some md) m)
      | OpRemoveCIDR cidr \<Rightarrow> spec_put cidr None m
      | OpReset \<Rightarrow> (\<lambda>_. Map.empty))"

lemma AddCIDR_put:
  "wf_helper h \<Longrightarrow> \<exists>h' e. AddCIDR cidr md h = Some (h', e) \<and> wf_helper h'
     \<and> labels h' = spec_put cidr (Some md) (labels h)"
  using AddCIDR_Some [of h cidr _ md] by (cases "ParseCIDR cidr") (auto simp: spec_put_def AddCIDR_def)

lemma RemoveCIDR_put:
  "wf_helper h \<Longrightarrow> \<exists>h' r. RemoveCIDR cidr h = Some (h', r) \<and> wf_helper h'
     \<and> labels h' = spec_put cidr None (labels h)"
  using RemoveCIDR_Some [of h cidr] by (cases "ParseCIDR cidr") (auto simp: spec_put_def RemoveCIDR_def)

lemma helper_step_simulates:
  assumes "wf_helper h"
  shows "\<exists>h'. helper_step op h = Some h' \<and> wf_helper h' \<and> labels h' = spec_step op (labels h)"
proof (cases op)
  case (OpAddCIDR cidr md)
  with AddCIDR_put [OF assms, of cidr md] show ?thesis by (auto simp: helper_step_def spec_step_def)
next
  case (OpAddEntry entry md)
  with assms AddCIDR_put [OF assms, of _ md] show ?thesis
    by (cases "entryCIDR entry") (fastforce simp: helper_step_def spec_step_def AddEntry_def)+
next
  case (OpRemoveCIDR cidr)
  with RemoveCIDR_put [OF assms, of cidr] show ?thesis by (auto simp: helper_step_def spec_step_def)
next
  case OpReset
  then show ?thesis using wf_New labels_New by (auto simp: helper_step_def spec_step_def Reset_eq_New)
qed

lemma helper_run_simulates:
  "wf_helper h \<Longrightarrow> \<exists>h'. helper_run ops h = Some h' \<and> wf_helper h' \<and> labels h' = foldl (\<lambda>m op. spec_step op m) (labels h) ops"
proof (induction ops arbitrary: h)
  case (Cons op ops)
  then show ?case using helper_step_simulates [OF Cons.prems, of op] by fastforce
qed simp

text \<open>
  A bare address is stored as exactly that host. When the trimmed entry has no slash and is an
  address, \<open>AddEntry\<close> (through \<open>HostCIDR\<close>, whose text parses back to the address under a full
  mask) neither panics nor fails, and afterwards an address is found exactly when it was found
  before or is the same host, an IPv4 address and its IPv4-mapped form counting as one.
\<close>

theorem AddEntry_host:
  assumes "wf_helper h" and "CHR ''/'' \<notin> set (TrimSpace entry)" and "ParseIP (TrimSpace entry) = Some a"
    and "ip_ok b"
  shows "\<exists>h'. AddEntry entry md h = Some (h', None) \<and> wf_helper h'
           \<and> (found h' b \<longleftrightarrow> ip_norm b = ip_norm a \<or> found h b)"
proof -
  have a: "ip_ok a" using ParseIP_ok [OF assms(3)] .
  have "AddEntry entry md h = AddCIDR (HostCIDR a) md h"
    using assms(2,3) by (simp add: AddEntry_def entryCIDR_def Let_def)
  moreover have c: "ParseCIDR (HostCIDR a)
      = Some \<lparr>IP = ip_norm a, Mask = replicate (length (ip_norm a)) 255\<rparr>"
    using ParseCIDR_HostCIDR a by (simp add: ip_ok_def)
  moreover obtain h' where h': "AddCIDR (HostCIDR a) md h = Some (h', None)" "wf_helper h'"
      "labels h' = spec_put (HostCIDR a) (Some md) (labels h)"
    using AddCIDR_Some [OF assms(1) c, of md] c by (auto simp: spec_put_def)
  moreover have "found h' b \<longleftrightarrow> ip_norm b = ip_norm a \<or> found h b"
    using found_put [OF assms(1) h'(2) _ c assms(4)] h'(3) c host_contains [OF a assms(4)]
    by (simp add: spec_put_def)
  ultimately show ?thesis by simp
qed

theorem AddEntry_host_witness:
  "\<exists>h'. AddEntry '' 2001:db8::1 '' ''peer'' Helper_New = Some (h', None) \<and> wf_helper h'
     \<and> (found h' [32, 1, 13, 184, 0, 0, 0, 0, 0, 0, 0, 0, 0, 0, 0, 1] \<longleftrightarrow>
          ip_norm [32, 1, 13, 184, 0, 0, 0, 0, 0, 0, 0, 0, 0, 0, 0, 1]
            = ip_norm [32, 1, 13, 184, 0, 0, 0, 0, 0, 0, 0, 0, 0, 0, 0, 1]
          \<or> found Helper_New [32, 1, 13, 184, 0, 0, 0, 0, 0, 0, 0, 0, 0, 0, 0, 1])"
proof (rule AddEntry_host [OF wf_New])
  show "CHR ''/'' \<notin> set (TrimSpace '' 2001:db8::1 '')" by code_simp
  show "ParseIP (TrimSpace '' 2001:db8::1 '')
      = Some [32, 1, 13, 184, 0, 0, 0, 0, 0, 0, 0, 0, 0, 0, 0, 1]" by code_simp
  show "ip_ok [32, 1, 13, 184, 0, 0, 0, 0, 0, 0, 0, 0, 0, 0, 0, 1]" by (simp add: ip_ok_def)
qed

text \<open>
  C6: Every run of the helper refines the abstract stores. Any sequence of \<open>AddCIDR\<close>, \<open>AddEntry\<close>,
  \<open>RemoveCIDR\<close> and \<open>Reset\<close> calls on a new helper, with valid or malformed text, runs without a
  panic and ends well formed; the stored prefixes of both families are those of the same sequence on
  two maps from bit strings to labels, \<open>Count\<close> is their number, and every lookup of a 4- or
  16-byte address is the longest match in the map of its family.
\<close>

theorem helper_run_refines:
  "\<exists>h. helper_run ops Helper_New = Some h \<and> wf_helper h
     \<and> labels h = foldl (\<lambda>m op. spec_step op m) (\<lambda>_. Map.empty) ops
     \<and> Helper_Count h = int (card (dom (labels h True)) + card (dom (labels h False)))
     \<and> (\<forall>a. ip_ok a \<longrightarrow> Contains (Some a) h
            = Some (Inr (longest_match (labels h (is_v4 a)) (ip_bits a))))"
proof -
  have "labels Helper_New = (\<lambda>_. Map.empty)" using labels_New by (auto simp: fun_eq_iff)
  with helper_run_simulates [OF wf_New, of ops] show ?thesis
    by (auto simp: Contains_eq) (auto simp: wf_helper_def Helper_Count_def)
qed

theorem helper_run_refines_witness:
  "ip_ok [10, 1, 2, 3] \<and> (\<exists>h. helper_run [OpAddCIDR ''10.0.0.0/8'' ''a'', OpAddEntry ''bad'' ''b''] Helper_New = Some h
     \<and> Contains (Some [10, 1, 2, 3]) h
         = Some (Inr (longest_match (labels h (is_v4 [10, 1, 2, 3])) (ip_bits [10, 1, 2, 3]))))"
  using helper_run_refines [of "[OpAddCIDR ''10.0.0.0/8'' ''a'', OpAddEntry ''bad'' ''b'']"]
  by (fastforce simp: ip_ok_def)

text \<open>
  A non-nil address of no bytes is not caught by the nil check of \<open>Contains\<close>: the walk reads bit 0
  of an empty slice and panics.
\<close>

lemma Contains_empty_panics: "Contains (Some []) h = None"
proof -
  have "contains_loop [] 128 128 (Some n) res = None" for n res
    by (subst (2) Suc_pred [of 128, symmetric], simp, subst contains_loop.simps(3))
      (simp add: bitAt_def)
  then show ?thesis by (simp add: Contains_def tree_contains_def familyWalk_def To4_def)
qed

end
