(* ===== verification/Float64.thy ===== *)
theory Float64
  imports Prelude Complex_Main
begin

text \<open>
  Go's \<open>float64\<close>: IEEE 754 binary64 with rounding to nearest, ties to even. A finite value is the
  rational it stands for; an operation computes exactly and rounds once. The sign of zero is not
  kept: no comparison of the modelled code sees it, and the only division is by a value that is
  never a negative zero.
\<close>

section \<open>Rounding\<close>

function bit_len :: "int \<Rightarrow> int" where
  "bit_len n = (if n \<le> 0 then 0 else 1 + bit_len (n div 2))"
  by pat_completeness auto
termination
  by (relation "measure nat") auto

declare bit_len.simps [simp del]

text \<open>Powers of two with an integer exponent, computed on integers.\<close>

definition pow2 :: "int \<Rightarrow> rat" where
  "pow2 e = (if 0 \<le> e then of_int (2 ^ nat e) else 1 / of_int (2 ^ nat (- e)))"

definition adjust_log2 :: "rat \<Rightarrow> int \<Rightarrow> int" where
  "adjust_log2 q e = (if q < pow2 e then e - 1 else e)"

definition floor_log2 :: "rat \<Rightarrow> int" where
  "floor_log2 q =
     (case quotient_of q of (n, d) \<Rightarrow> adjust_log2 q (bit_len n - bit_len d))"

text \<open>To the nearest integer: \<open>f\<close> is the floor and \<open>r\<close> the fraction.\<close>

definition tie_even :: "int \<Rightarrow> rat \<Rightarrow> int" where
  "tie_even f r = (if r < 1 / 2 then f else if 1 / 2 < r then f + 1 else if even f then f else f + 1)"

definition half_even :: "rat \<Rightarrow> int" where
  "half_even q = tie_even \<lfloor>q\<rfloor> (q - of_int \<lfloor>q\<rfloor>)"

text \<open>The exponent of the last place: 53 significant bits, fewer below the least normal number.\<close>

definition ulp_exp :: "rat \<Rightarrow> int" where
  "ulp_exp q = max (floor_log2 \<bar>q\<bar>) (- 1022) - 52"

definition round_to :: "rat \<Rightarrow> rat \<Rightarrow> rat" where
  "round_to q u = of_int (half_even (q / u)) * u"

definition round53 :: "rat \<Rightarrow> rat" where
  "round53 q = (if q = 0 then 0 else round_to q (pow2 (ulp_exp q)))"

datatype float64 = Fin rat | PosInf | NegInf | NaN

definition finf :: "bool \<Rightarrow> float64" where
  "finf pos = (if pos then PosInf else NegInf)"

definition clamp :: "rat \<Rightarrow> float64" where
  "clamp r = (if r \<noteq> 0 \<and> 1024 \<le> floor_log2 \<bar>r\<bar> then finf (0 < r) else Fin r)"

definition round64 :: "rat \<Rightarrow> float64" where
  "round64 q = clamp (round53 q)"

section \<open>Operations\<close>

definition float_of_int :: "int \<Rightarrow> float64" where
  "float_of_int n = round64 (of_int n)"

fun fneg :: "float64 \<Rightarrow> float64" where
  "fneg (Fin a) = Fin (- a)"
| "fneg PosInf = NegInf"
| "fneg NegInf = PosInf"
| "fneg NaN = NaN"

fun fadd :: "float64 \<Rightarrow> float64 \<Rightarrow> float64" where
  "fadd NaN y = NaN"
| "fadd x NaN = NaN"
| "fadd (Fin a) (Fin b) = round64 (a + b)"
| "fadd (Fin a) y = y"
| "fadd x (Fin b) = x"
| "fadd PosInf PosInf = PosInf"
| "fadd NegInf NegInf = NegInf"
| "fadd PosInf NegInf = NaN"
| "fadd NegInf PosInf = NaN"

definition fsub :: "float64 \<Rightarrow> float64 \<Rightarrow> float64" where
  "fsub x y = fadd x (fneg y)"

fun fmul :: "float64 \<Rightarrow> float64 \<Rightarrow> float64" where
  "fmul NaN y = NaN"
| "fmul x NaN = NaN"
| "fmul (Fin a) (Fin b) = round64 (a * b)"
| "fmul (Fin a) PosInf = (if a = 0 then NaN else finf (0 < a))"
| "fmul (Fin a) NegInf = (if a = 0 then NaN else finf (a < 0))"
| "fmul PosInf (Fin b) = (if b = 0 then NaN else finf (0 < b))"
| "fmul NegInf (Fin b) = (if b = 0 then NaN else finf (b < 0))"
| "fmul PosInf PosInf = PosInf"
| "fmul PosInf NegInf = NegInf"
| "fmul NegInf PosInf = NegInf"
| "fmul NegInf NegInf = PosInf"

fun fdiv :: "float64 \<Rightarrow> float64 \<Rightarrow> float64" where
  "fdiv NaN y = NaN"
| "fdiv x NaN = NaN"
| "fdiv (Fin a) (Fin b) =
     (if b = 0 then if a = 0 then NaN else finf (0 < a) else round64 (a / b))"
| "fdiv (Fin a) y = Fin 0"
| "fdiv PosInf (Fin b) = finf (0 \<le> b)"
| "fdiv NegInf (Fin b) = finf (b < 0)"
| "fdiv x y = NaN"

fun fless :: "float64 \<Rightarrow> float64 \<Rightarrow> bool" where
  "fless (Fin a) (Fin b) = (a < b)"
| "fless (Fin a) PosInf = True"
| "fless NegInf (Fin b) = True"
| "fless NegInf PosInf = True"
| "fless x y = False"

fun fle :: "float64 \<Rightarrow> float64 \<Rightarrow> bool" where
  "fle (Fin a) (Fin b) = (a \<le> b)"
| "fle NaN y = False"
| "fle x NaN = False"
| "fle x PosInf = True"
| "fle NegInf y = True"
| "fle x y = False"

definition is_nan :: "float64 \<Rightarrow> bool" where
  "is_nan x \<longleftrightarrow> x = NaN"

definition is_inf :: "float64 \<Rightarrow> bool" where
  "is_inf x \<longleftrightarrow> x = PosInf \<or> x = NegInf"

text \<open>
  The conversion to \<open>int64\<close> drops the fraction. Go leaves the result of a conversion whose value
  does not fit to the implementation, so that value is the argument \<open>oor\<close>.
\<close>

definition trunc :: "rat \<Rightarrow> int" where
  "trunc q = (if 0 \<le> q then \<lfloor>q\<rfloor> else - \<lfloor>- q\<rfloor>)"

definition int_of_float :: "int \<Rightarrow> float64 \<Rightarrow> int" where
  "int_of_float oor x =
     (case x of Fin a \<Rightarrow> if is_int64 (trunc a) then trunc a else oor | _ \<Rightarrow> oor)"

section \<open>Powers of two and the exponent\<close>

lemma pow2_powi: "pow2 e = 2 powi e"
  by (simp add: pow2_def power_int_def inverse_eq_divide power_one_over)

lemma pow2_pos [simp]: "0 < pow2 e"
  by (simp add: pow2_powi)

lemma pow2_nonzero [simp]: "pow2 e \<noteq> 0"
  using pow2_pos [of e] by linarith

lemma pow2_0 [simp]: "pow2 0 = 1"
  by (simp add: pow2_def)

lemma pow2_add: "pow2 (a + b) = pow2 a * pow2 b"
  by (simp add: pow2_powi power_int_add)

lemma pow2_diff: "pow2 (a - b) = pow2 a / pow2 b"
  by (simp add: pow2_powi power_int_diff)

lemma pow2_mono: "a \<le> b \<Longrightarrow> pow2 a \<le> pow2 b"
  by (simp add: pow2_powi power_int_increasing)

lemma pow2_less: "pow2 a < pow2 b \<longleftrightarrow> a < b"
  using pow2_mono [of b a] by (auto simp: pow2_powi not_less [symmetric] intro: power_int_strict_increasing)

lemma pow2_nat: "0 \<le> e \<Longrightarrow> pow2 e = of_int (2 ^ nat e)"
  by (simp add: pow2_def)

lemma pow2_Suc: "pow2 (a + 1) = 2 * pow2 a"
  by (simp add: pow2_add [of a 1]) (simp add: pow2_def)

lemma bit_len_bounds: "0 < n \<Longrightarrow> 0 < bit_len n \<and> pow2 (bit_len n - 1) \<le> of_int n \<and> of_int n < pow2 (bit_len n)"
proof (induction n rule: bit_len.induct)
  case (1 n)
  show ?case
  proof (cases "n = 1")
    case True
    have "bit_len 1 = 1" by (simp add: bit_len.simps)
    with True show ?thesis by (simp add: pow2_def)
  next
    case False
    let ?m = "n div 2"
    have "0 < ?m" using False 1(2) by linarith
    with 1 have IH: "0 < bit_len ?m" "pow2 (bit_len ?m - 1) \<le> of_int ?m" "of_int ?m < pow2 (bit_len ?m)"
      by auto
    have len: "bit_len n = bit_len ?m + 1" using 1(2) by (subst bit_len.simps) simp
    have "bit_len ?m - 1 + 1 = bit_len ?m" by simp
    then have lo: "pow2 (bit_len ?m) = 2 * pow2 (bit_len ?m - 1)" using pow2_Suc [of "bit_len ?m - 1"] by simp
    have eq: "pow2 (bit_len ?m) = of_int (2 ^ nat (bit_len ?m))" using IH(1) by (simp add: pow2_nat)
    then have "?m + 1 \<le> 2 ^ nat (bit_len ?m)" using IH(3) by (simp only: of_int_less_iff)
    then have "n < 2 * 2 ^ nat (bit_len ?m)" by linarith
    then have "(of_int n :: rat) < of_int (2 * 2 ^ nat (bit_len ?m))" by (simp only: of_int_less_iff)
    then have "of_int n < 2 * pow2 (bit_len ?m)" by (simp add: eq)
    moreover have "2 * of_int ?m \<le> (of_int n :: rat)"
    proof -
      have "(of_int (2 * ?m) :: rat) \<le> of_int n" by (simp only: of_int_le_iff)
      then show ?thesis by simp
    qed
    ultimately show ?thesis using IH lo by (simp add: len pow2_Suc)
  qed
qed

lemma floor_log2_bounds:
  assumes "0 < q"
  shows "pow2 (floor_log2 q) \<le> q" and "q < pow2 (floor_log2 q + 1)"
proof -
  obtain n d where nd: "quotient_of q = (n, d)" by (cases "quotient_of q")
  then have q: "q = of_int n / of_int d" and d: "0 < d"
    by (auto simp: quotient_of_div quotient_of_denom_pos)
  with assms have n: "0 < n" by (simp add: zero_less_divide_iff)
  let ?e = "bit_len n - bit_len d"
  note bn = bit_len_bounds [OF n] and bd = bit_len_bounds [OF d]
  have d': "(0 :: rat) < of_int d" using d by simp
  have "q < pow2 (bit_len n) / pow2 (bit_len d - 1)"
    unfolding q using bn bd d' by (intro frac_less) (auto simp: n less_imp_le)
  also have "\<dots> = pow2 (?e + 1)" by (simp add: pow2_diff pow2_add)
  finally have up: "q < pow2 (?e + 1)" .
  have "pow2 (bit_len n - 1) / pow2 (bit_len d) \<le> q"
    unfolding q using bn bd d' n by (intro frac_le) (auto simp: less_imp_le)
  then have lo: "pow2 (?e - 1) \<le> q" by (simp add: pow2_diff divide_divide_eq_left mult.commute)
  have "floor_log2 q = (if q < pow2 ?e then ?e - 1 else ?e)"
    by (simp add: floor_log2_def nd adjust_log2_def)
  then show "pow2 (floor_log2 q) \<le> q" "q < pow2 (floor_log2 q + 1)"
    using lo up by (auto split: if_splits)
qed

lemma floor_log2_eqI: "pow2 e \<le> q \<Longrightarrow> q < pow2 (e + 1) \<Longrightarrow> floor_log2 q = e"
proof -
  assume e: "pow2 e \<le> q" "q < pow2 (e + 1)"
  then have "0 < q" using pow2_pos [of e] by linarith
  note floor_log2_bounds [OF this]
  with e have "pow2 e < pow2 (floor_log2 q + 1)" "pow2 (floor_log2 q) < pow2 (e + 1)" by linarith+
  then show ?thesis by (simp add: pow2_less)
qed

lemma floor_log2_mono: "0 < a \<Longrightarrow> a \<le> b \<Longrightarrow> floor_log2 a \<le> floor_log2 b"
proof -
  assume "0 < a" "a \<le> b"
  then have "pow2 (floor_log2 a) < pow2 (floor_log2 b + 1)"
    using floor_log2_bounds(1) [of a] floor_log2_bounds(2) [of b] by linarith
  then show ?thesis by (simp add: pow2_less)
qed

section \<open>Rounding to the nearest integer\<close>

lemma half_even_bounds: "of_int (half_even q) - 1 / 2 \<le> q" "q \<le> of_int (half_even q) + 1 / 2"
proof -
  have "of_int \<lfloor>q\<rfloor> \<le> q" "q < of_int \<lfloor>q\<rfloor> + 1" using floor_correct [of q] by simp_all
  then show "of_int (half_even q) - 1 / 2 \<le> q" "q \<le> of_int (half_even q) + 1 / 2"
    unfolding half_even_def tie_even_def by (simp_all split: if_split, linarith+)
qed

lemma half_even_of_int [simp]: "half_even (of_int n) = n"
  by (simp add: half_even_def tie_even_def)

lemma half_even_mono:
  assumes "p \<le> q"
  shows "half_even p \<le> half_even q"
proof (cases "\<lfloor>p\<rfloor> = \<lfloor>q\<rfloor>")
  case True
  then show ?thesis using assms by (auto simp: half_even_def tie_even_def)
next
  case False
  with assms have "\<lfloor>p\<rfloor> + 1 \<le> \<lfloor>q\<rfloor>" using floor_mono [OF assms] by simp
  moreover have "half_even p \<le> \<lfloor>p\<rfloor> + 1" "\<lfloor>q\<rfloor> \<le> half_even q" by (auto simp: half_even_def tie_even_def)
  ultimately show ?thesis by simp
qed

lemma half_even_minus: "half_even (- q) = - half_even q"
proof (cases "q = of_int \<lfloor>q\<rfloor>")
  case True
  then have "half_even (- q) = half_even (of_int (- \<lfloor>q\<rfloor>))" by simp
  also have "\<dots> = - \<lfloor>q\<rfloor>" by (rule half_even_of_int)
  also have "\<lfloor>q\<rfloor> = half_even q" using True half_even_of_int by metis
  finally show ?thesis .
next
  case False
  then have "of_int \<lfloor>q\<rfloor> < q" using of_int_floor_le [of q] by linarith
  then have "\<lfloor>- q\<rfloor> = - \<lfloor>q\<rfloor> - 1" using floor_correct [of q] by (intro floor_unique) simp_all
  then show ?thesis by (auto simp: half_even_def tie_even_def)
qed

section \<open>Rounding to 53 bits\<close>

lemma abs_pow2 [simp]: "\<bar>pow2 e\<bar> = pow2 e"
  using pow2_pos [of e] by linarith

lemma ulp_exp_minus [simp]: "ulp_exp (- q) = ulp_exp q"
  by (simp add: ulp_exp_def)

lemma round53_0 [simp]: "round53 0 = 0"
  by (simp add: round53_def)

lemma round53_minus [simp]: "round53 (- q) = - round53 q"
  by (simp add: round53_def round_to_def half_even_minus)

lemma ulp_exp_lower: "- 1074 \<le> ulp_exp q"
  by (simp add: ulp_exp_def)

definition rep53 :: "rat \<Rightarrow> bool" where
  "rep53 r \<longleftrightarrow> (\<exists>n E. \<bar>n\<bar> \<le> 2 ^ 53 \<and> - 1074 \<le> E \<and> r = of_int n * pow2 E)"

lemma round53_multiple:
  assumes "q = of_int n * pow2 E" and "ulp_exp q \<le> E"
  shows "round53 q = q"
proof (cases "q = 0")
  case False
  define u where "u = ulp_exp q"
  have "pow2 E / pow2 u = of_int (2 ^ nat (E - u))"
    using assms(2) by (simp add: u_def pow2_nat flip: pow2_diff)
  then have N: "q / pow2 u = of_int (n * 2 ^ nat (E - u))" 
    by (simp add: assms(1) flip: times_divide_eq_right)
  then have "round_to q (pow2 u) = q / pow2 u * pow2 u"
    by (simp only: round_to_def half_even_of_int)
  then show ?thesis using False by (simp add: round53_def u_def)
qed simp

lemma ulp_exp_le:
  assumes "q \<noteq> 0" and "\<bar>q\<bar> < pow2 (E + 53)" and "- 1074 \<le> E"
  shows "ulp_exp q \<le> E"
proof -
  have "pow2 (floor_log2 \<bar>q\<bar>) < pow2 (E + 53)"
    using floor_log2_bounds(1) [of "\<bar>q\<bar>"] assms by linarith
  then show ?thesis using assms(3) by (simp add: pow2_less ulp_exp_def)
qed

lemma round53_exact: "rep53 q \<Longrightarrow> round53 q = q"
proof -
  assume "rep53 q"
  then obtain n E where n: "\<bar>n\<bar> \<le> 2 ^ 53" and E: "- 1074 \<le> E" and q: "q = of_int n * pow2 E"
    by (auto simp: rep53_def)
  have p53: "pow2 53 = 2 ^ 53" by (simp add: pow2_def)
  consider "q = 0" | "q \<noteq> 0" "\<bar>n\<bar> < 2 ^ 53" | "q \<noteq> 0" "\<bar>n\<bar> = 2 ^ 53" using n by fastforce
  then show ?thesis
  proof cases
    case 2
    have "(of_int \<bar>n\<bar> :: rat) < of_int (2 ^ 53)" using 2(2) by (simp only: of_int_less_iff)
    then have "\<bar>q\<bar> < pow2 (E + 53)" by (simp add: q abs_mult pow2_add p53 mult.commute)
    then show ?thesis using 2(1) E by (intro round53_multiple [OF q] ulp_exp_le)
  next
    case 3
    then have "n = sgn n * 2 * 2 ^ 52" by (auto simp: abs_if sgn_if split: if_splits)
    then have q': "q = of_int (sgn n * 2 ^ 52) * pow2 (E + 1)" using q by (simp add: pow2_Suc)
    have "(of_int \<bar>n\<bar> :: rat) = of_int (2 ^ 53)" using 3(2) by (simp only: of_int_eq_iff)
    then have "\<bar>q\<bar> = pow2 (E + 53)" by (simp add: q abs_mult pow2_add p53 mult.commute)
    then have "\<bar>q\<bar> < pow2 (E + 1 + 53)" by (simp add: pow2_less)
    then show ?thesis using 3(1) E by (intro round53_multiple [OF q'] ulp_exp_le) auto
  qed simp
qed

lemma round53_le_pow2:
  assumes "0 < p" and "p \<le> pow2 k" and "ulp_exp p \<le> k"
  shows "round53 p \<le> pow2 k"
proof -
  let ?u = "ulp_exp p"
  have N: "pow2 k / pow2 ?u = of_int (2 ^ nat (k - ?u))"
    using assms(3) by (simp add: pow2_nat flip: pow2_diff)
  have "p / pow2 ?u \<le> pow2 k / pow2 ?u" using assms(2) by (simp add: divide_right_mono less_imp_le)
  then have "half_even (p / pow2 ?u) \<le> 2 ^ nat (k - ?u)"
    using half_even_mono half_even_of_int unfolding N by metis
  then have "(of_int (half_even (p / pow2 ?u)) :: rat) \<le> pow2 k / pow2 ?u"
    unfolding N by (simp only: of_int_le_iff)
  then show ?thesis using assms(1) by (simp add: round53_def round_to_def field_simps)
qed

lemma round53_ge_pow2:
  assumes "pow2 k \<le> q" and "ulp_exp q \<le> k"
  shows "pow2 k \<le> round53 q"
proof -
  let ?u = "ulp_exp q"
  have q: "0 < q" using assms(1) pow2_pos [of k] by linarith
  have N: "pow2 k / pow2 ?u = of_int (2 ^ nat (k - ?u))"
    using assms(2) by (simp add: pow2_nat flip: pow2_diff)
  have "pow2 k / pow2 ?u \<le> q / pow2 ?u" using assms(1) by (simp add: divide_right_mono less_imp_le)
  then have "2 ^ nat (k - ?u) \<le> half_even (q / pow2 ?u)"
    using half_even_mono half_even_of_int unfolding N by metis
  then have "pow2 k / pow2 ?u \<le> (of_int (half_even (q / pow2 ?u)) :: rat)"
    unfolding N by (simp only: of_int_le_iff)
  then show ?thesis using q by (simp add: round53_def round_to_def field_simps)
qed

lemma round53_nonneg: "0 \<le> q \<Longrightarrow> 0 \<le> round53 q"
proof (cases "q = 0")
  case False
  assume "0 \<le> q"
  then have "half_even 0 \<le> half_even (q / pow2 (ulp_exp q))"
    by (intro half_even_mono) (simp add: less_imp_le)
  then have "0 \<le> half_even (q / pow2 (ulp_exp q))" using half_even_of_int [of 0] by simp
  then show ?thesis by (simp add: round53_def round_to_def less_imp_le)
qed simp

lemma round53_mono_pos:
  assumes "0 < p" and "p \<le> q"
  shows "round53 p \<le> round53 q"
proof -
  have fl: "floor_log2 p \<le> floor_log2 q" using assms by (rule floor_log2_mono)
  have q: "0 < q" using assms by linarith
  show ?thesis
  proof (cases "ulp_exp p = ulp_exp q")
    case True
    have "half_even (p / pow2 (ulp_exp q)) \<le> half_even (q / pow2 (ulp_exp q))"
      using assms by (intro half_even_mono) (simp add: divide_right_mono less_imp_le)
    then show ?thesis using assms q True
      by (simp add: round53_def round_to_def mult_right_mono less_imp_le)
  next
    case False
    let ?k = "floor_log2 q"
    have u: "ulp_exp p \<le> ?k" "ulp_exp q \<le> ?k" "floor_log2 p < ?k"
      using False fl assms q by (auto simp: ulp_exp_def max_def split: if_splits)
    then have "p < pow2 ?k"
      using floor_log2_bounds(2) [OF assms(1)] pow2_mono [of "floor_log2 p + 1" ?k] by linarith
    then have "round53 p \<le> pow2 ?k" using u assms by (intro round53_le_pow2) auto
    moreover have "pow2 ?k \<le> round53 q" using u floor_log2_bounds(1) [OF q] by (intro round53_ge_pow2)
    ultimately show ?thesis by linarith
  qed
qed

lemma round53_mono: "p \<le> q \<Longrightarrow> round53 p \<le> round53 q"
proof -
  assume pq: "p \<le> q"
  consider "0 < p" | "p \<le> 0" "0 \<le> q" | "q < 0" by linarith
  then show ?thesis
  proof cases
    case 1
    then show ?thesis using pq by (rule round53_mono_pos)
  next
    case 2
    then show ?thesis using round53_nonneg [of q] round53_nonneg [of "- p"] by simp
  next
    case 3
    then show ?thesis using round53_mono_pos [of "- q" "- p"] pq by simp
  qed
qed

lemma rep53_round53: "rep53 (round53 q)"
proof (cases "q = 0")
  case True
  then show ?thesis unfolding rep53_def by (intro exI [of _ 0]) auto
next
  case False
  let ?u = "ulp_exp q"
  have p53: "pow2 53 = of_int (2 ^ 53)" by (simp add: pow2_def)
  have "floor_log2 \<bar>q\<bar> + 1 \<le> 53 + ?u" by (simp add: ulp_exp_def)
  then have "\<bar>q\<bar> < pow2 (53 + ?u)"
    using floor_log2_bounds(2) [of "\<bar>q\<bar>"] False pow2_mono [of "floor_log2 \<bar>q\<bar> + 1" "53 + ?u"] by simp
  then have b: "\<bar>q / pow2 ?u\<bar> \<le> of_int (2 ^ 53)"
    by (simp add: pow2_add p53 abs_divide pos_divide_le_eq)
  have "q / pow2 ?u \<le> of_int (2 ^ 53)" and "of_int (- (2 ^ 53)) \<le> q / pow2 ?u"
    using b unfolding abs_le_iff of_int_minus by linarith+
  then have "half_even (q / pow2 ?u) \<le> half_even (of_int (2 ^ 53))"
    and "half_even (of_int (- (2 ^ 53))) \<le> half_even (q / pow2 ?u)"
    by (simp_all only: half_even_mono)
  then have "\<bar>half_even (q / pow2 ?u)\<bar> \<le> 2 ^ 53"
    unfolding half_even_of_int by (simp add: abs_le_iff)
  then show ?thesis using False ulp_exp_lower [of q] unfolding rep53_def
    by (intro exI [of _ "half_even (q / pow2 ?u)"] exI [of _ ?u]) (auto simp: round53_def round_to_def)
qed

section \<open>Finite results\<close>

lemma rep53_pow2: "- 1074 \<le> k \<Longrightarrow> rep53 (pow2 k)"
  unfolding rep53_def by (intro exI [of _ 1] exI [of _ k]) simp

lemma rep53_int: "\<bar>n\<bar> \<le> 2 ^ 53 \<Longrightarrow> rep53 (of_int n)"
  unfolding rep53_def by (intro exI [of _ n] exI [of _ 0]) simp

lemma rep53_minus: "rep53 q \<Longrightarrow> rep53 (- q)"
proof -
  assume "rep53 q"
  then obtain n E where "\<bar>n\<bar> \<le> 2 ^ 53" "- 1074 \<le> E" "q = of_int n * pow2 E" by (auto simp: rep53_def)
  then show ?thesis unfolding rep53_def by (intro exI [of _ "- n"] exI [of _ E]) simp
qed

lemma clamp_small: "\<bar>r\<bar> < pow2 1024 \<Longrightarrow> clamp r = Fin r"
proof (cases "r = 0")
  case False
  assume "\<bar>r\<bar> < pow2 1024"
  then have "pow2 (floor_log2 \<bar>r\<bar>) < pow2 1024" using floor_log2_bounds(1) [of "\<bar>r\<bar>"] False by linarith
  then show ?thesis by (simp add: clamp_def pow2_less)
qed (simp add: clamp_def)

lemma round53_bound: "\<bar>q\<bar> \<le> r \<Longrightarrow> rep53 r \<Longrightarrow> \<bar>round53 q\<bar> \<le> r"
  using round53_mono [of q r] round53_mono [of "- r" q] round53_exact [of r] by (simp add: abs_le_iff)

lemma round53_le: "q \<le> r \<Longrightarrow> rep53 r \<Longrightarrow> round53 q \<le> r"
  using round53_mono [of q r] round53_exact [of r] by simp

lemma round53_ge: "r \<le> q \<Longrightarrow> rep53 r \<Longrightarrow> r \<le> round53 q"
  using round53_mono [of r q] round53_exact [of r] by simp

lemma round64_bounded: "\<bar>q\<bar> \<le> pow2 1023 \<Longrightarrow> round64 q = Fin (round53 q)"
proof -
  assume "\<bar>q\<bar> \<le> pow2 1023"
  then have "\<bar>round53 q\<bar> \<le> pow2 1023" by (intro round53_bound rep53_pow2) auto
  also have "\<dots> < pow2 1024" by (simp add: pow2_less)
  finally show ?thesis by (simp add: round64_def clamp_small)
qed

lemma pow2_ge: "0 \<le> k \<Longrightarrow> k \<le> 1023 \<Longrightarrow> 2 ^ nat k \<le> pow2 1023"
  using pow2_mono [of k 1023] by (simp add: pow2_nat)

lemma round64_small: "\<bar>q\<bar> \<le> 2 ^ 64 \<Longrightarrow> round64 q = Fin (round53 q)"
proof (rule round64_bounded)
  assume "\<bar>q\<bar> \<le> 2 ^ 64"
  moreover have "(2 ^ nat 64 :: rat) \<le> pow2 1023" by (rule pow2_ge) auto
  ultimately show "\<bar>q\<bar> \<le> pow2 1023" by simp
qed

lemma float_of_int_int64: "is_int64 n \<Longrightarrow> float_of_int n = Fin (round53 (of_int n))"
proof -
  assume "is_int64 n"
  then have "\<bar>n\<bar> \<le> 2 ^ 64" by (simp add: is_int64_def abs_le_iff)
  then have "(of_int \<bar>n\<bar> :: rat) \<le> of_int (2 ^ 64)" by (simp only: of_int_le_iff)
  then show ?thesis by (simp add: float_of_int_def round64_small)
qed

lemma round64_of_int: "\<bar>n\<bar> \<le> 2 ^ 53 \<Longrightarrow> round64 (of_int n) = Fin (of_int n)"
proof -
  assume n: "\<bar>n\<bar> \<le> 2 ^ 53"
  then have "(of_int \<bar>n\<bar> :: rat) \<le> of_int (2 ^ 53)" by (simp only: of_int_le_iff)
  then have "\<bar>of_int n :: rat\<bar> \<le> 2 ^ 64" by simp
  then show ?thesis by (simp add: round64_small round53_exact [OF rep53_int [OF n]])
qed

lemma float_of_int_exact: "\<bar>n\<bar> \<le> 2 ^ 53 \<Longrightarrow> float_of_int n = Fin (of_int n)"
  by (simp add: float_of_int_def round64_of_int)

lemma round64_cases:
  obtains (fin) "round64 q = Fin (round53 q)" "rep53 (round53 q)"
  | (pos) "round64 q = PosInf" "0 < q"
  | (neg) "round64 q = NegInf" "q < 0"
proof (cases "round53 q \<noteq> 0 \<and> 1024 \<le> floor_log2 \<bar>round53 q\<bar>")
  case True
  then have "q < 0 \<longleftrightarrow> round53 q < 0" and "0 < q \<longleftrightarrow> 0 < round53 q"
    using round53_nonneg [of q] round53_nonneg [of "- q"] by (cases q "0 :: rat" rule: linorder_cases; simp)+
  then show ?thesis using True pos neg by (auto simp: round64_def clamp_def finf_def split: if_splits)
next
  case False
  then have "round64 q = Fin (round53 q)" unfolding round64_def clamp_def by (simp only: if_False)
  then show ?thesis using fin rep53_round53 by blast
qed

lemma round64_not_NaN [simp]: "round64 q \<noteq> NaN"
  by (cases q rule: round64_cases) auto

lemma float_of_int_pos:
  assumes "1 \<le> n" and "is_int64 n"
  shows "\<exists>b. float_of_int n = Fin b \<and> rep53 b \<and> 1 \<le> b \<and> b \<le> 2 ^ 63"
proof -
  have "(of_int n :: rat) \<le> of_int (2 ^ 63)" using assms by (simp only: of_int_le_iff) (simp add: is_int64_def)
  then have "round53 (of_int n) \<le> pow2 63" by (intro round53_le rep53_pow2) (auto simp: pow2_def)
  moreover have "1 \<le> round53 (of_int n)" using assms(1) rep53_int [of 1] by (intro round53_ge) auto
  ultimately show ?thesis using float_of_int_int64 [OF assms(2)] rep53_round53 by (auto simp: pow2_def)
qed

end
