(* ===== verification/TTLMap.thy ===== *)
theory TTLMap
  imports Prelude
begin

text \<open>
  The contract of a bounded map whose entries expire: the in-memory stores of \<open>backendbackoff\<close> and
  of \<open>tokenbucket\<close> each have their own copy of it. \<open>load\<close> finds the live entry of a key or stores
  a fresh one, after dropping what has expired and, at the cap, one arbitrary key.
\<close>

lemma delete_nth_less: "wf_map m \<Longrightarrow> go_len m \<noteq> 0 \<Longrightarrow> go_len (go_delete (fst (m ! (c mod go_len m))) m) < go_len m"
proof -
  assume "wf_map m" "go_len m \<noteq> 0"
  then have "m ! (c mod go_len m) \<in> set m" by (intro nth_mem) simp
  then have "go_get m (fst (m ! (c mod go_len m))) \<noteq> None"
    by (metis domI domIff image_eqI map_of_eq_None_iff)
  with \<open>wf_map m\<close> \<open>go_len m \<noteq> 0\<close> show ?thesis by (simp add: go_len_delete)
qed

locale ttl_map =
  fixes expires :: "'e \<Rightarrow> instant"
    and dropExpired :: "instant \<Rightarrow> (string, 'e) gomap \<Rightarrow> (string, 'e) gomap"
    and dropOne :: "nat \<Rightarrow> instant \<Rightarrow> (string, 'e) gomap \<Rightarrow> (string, 'e) gomap"
    and cap :: nat
    and fresh :: "instant \<Rightarrow> 'e"
    and load :: "nat \<Rightarrow> string \<Rightarrow> instant \<Rightarrow> (string, 'e) gomap \<Rightarrow> 'e \<times> (string, 'e) gomap"
  assumes cap_pos: "0 < cap"
    and wf_dropExpired: "wf_map m \<Longrightarrow> wf_map (dropExpired now m)"
    and get_dropExpired: "wf_map m \<Longrightarrow> go_get (dropExpired now m) k =
          (case go_get m k of None \<Rightarrow> None | Some e \<Rightarrow> if now < expires e then Some e else None)"
    and len_dropExpired: "go_len (dropExpired now m) \<le> go_len m"
    and wf_dropOne: "wf_map m \<Longrightarrow> wf_map (dropOne c now m)"
    and get_dropOne: "wf_map m \<Longrightarrow> go_get (dropOne c now m) k = Some e \<Longrightarrow> go_get m k = Some e"
    and len_dropOne: "wf_map m \<Longrightarrow> go_len m \<le> cap \<Longrightarrow> go_len (dropOne c now m) < cap"
    and load_live: "go_get m k = Some e \<Longrightarrow> now < expires e \<Longrightarrow> load c k now m = (e, m)"
    and load_absent: "go_get m k = None \<Longrightarrow> load c k now m =
          (fresh now, go_set k (fresh now)
             (if cap \<le> go_len (dropExpired now m) then dropOne c now (dropExpired now m) else dropExpired now m))"
    and load_expired: "go_get m k = Some e \<Longrightarrow> expires e \<le> now \<Longrightarrow>
          load c k now m = load c k now (go_delete k m)"
begin

definition room :: "nat \<Rightarrow> instant \<Rightarrow> (string, 'e) gomap \<Rightarrow> (string, 'e) gomap" where
  "room c now m =
     (if cap \<le> go_len (dropExpired now m) then dropOne c now (dropExpired now m) else dropExpired now m)"

lemma wf_room: "wf_map m \<Longrightarrow> wf_map (room c now m)"
  by (simp add: room_def wf_dropExpired wf_dropOne)

lemma room_len: "wf_map m \<Longrightarrow> go_len m \<le> cap \<Longrightarrow> go_len (room c now m) < cap"
  using len_dropOne [OF wf_dropExpired, of m now c now] len_dropExpired [of now m]
  by (auto simp: room_def not_le)

lemma room_get: "wf_map m \<Longrightarrow> go_get (room c now m) k = Some e \<Longrightarrow> go_get m k = Some e \<and> now < expires e"
  using get_dropOne [OF wf_dropExpired] get_dropExpired
  by (fastforce simp: room_def split: if_splits option.splits)

lemma room_keeps:
  "wf_map m \<Longrightarrow> go_len m < cap \<Longrightarrow> go_get m k = Some e \<Longrightarrow> now < expires e \<Longrightarrow>
   go_get (room c now m) k = Some e"
  using len_dropExpired [of now m] by (simp add: room_def get_dropExpired)

text \<open>A load is one of two: the live entry, nothing changed; or a fresh one, room made before.\<close>

lemma load_cases:
  assumes "wf_map m"
  obtains (live) e where "go_get m k = Some e" "now < expires e" "load c k now m = (e, m)"
  | (fresh) m1 where "load c k now m = (fresh now, go_set k (fresh now) (room c now m1))"
      "wf_map m1" "go_len m1 \<le> go_len m" "go_get m1 k = None"
      "\<And>k'. k' \<noteq> k \<Longrightarrow> go_get m1 k' = go_get m k'"
      "go_get m k = None \<or> (\<exists>e. go_get m k = Some e \<and> expires e \<le> now)"
proof (cases "go_get m k")
  case None
  show ?thesis
    by (rule fresh [of m]) (use None assms load_absent [OF None] in \<open>simp_all add: room_def\<close>)
next
  case (Some e)
  show ?thesis
  proof (cases "now < expires e")
    case True
    with Some live show ?thesis by (blast intro: load_live)
  next
    case False
    let ?m = "go_delete k m"
    have none: "go_get ?m k = None" by (simp add: delete_conv)
    have "load c k now m = load c k now ?m" using Some False by (intro load_expired) auto
    also have "\<dots> = (fresh now, go_set k (fresh now) (room c now ?m))"
      by (simp add: load_absent [OF none] room_def)
    finally show ?thesis
      by (rule fresh) (use Some False assms none in \<open>auto simp: go_len_delete delete_conv\<close>)
  qed
qed

lemma load_wf: "wf_map m \<Longrightarrow> wf_map (snd (load c k now m))"
  by (rule load_cases [of m k now c]) (auto simp: wf_room)

lemma load_len:
  assumes "wf_map m" and "go_len m \<le> cap"
  shows "go_len (snd (load c k now m)) \<le> cap"
  using assms(1)
proof (cases rule: load_cases [of m k now c])
  case (fresh m1)
  then have "go_len (room c now m1) < cap" using assms(2) by (intro room_len) auto
  then show ?thesis using fresh(1) by (simp add: go_len_set)
qed (use assms in auto)

lemma load_get: "wf_map m \<Longrightarrow> go_get (snd (load c k now m)) k = Some (fst (load c k now m))"
  by (cases rule: load_cases [of m k now c]) (auto simp: update_conv)

lemma load_fst:
  "wf_map m \<Longrightarrow> fst (load c k now m) =
     (case go_get m k of Some e \<Rightarrow> if now < expires e then e else fresh now | None \<Rightarrow> fresh now)"
  by (cases rule: load_cases [of m k now c]) auto

lemma load_other:
  "wf_map m \<Longrightarrow> k' \<noteq> k \<Longrightarrow> go_get (snd (load c k now m)) k' = Some e \<Longrightarrow> go_get m k' = Some e"
  by (cases rule: load_cases [of m k now c]) (auto simp: update_conv dest: room_get)

lemma load_keeps:
  assumes "wf_map m" and "go_len m < cap" and "k' \<noteq> k" and "go_get m k' = Some e" and "now < expires e"
  shows "go_get (snd (load c k now m)) k' = Some e"
  using assms(1)
proof (cases rule: load_cases [of m k now c])
  case (fresh m1)
  then have "go_get (room c now m1) k' = Some e" using assms by (intro room_keeps) auto
  then show ?thesis using fresh(1) assms(3) by (simp add: update_conv)
qed (use assms in auto)

end

end
