(* ===== verification/Backoff.thy ===== *)
theory Backoff
  imports TTLMap Float64
begin

text \<open>
  Package \<open>backendbackoff\<close>: the per-key admission gate of \<open>gate.go\<close> and \<open>allow.go\<close>, with its
  configuration, its credit bucket in \<open>float64\<close>, its cooldown with jitter and its bounded map of
  keys. A method runs under the gate's mutex, so it is one step: the clock it reads (\<open>now\<close>), the
  random sample it draws (\<open>u\<close>) and the key the runtime's map iteration yields first (\<open>c\<close>) are
  arguments. The contract of the map is interpreted for the gate's own functions.
\<close>

section \<open>Configuration\<close>

datatype gate_error =
  errRatio | errTrip | errBase | errMax | errJitter | errGateTTL | errClosed | errUnknown

record GateConfig =
  FailureRatio :: float64
  TripFailures :: int
  BaseCooldown :: duration
  MaxCooldown :: duration
  Jitter :: float64
  TTL :: duration

definition defaultFailureRatio :: float64 where
  "defaultFailureRatio = round64 (3 / 10)"

definition defaultTripFailures :: int where
  "defaultTripFailures = 5"

definition defaultBaseCooldown :: duration where
  "defaultBaseCooldown = Second"

definition defaultMaxCooldown :: duration where
  "defaultMaxCooldown = 10 * Second"

definition defaultJitter :: float64 where
  "defaultJitter = round64 (1 / 10)"

definition defaultTTL :: duration where
  "defaultTTL = 60 * Second"

definition maxMemorySources :: nat where
  "maxMemorySources = 65536"

definition allZero :: "GateConfig \<Rightarrow> bool" where
  "allZero cfg \<longleftrightarrow> FailureRatio cfg = Fin 0 \<and> TripFailures cfg = 0 \<and> BaseCooldown cfg = 0
     \<and> MaxCooldown cfg = 0 \<and> Jitter cfg = Fin 0 \<and> TTL cfg = 0"

definition fill_defaults :: "GateConfig \<Rightarrow> GateConfig" where
  "fill_defaults cfg = cfg
     \<lparr>FailureRatio := (if FailureRatio cfg = Fin 0 then defaultFailureRatio else FailureRatio cfg),
      TripFailures := (if TripFailures cfg = 0 then defaultTripFailures else TripFailures cfg),
      BaseCooldown := (if BaseCooldown cfg = 0 then defaultBaseCooldown else BaseCooldown cfg),
      MaxCooldown := (if MaxCooldown cfg = 0 then defaultMaxCooldown else MaxCooldown cfg),
      TTL := (if TTL cfg = 0 then defaultTTL else TTL cfg),
      Jitter := (if allZero cfg then defaultJitter else Jitter cfg)\<rparr>"

definition resolveConfig :: "GateConfig \<Rightarrow> gate_error + GateConfig" where
  "resolveConfig cfg0 =
     (let cfg = fill_defaults cfg0
      in if fle (FailureRatio cfg) (Fin 0) \<or> fle (Fin 1) (FailureRatio cfg) then Inl errRatio
         else if TripFailures cfg < 1 then Inl errTrip
         else if BaseCooldown cfg \<le> 0 then Inl errBase
         else if MaxCooldown cfg < BaseCooldown cfg then Inl errMax
         else if fless (Jitter cfg) (Fin 0) \<or> fle (Fin 1) (Jitter cfg) then Inl errJitter
         else if TTL cfg < Second then Inl errGateTTL
         else Inr cfg)"

section \<open>State\<close>

text \<open>
  \<open>gateState\<close> is an integer type with three named values; the others are kept so that the
  \<open>default\<close> branches of the switches are branches of the model.
\<close>

datatype gateState = stateClosed | stateOpen | stateHalfOpen | stateOther int

record memEntry =
  credit :: float64
  backoff_n :: int
  gate_state :: gateState
  openUntil :: instant
  closedSince :: instant
  probeUntil :: instant
  probeOutstanding :: bool
  gateExpireAt :: instant

type_synonym gate_keys = "(string, memEntry) gomap"

record Gate =
  gate_cfg :: GateConfig
  budget :: float64
  gate_closed :: bool
  gate_keys :: gate_keys

definition Gate_New :: "GateConfig \<Rightarrow> gate_error + Gate" where
  "Gate_New cfg =
     (case resolveConfig cfg of
        Inl e \<Rightarrow> Inl e
      | Inr resolved \<Rightarrow> Inr \<lparr>gate_cfg = resolved, budget = float_of_int (TripFailures resolved),
                           gate_closed = False, gate_keys = []\<rparr>)"

definition Gate_Close :: "Gate \<Rightarrow> Gate" where
  "Gate_Close g = g\<lparr>gate_closed := True, gate_keys := []\<rparr>"

section \<open>Credit and cooldown\<close>

definition successCredit :: "Gate \<Rightarrow> float64" where
  "successCredit g = fdiv (FailureRatio (gate_cfg g)) (fsub (Fin 1) (FailureRatio (gate_cfg g)))"

text \<open>The doubling loop: \<open>k\<close> rounds are left.\<close>

fun cooldown_loop :: "duration \<Rightarrow> nat \<Rightarrow> duration \<Rightarrow> duration" where
  "cooldown_loop mx 0 wait = wait"
| "cooldown_loop mx (Suc k) wait =
     (if mx sdiv 2 < wait then mx else cooldown_loop mx k (wrap64 (wait * 2)))"

definition jittered :: "int \<Rightarrow> float64 \<Rightarrow> float64 \<Rightarrow> duration \<Rightarrow> duration" where
  "jittered oor jit u wait =
     int_of_float oor
       (fmul (float_of_int wait) (fadd (Fin 1) (fmul jit (fsub (fmul (Fin 2) u) (Fin 1)))))"

definition cooldownDuration :: "int \<Rightarrow> float64 \<Rightarrow> GateConfig \<Rightarrow> int \<Rightarrow> duration" where
  "cooldownDuration oor u cfg n =
     (let looped = cooldown_loop (MaxCooldown cfg) (nat n) (BaseCooldown cfg);
          wait = (if MaxCooldown cfg < looped then MaxCooldown cfg else looped)
      in if fle (Jitter cfg) (Fin 0) then wait
         else let j = jittered oor (Jitter cfg) u wait;
                  j' = (if j < 0 then 0 else j)
              in if MaxCooldown cfg < j' then MaxCooldown cfg else j')"

section \<open>The bounded map\<close>

definition Gate_dropExpired :: "instant \<Rightarrow> gate_keys \<Rightarrow> gate_keys" where
  "Gate_dropExpired now m = filter (\<lambda>(k, e). now < gateExpireAt e) m"

definition Gate_dropOne :: "nat \<Rightarrow> instant \<Rightarrow> gate_keys \<Rightarrow> gate_keys" where
  "Gate_dropOne c now m0 =
     (let m = Gate_dropExpired now m0
      in if go_len m < maxMemorySources then m
         else go_delete (fst (m ! (c mod go_len m))) m)"

definition new_entry :: "float64 \<Rightarrow> instant \<Rightarrow> memEntry" where
  "new_entry b now = \<lparr>credit = b, backoff_n = 0, gate_state = stateClosed, openUntil = zero_time,
     closedSince = now, probeUntil = zero_time, probeOutstanding = False, gateExpireAt = zero_time\<rparr>"

definition Gate_loadEntry :: "float64 \<Rightarrow> nat \<Rightarrow> string \<Rightarrow> instant \<Rightarrow> gate_keys \<Rightarrow> memEntry \<times> gate_keys" where
  "Gate_loadEntry b c key now m0 =
     (let (entry, m) =
            (case go_get m0 key of
               None \<Rightarrow> (None, m0)
             | Some e \<Rightarrow> if \<not> now < gateExpireAt e then (None, go_delete key m0) else (Some e, m0))
      in case entry of
           Some e \<Rightarrow> (e, m)
         | None \<Rightarrow>
             let m1 = Gate_dropExpired now m;
                 m2 = (if go_len m1 \<ge> maxMemorySources then Gate_dropOne c now m1 else m1);
                 e = new_entry b now
             in (e, go_set key e m2))"

section \<open>Allow and Report\<close>

definition resetNIfClosedLongEnough :: "GateConfig \<Rightarrow> instant \<Rightarrow> memEntry \<Rightarrow> memEntry" where
  "resetNIfClosedLongEnough cfg now e =
     (if closedSince e = zero_time then e
      else if now < closedSince e + MaxCooldown cfg then e
      else e\<lparr>backoff_n := 0\<rparr>)"

type_synonym allow_result = "bool \<times> duration \<times> gate_error option"

definition entry_allow :: "GateConfig \<Rightarrow> instant \<Rightarrow> memEntry \<Rightarrow> memEntry \<times> allow_result" where
  "entry_allow cfg now e0 =
     (let e = e0\<lparr>gateExpireAt := now + TTL cfg\<rparr>;
          probe = e\<lparr>gate_state := stateHalfOpen, probeOutstanding := True,
                    probeUntil := now + BaseCooldown cfg\<rparr>
      in case gate_state e of
           stateClosed \<Rightarrow> (resetNIfClosedLongEnough cfg now e, True, 0, None)
         | stateOpen \<Rightarrow>
             if now < openUntil e then (e, False, time_sub (openUntil e) now, None)
             else (probe, True, 0, None)
         | stateHalfOpen \<Rightarrow>
             if probeOutstanding e \<and> now < probeUntil e then (e, False, time_sub (probeUntil e) now, None)
             else (probe, True, 0, None)
         | stateOther _ \<Rightarrow> (e, False, 0, Some errUnknown))"

definition Gate_Allow :: "nat \<Rightarrow> instant \<Rightarrow> string \<Rightarrow> Gate \<Rightarrow> Gate \<times> allow_result" where
  "Gate_Allow c now key g =
     (if gate_closed g then (g, False, 0, Some errClosed)
      else case Gate_loadEntry (budget g) c key now (gate_keys g) of (entry, m) \<Rightarrow>
        case entry_allow (gate_cfg g) now entry of (entry', res) \<Rightarrow>
          (g\<lparr>gate_keys := go_set key entry' m\<rparr>, res))"

definition entry_report :: "int \<Rightarrow> float64 \<Rightarrow> Gate \<Rightarrow> instant \<Rightarrow> bool \<Rightarrow> memEntry \<Rightarrow> memEntry \<times> gate_error option" where
  "entry_report oor u g now success e0 =
     (let cfg = gate_cfg g;
          e = e0\<lparr>gateExpireAt := now + TTL cfg\<rparr>
      in case gate_state e of
           stateOpen \<Rightarrow> (e, None)
         | stateHalfOpen \<Rightarrow>
             if \<not> probeOutstanding e then (e, None)
             else
               let e1 = e\<lparr>probeOutstanding := False\<rparr>
               in if success then
                    (e1\<lparr>credit := budget g, gate_state := stateClosed, closedSince := now\<rparr>, None)
                  else
                    let n' = wrap64 (backoff_n e1 + 1)
                    in (e1\<lparr>backoff_n := n', gate_state := stateOpen,
                           openUntil := now + cooldownDuration oor u cfg n'\<rparr>, None)
         | stateClosed \<Rightarrow>
             if success then
               let c = fadd (credit e) (successCredit g)
               in (e\<lparr>credit := (if fless (budget g) c then budget g else c)\<rparr>, None)
             else
               let e1 = resetNIfClosedLongEnough cfg now e;
                   e2 = e1\<lparr>credit := fsub (credit e1) (Fin 1)\<rparr>
               in if fle (credit e2) (Fin 0) then
                    (e2\<lparr>gate_state := stateOpen,
                        openUntil := now + cooldownDuration oor u cfg (backoff_n e2),
                        closedSince := zero_time\<rparr>, None)
                  else (e2, None)
         | stateOther _ \<Rightarrow> (e, Some errUnknown))"

definition Gate_Report :: "int \<Rightarrow> float64 \<Rightarrow> instant \<Rightarrow> string \<Rightarrow> bool \<Rightarrow> Gate \<Rightarrow> Gate \<times> gate_error option" where
  "Gate_Report oor u now key success g =
     (if gate_closed g then (g, Some errClosed)
      else case go_get (gate_keys g) key of
        None \<Rightarrow> (g, None)
      | Some entry \<Rightarrow>
          (case entry_report oor u g now success entry of (entry', err) \<Rightarrow>
             (g\<lparr>gate_keys := go_set key entry' (gate_keys g)\<rparr>, err)))"

section \<open>The map keeps its contract\<close>

interpretation gate_map: ttl_map gateExpireAt Gate_dropExpired Gate_dropOne maxMemorySources
    "new_entry b" "Gate_loadEntry b" for b
proof
  show "0 < maxMemorySources" by (simp add: maxMemorySources_def)
next
  fix m :: gate_keys and now
  show "wf_map m \<Longrightarrow> wf_map (Gate_dropExpired now m)" by (simp add: Gate_dropExpired_def)
  show "go_len (Gate_dropExpired now m) \<le> go_len m" by (simp add: Gate_dropExpired_def)
  fix k
  show "wf_map m \<Longrightarrow> go_get (Gate_dropExpired now m) k =
      (case go_get m k of None \<Rightarrow> None | Some e \<Rightarrow> if now < gateExpireAt e then Some e else None)"
    by (simp add: Gate_dropExpired_def go_get_filter)
next
  fix m :: gate_keys and c now
  assume wf: "wf_map m"
  then show "wf_map (Gate_dropOne c now m)" by (simp add: Gate_dropOne_def Gate_dropExpired_def Let_def)
  fix k e
  show "go_get (Gate_dropOne c now m) k = Some e \<Longrightarrow> go_get m k = Some e"
    using wf by (auto simp: Gate_dropOne_def Gate_dropExpired_def Let_def go_get_filter delete_conv
        split: if_splits option.splits)
next
  fix m :: gate_keys and c now
  assume m: "wf_map m" "go_len m \<le> maxMemorySources"
  let ?m = "Gate_dropExpired now m"
  have le: "go_len ?m \<le> maxMemorySources" and wf: "wf_map ?m"
    using m le_trans [OF length_filter_le m(2)] by (simp_all add: Gate_dropExpired_def)
  show "go_len (Gate_dropOne c now m) < maxMemorySources"
  proof (cases "go_len ?m < maxMemorySources")
    case False
    with le have "go_len ?m = maxMemorySources" by simp
    then show ?thesis using delete_nth_less [OF wf, of c]
      by (simp add: Gate_dropOne_def Let_def maxMemorySources_def)
  qed (simp add: Gate_dropOne_def Let_def)
next
  fix m :: gate_keys and k c now e
  show "go_get m k = Some e \<Longrightarrow> now < gateExpireAt e \<Longrightarrow> Gate_loadEntry b c k now m = (e, m)"
    by (simp add: Gate_loadEntry_def)
  show "go_get m k = None \<Longrightarrow> Gate_loadEntry b c k now m =
      (new_entry b now, go_set k (new_entry b now)
         (if maxMemorySources \<le> go_len (Gate_dropExpired now m)
          then Gate_dropOne c now (Gate_dropExpired now m) else Gate_dropExpired now m))"
    by (simp add: Gate_loadEntry_def Let_def)
  show "go_get m k = Some e \<Longrightarrow> gateExpireAt e \<le> now \<Longrightarrow>
      Gate_loadEntry b c k now m = Gate_loadEntry b c k now (go_delete k m)"
    by (simp add: Gate_loadEntry_def Let_def delete_conv)
qed

section \<open>Cooldowns\<close>

lemma cooldown_loop_eq:
  "0 < w \<Longrightarrow> w \<le> mx \<Longrightarrow> is_int64 mx \<Longrightarrow> cooldown_loop mx k w = min (w * 2 ^ k) mx"
proof (induction k arbitrary: w)
  case (Suc k)
  have half: "mx sdiv 2 = mx div 2" using Suc.prems by (simp add: sdiv_nonneg)
  show ?case
  proof (cases "mx div 2 < w")
    case True
    then have "mx < 2 * w" by linarith
    also have "2 * w \<le> w * 2 ^ Suc k" using Suc.prems(1) by simp
    finally show ?thesis using True half by simp
  next
    case False
    then have le: "w * 2 \<le> mx" by linarith
    then have "is_int64 (w * 2)" using Suc.prems is_int64_mono [of 0 mx "w * 2"] by simp
    then have "cooldown_loop mx (Suc k) w = cooldown_loop mx k (w * 2)" using False half by simp
    also have "\<dots> = min (w * 2 * 2 ^ k) mx" using Suc.prems le by (intro Suc.IH) auto
    finally show ?thesis by (simp add: mult.assoc)
  qed
qed simp

definition valid_config :: "GateConfig \<Rightarrow> bool" where
  "valid_config cfg \<longleftrightarrow>
     (\<exists>r. FailureRatio cfg = Fin r \<and> 0 < r \<and> r < 1) \<and> 1 \<le> TripFailures cfg \<and> is_int64 (TripFailures cfg)
     \<and> 0 < BaseCooldown cfg \<and> BaseCooldown cfg \<le> MaxCooldown cfg \<and> is_int64 (MaxCooldown cfg)
     \<and> (\<exists>j. Jitter cfg = Fin j \<and> 0 \<le> j \<and> j < 1) \<and> Second \<le> TTL cfg"

lemma cooldown_bounds:
  "valid_config cfg \<Longrightarrow> 0 \<le> cooldownDuration oor u cfg n \<and> cooldownDuration oor u cfg n \<le> MaxCooldown cfg"
  by (auto simp: cooldownDuration_def Let_def valid_config_def cooldown_loop_eq)

lemma round53_unit: "0 \<le> q \<Longrightarrow> q \<le> of_int n \<Longrightarrow> \<bar>n\<bar> \<le> 2 ^ 53 \<Longrightarrow> 0 \<le> round53 q \<and> round53 q \<le> of_int n"
  using round53_nonneg [of q] round53_le [of q "of_int n", OF _ rep53_int] by simp

lemma jitter_factor:
  assumes "0 \<le> j" "j < 1" "0 \<le> u" "u < 1"
  shows "\<exists>f. fadd (Fin 1) (fmul (Fin j) (fsub (fmul (Fin 2) (Fin u)) (Fin 1))) = Fin f \<and> 0 \<le> f \<and> f \<le> 2"
proof -
  have fin: "round64 q = Fin (round53 q)" if "\<bar>q\<bar> \<le> 2" for q using that by (intro round64_small) simp
  have one: "\<bar>round53 q\<bar> \<le> 1" if "\<bar>q\<bar> \<le> 1" for q
    using round53_bound [OF that] rep53_int [of 1] by simp
  have two: "0 \<le> round53 (2 * u)" "round53 (2 * u) \<le> 2" using assms round53_unit [of "2 * u" 2] by auto
  define d where "d = round53 (round53 (2 * u) - 1)"
  have d: "\<bar>d\<bar> \<le> 1" unfolding d_def by (rule one) (use two in \<open>simp add: abs_le_iff\<close>)
  define p where "p = round53 (j * d)"
  have "\<bar>j * d\<bar> \<le> 1" using assms d by (simp add: abs_mult mult_le_one)
  then have p: "\<bar>p\<bar> \<le> 1" by (simp add: p_def one)
  have "fadd (Fin 1) (fmul (Fin j) (fsub (fmul (Fin 2) (Fin u)) (Fin 1))) = Fin (round53 (1 + p))"
    using assms two p \<open>\<bar>j * d\<bar> \<le> 1\<close> by (simp add: fsub_def fin d_def p_def abs_le_iff)
  moreover have "0 \<le> round53 (1 + p) \<and> round53 (1 + p) \<le> 2"
    using p round53_unit [of "1 + p" 2] by (auto simp: abs_le_iff)
  ultimately show ?thesis by blast
qed

lemma jittered_in_range:
  assumes "0 \<le> j" "j < 1" "0 \<le> u" "u < 1" and "0 \<le> wait" "wait \<le> 2 ^ 61"
  shows "0 \<le> jittered oor (Fin j) (Fin u) wait" and "jittered oor (Fin j) (Fin u) wait = jittered oor' (Fin j) (Fin u) wait"
proof -
  obtain f where f: "fadd (Fin 1) (fmul (Fin j) (fsub (fmul (Fin 2) (Fin u)) (Fin 1))) = Fin f" "0 \<le> f" "f \<le> 2"
    using jitter_factor [OF assms(1-4)] by blast
  define w where "w = round53 (of_int wait)"
  have w: "0 \<le> w" "w \<le> 2 ^ 61"
  proof -
    have "(of_int wait :: rat) \<le> of_int (2 ^ 61)" using assms(6) by (simp only: of_int_le_iff)
    then have "of_int wait \<le> pow2 61" by (simp add: pow2_def)
    then have "w \<le> pow2 61" unfolding w_def by (intro round53_le rep53_pow2) auto
    then show "w \<le> 2 ^ 61" by (simp add: pow2_def)
    show "0 \<le> w" unfolding w_def using assms(5) by (intro round53_nonneg) simp
  qed
  have fw: "float_of_int wait = Fin w"
    using float_of_int_int64 [of wait] assms(5,6) by (simp add: is_int64_def w_def)
  have wf: "0 \<le> w * f" "w * f \<le> 2 ^ 62"
    using mult_mono [of w "2 ^ 61" f 2] w f by auto
  then have "round53 (w * f) \<le> pow2 62" by (intro round53_le rep53_pow2) (auto simp: pow2_def)
  then have r: "0 \<le> round53 (w * f)" "round53 (w * f) \<le> 2 ^ 62"
    using round53_nonneg [OF wf(1)] by (auto simp: pow2_def)
  have "fmul (Fin w) (Fin f) = Fin (round53 (w * f))" using wf by (simp add: round64_small abs_le_iff)
  then have eq: "jittered oor (Fin j) (Fin u) wait = int_of_float oor (Fin (round53 (w * f)))" for oor
    by (simp only: jittered_def f(1) fw)
  have "\<lfloor>round53 (w * f)\<rfloor> \<le> 2 ^ 62" "0 \<le> \<lfloor>round53 (w * f)\<rfloor>" using r by (auto simp: floor_le_iff)
  then have "is_int64 (trunc (round53 (w * f)))" "0 \<le> trunc (round53 (w * f))"
    using r by (auto simp: trunc_def is_int64_def)
  then show "0 \<le> jittered oor (Fin j) (Fin u) wait" "jittered oor (Fin j) (Fin u) wait = jittered oor' (Fin j) (Fin u) wait"
    by (simp_all add: eq int_of_float_def)
qed

section \<open>The invariant of the gate\<close>

definition entry_ok :: "rat \<Rightarrow> memEntry \<Rightarrow> bool" where
  "entry_ok b e \<longleftrightarrow>
     (\<exists>c. credit e = Fin c \<and> rep53 c \<and> - 1 \<le> c \<and> c \<le> b \<and> (gate_state e = stateClosed \<longrightarrow> 0 < c))
     \<and> gate_state e \<in> {stateClosed, stateOpen, stateHalfOpen}"

definition gate_inv :: "Gate \<Rightarrow> bool" where
  "gate_inv g \<longleftrightarrow> valid_config (gate_cfg g) \<and> wf_map (gate_keys g) \<and> go_len (gate_keys g) \<le> maxMemorySources
     \<and> (\<exists>b. budget g = Fin b \<and> rep53 b \<and> 1 \<le> b \<and> b \<le> 2 ^ 63
          \<and> (\<forall>k e. go_get (gate_keys g) k = Some e \<longrightarrow> entry_ok b e))"

lemma new_entry_ok: "rep53 b \<Longrightarrow> 1 \<le> b \<Longrightarrow> entry_ok b (new_entry (Fin b) now)"
  by (simp add: entry_ok_def new_entry_def)

lemma reset_fields [simp]:
  "credit (resetNIfClosedLongEnough cfg now e) = credit e"
  "gate_state (resetNIfClosedLongEnough cfg now e) = gate_state e"
  "openUntil (resetNIfClosedLongEnough cfg now e) = openUntil e"
  "closedSince (resetNIfClosedLongEnough cfg now e) = closedSince e"
  "probeUntil (resetNIfClosedLongEnough cfg now e) = probeUntil e"
  "probeOutstanding (resetNIfClosedLongEnough cfg now e) = probeOutstanding e"
  "gateExpireAt (resetNIfClosedLongEnough cfg now e) = gateExpireAt e"
  by (simp_all add: resetNIfClosedLongEnough_def)

lemma entry_allow_ok: "entry_ok b e \<Longrightarrow> entry_ok b (fst (entry_allow cfg now e))"
  by (auto simp: entry_ok_def entry_allow_def Let_def)

lemma successCredit_cases:
  assumes "valid_config (gate_cfg g)"
  obtains (fin) s where "successCredit g = Fin s" "0 \<le> s" | (inf) "successCredit g = PosInf"
proof -
  obtain r where r: "FailureRatio (gate_cfg g) = Fin r" "0 < r" "r < 1"
    using assms by (auto simp: valid_config_def)
  have "round64 (1 - r) = Fin (round53 (1 - r))" using r by (intro round64_small) simp
  moreover have "0 \<le> round53 (1 - r)" using r by (intro round53_nonneg) simp
  ultimately have sc: "successCredit g = (if round53 (1 - r) = 0 then PosInf else round64 (r / round53 (1 - r)))"
    and x: "0 \<le> round53 (1 - r)"
    using r by (auto simp: successCredit_def fsub_def finf_def)
  have q: "0 \<le> r / round53 (1 - r)" using r x by simp
  show ?thesis
    by (cases "r / round53 (1 - r)" rule: round64_cases)
      (use sc fin inf q round53_nonneg [OF q] in \<open>auto split: if_splits\<close>)
qed

lemma credit_gain:
  assumes "valid_config (gate_cfg g)" and "budget g = Fin b" and "rep53 b" and "rep53 c" and "0 < c" and "c \<le> b"
  shows "\<exists>c'. (let c' = fadd (Fin c) (successCredit g) in if fless (budget g) c' then budget g else c') = Fin c'
    \<and> rep53 c' \<and> c \<le> c' \<and> c' \<le> b"
  using assms(1)
proof (cases rule: successCredit_cases)
  case (fin s)
  show ?thesis
  proof (cases "c + s" rule: round64_cases)
    case fin': fin
    have "c \<le> round53 (c + s)" using fin assms by (intro round53_ge) auto
    then show ?thesis using assms fin fin' by (auto simp: Let_def)
  next
    case pos
    then show ?thesis using assms fin by (auto simp: Let_def)
  next
    case neg
    then show ?thesis using assms fin by simp
  qed
next
  case inf
  then show ?thesis using assms by (auto simp: Let_def)
qed

lemma credit_loss:
  assumes "rep53 c" and "- 1 \<le> c - 1" and "c \<le> b" and "b \<le> 2 ^ 63"
  shows "\<exists>c'. fsub (Fin c) (Fin 1) = Fin c' \<and> rep53 c' \<and> - 1 \<le> c' \<and> c' \<le> b"
proof -
  have "\<bar>c - 1\<bar> \<le> 2 ^ 64" using assms by (simp add: abs_le_iff)
  then have "fsub (Fin c) (Fin 1) = Fin (round53 (c - 1))" by (simp add: fsub_def round64_small)
  moreover have "- 1 \<le> round53 (c - 1)" using assms(2) rep53_int [of "- 1"] by (intro round53_ge) auto
  moreover have "round53 (c - 1) \<le> c" using assms(1) by (intro round53_le) auto
  ultimately show ?thesis using assms(3) rep53_round53 [of "c - 1"] by auto
qed

lemma entry_report_ok:
  assumes inv: "valid_config (gate_cfg g)" "budget g = Fin b" "rep53 b" "1 \<le> b" "b \<le> 2 ^ 63"
    and ok: "entry_ok b e"
  shows "entry_ok b (fst (entry_report oor u g now success e))" and "snd (entry_report oor u g now success e) = None"
proof -
  obtain c where c: "credit e = Fin c" "rep53 c" "- 1 \<le> c" "c \<le> b" "gate_state e = stateClosed \<longrightarrow> 0 < c"
    using ok by (auto simp: entry_ok_def)
  have gain: "entry_ok b (e\<lparr>gateExpireAt := t, credit := (let c' = fadd (Fin c) (successCredit g) in if fless (budget g) c' then budget g else c')\<rparr>)"
    if "gate_state e = stateClosed" for t
    using credit_gain [OF inv(1-3) c(2) _ c(4)] that c(3,5) by (auto simp: entry_ok_def)
  have loss: "\<exists>c'. fsub (Fin c) (Fin 1) = Fin c' \<and> rep53 c' \<and> - 1 \<le> c' \<and> c' \<le> b"
    if "gate_state e = stateClosed"
    using credit_loss [OF c(2) _ c(4) inv(5)] that c(5) by auto
  show "entry_ok b (fst (entry_report oor u g now success e))"
    using ok
  proof (cases "gate_state e")
    case stateClosed
    then show ?thesis using gain loss c(1) by (auto simp: entry_report_def Let_def entry_ok_def)
  next
    case stateHalfOpen
    then show ?thesis using ok inv by (auto simp: entry_report_def Let_def entry_ok_def)
  qed (auto simp: entry_report_def Let_def entry_ok_def)
  show "snd (entry_report oor u g now success e) = None"
    using ok by (auto simp: entry_report_def Let_def entry_ok_def)
qed

lemma gate_inv_put:
  assumes "gate_inv g" and "budget g = Fin b" and "wf_map m" and "go_len m \<le> maxMemorySources"
    and "go_get m key \<noteq> None" and "entry_ok b e"
    and "\<And>k e'. k \<noteq> key \<Longrightarrow> go_get m k = Some e' \<Longrightarrow> go_get (gate_keys g) k = Some e'"
  shows "gate_inv (g\<lparr>gate_keys := go_set key e m\<rparr>)"
  using assms by (auto simp: gate_inv_def go_len_set update_conv)

lemma Gate_Allow_inv:
  assumes "gate_inv g"
  shows "gate_inv (fst (Gate_Allow c now key g))"
    and "snd (snd (snd (Gate_Allow c now key g))) \<in> {None, Some errClosed}"
proof -
  obtain b where b: "budget g = Fin b" "rep53 b" "1 \<le> b" "b \<le> 2 ^ 63"
      "\<And>k e. go_get (gate_keys g) k = Some e \<Longrightarrow> entry_ok b e"
    and wf: "wf_map (gate_keys g)" and len: "go_len (gate_keys g) \<le> maxMemorySources"
    using assms by (auto simp: gate_inv_def)
  let ?l = "Gate_loadEntry (budget g) c key now (gate_keys g)"
  have ok: "entry_ok b (fst ?l)"
    using gate_map.load_fst [OF wf, of "budget g" c key now] b(5) [of key] new_entry_ok [OF b(2,3), of now] b(1)
    by (auto split: option.splits if_splits)
  have "gate_inv (g\<lparr>gate_keys := go_set key (fst (entry_allow (gate_cfg g) now (fst ?l))) (snd ?l)\<rparr>)"
    using gate_map.load_wf [OF wf] gate_map.load_len [OF wf len] gate_map.load_get [OF wf]
      entry_allow_ok [OF ok] gate_map.load_other [OF wf]
    by (intro gate_inv_put [OF assms b(1)]) auto
  then show "gate_inv (fst (Gate_Allow c now key g))"
    using assms by (simp add: Gate_Allow_def case_prod_beta)
  show "snd (snd (snd (Gate_Allow c now key g))) \<in> {None, Some errClosed}"
    using ok by (auto simp: Gate_Allow_def entry_allow_def entry_ok_def Let_def case_prod_beta split: if_splits)
qed

lemma Gate_Report_inv:
  assumes "gate_inv g"
  shows "gate_inv (fst (Gate_Report oor u now key success g))"
    and "snd (Gate_Report oor u now key success g) \<in> {None, Some errClosed}"
proof -
  obtain b where b: "budget g = Fin b" "rep53 b" "1 \<le> b" "b \<le> 2 ^ 63"
      "\<And>k e. go_get (gate_keys g) k = Some e \<Longrightarrow> entry_ok b e"
    and wf: "wf_map (gate_keys g)" and len: "go_len (gate_keys g) \<le> maxMemorySources"
    and cfg: "valid_config (gate_cfg g)"
    using assms by (auto simp: gate_inv_def)
  note rep = entry_report_ok [OF cfg b(1-4)]
  have "gate_inv (g\<lparr>gate_keys := go_set key (fst (entry_report oor u g now success e)) (gate_keys g)\<rparr>)"
    if "go_get (gate_keys g) key = Some e" for e
    using wf len that rep(1) [OF b(5) [OF that]] by (intro gate_inv_put [OF assms b(1)]) auto
  then show "gate_inv (fst (Gate_Report oor u now key success g))"
    using assms by (auto simp: Gate_Report_def case_prod_beta split: option.splits)
  show "snd (Gate_Report oor u now key success g) \<in> {None, Some errClosed}"
    using rep(2) b(5) by (auto simp: Gate_Report_def case_prod_beta split: option.splits)
qed

section \<open>Runs of calls\<close>

datatype gate_op =
    GateAllow nat instant string
  | GateReport int float64 instant string bool
  | GateClose

definition gate_step :: "gate_op \<Rightarrow> Gate \<Rightarrow> Gate \<times> gate_error option" where
  "gate_step op g =
     (case op of
        GateAllow c now key \<Rightarrow> (case Gate_Allow c now key g of (g', _, _, err) \<Rightarrow> (g', err))
      | GateReport oor u now key success \<Rightarrow> Gate_Report oor u now key success g
      | GateClose \<Rightarrow> (Gate_Close g, None))"

fun gate_run :: "gate_op list \<Rightarrow> Gate \<Rightarrow> Gate \<times> gate_error option list" where
  "gate_run [] g = (g, [])"
| "gate_run (op # ops) g =
     (case gate_step op g of (g1, err) \<Rightarrow> case gate_run ops g1 of (g2, errs) \<Rightarrow> (g2, err # errs))"

lemma gate_step_inv:
  "gate_inv g \<Longrightarrow> gate_inv (fst (gate_step op g)) \<and> snd (gate_step op g) \<in> {None, Some errClosed}"
  using Gate_Allow_inv [of g] Gate_Report_inv [of g]
  by (cases op) (auto simp: gate_step_def case_prod_beta Gate_Close_def gate_inv_def)

lemma gate_run_inv:
  "gate_inv g \<Longrightarrow> gate_inv (fst (gate_run ops g)) \<and> set (snd (gate_run ops g)) \<subseteq> {None, Some errClosed}"
proof (induction ops arbitrary: g)
  case (Cons op ops)
  have "gate_inv (fst (gate_step op g))" "snd (gate_step op g) \<in> {None, Some errClosed}"
    using gate_step_inv [OF Cons.prems] by blast+
  then show ?case using Cons.IH [of "fst (gate_step op g)"] by (auto simp: case_prod_beta)
qed simp

lemma default_ratios:
  "\<exists>r. defaultFailureRatio = Fin r \<and> 0 < r \<and> r < 1" "\<exists>r. defaultJitter = Fin r \<and> 0 \<le> r \<and> r < 1"
proof -
  have "defaultFailureRatio = Fin (5404319552844595 / 18014398509481984)" by code_simp
  then show "\<exists>r. defaultFailureRatio = Fin r \<and> 0 < r \<and> r < 1" by auto
  have "defaultJitter = Fin (3602879701896397 / 36028797018963968)" by code_simp
  then show "\<exists>r. defaultJitter = Fin r \<and> 0 \<le> r \<and> r < 1" by auto
qed

lemma open_unit: "x \<noteq> NaN \<Longrightarrow> \<not> (fle x (Fin 0) \<or> fle (Fin 1) x) \<Longrightarrow> \<exists>r. x = Fin r \<and> 0 < r \<and> r < 1"
  by (cases x) auto

lemma half_open_unit: "x \<noteq> NaN \<Longrightarrow> \<not> (fless x (Fin 0) \<or> fle (Fin 1) x) \<Longrightarrow> \<exists>r. x = Fin r \<and> 0 \<le> r \<and> r < 1"
  by (cases x) auto

lemma resolveConfig_valid:
  assumes "resolveConfig cfg = Inr cfg'" and "FailureRatio cfg \<noteq> NaN" and "Jitter cfg \<noteq> NaN"
    and "is_int64 (TripFailures cfg)" and "is_int64 (MaxCooldown cfg)"
  shows "valid_config cfg'"
proof -
  let ?f = "fill_defaults cfg"
  have cfg': "cfg' = ?f" "\<not> (fle (FailureRatio ?f) (Fin 0) \<or> fle (Fin 1) (FailureRatio ?f))"
      "1 \<le> TripFailures ?f" "0 < BaseCooldown ?f" "BaseCooldown ?f \<le> MaxCooldown ?f"
      "\<not> (fless (Jitter ?f) (Fin 0) \<or> fle (Fin 1) (Jitter ?f))" "Second \<le> TTL ?f"
    using assms(1) by (auto simp: resolveConfig_def Let_def split: if_splits)
  have "FailureRatio ?f \<noteq> NaN" "Jitter ?f \<noteq> NaN"
    using assms(2,3) default_ratios by (auto simp: fill_defaults_def)
  moreover have "is_int64 (TripFailures ?f)" "is_int64 (MaxCooldown ?f)"
    using assms(4,5) by (auto simp: fill_defaults_def defaultTripFailures_def defaultMaxCooldown_def
        is_int64_def Second_def)
  ultimately show ?thesis
    using cfg' open_unit [of "FailureRatio ?f"] half_open_unit [of "Jitter ?f"] by (simp add: valid_config_def)
qed

lemma budget_ok:
  "valid_config cfg \<Longrightarrow> \<exists>b. float_of_int (TripFailures cfg) = Fin b \<and> rep53 b \<and> 1 \<le> b \<and> b \<le> 2 ^ 63"
  using float_of_int_pos [of "TripFailures cfg"] by (simp add: valid_config_def)

lemma Gate_New_inv:
  assumes "Gate_New cfg = Inr g" and "FailureRatio cfg \<noteq> NaN" and "Jitter cfg \<noteq> NaN"
    and "is_int64 (TripFailures cfg)" and "is_int64 (MaxCooldown cfg)"
  shows "gate_inv g" and "gate_keys g = []" and "\<not> gate_closed g"
    and "budget g = float_of_int (TripFailures (gate_cfg g))"
proof -
  obtain r where r: "resolveConfig cfg = Inr r"
      "g = \<lparr>gate_cfg = r, budget = float_of_int (TripFailures r), gate_closed = False, gate_keys = []\<rparr>"
    using assms(1) by (auto simp: Gate_New_def split: sum.splits)
  then have "valid_config r" using resolveConfig_valid assms(2-5) by blast
  with r budget_ok [OF this] show "gate_inv g" by (auto simp: gate_inv_def)
  show "gate_keys g = []" "\<not> gate_closed g" "budget g = float_of_int (TripFailures (gate_cfg g))"
    using r(2) by simp_all
qed


definition zero_config :: GateConfig where
  "zero_config = \<lparr>FailureRatio = Fin 0, TripFailures = 0, BaseCooldown = 0, MaxCooldown = 0, Jitter = Fin 0, TTL = 0\<rparr>"

lemma zero_config_New: "Gate_New zero_config = Inr \<lparr>gate_cfg = \<lparr>FailureRatio = defaultFailureRatio,
    TripFailures = 5, BaseCooldown = Second, MaxCooldown = 10 * Second, Jitter = defaultJitter, TTL = 60 * Second\<rparr>,
    budget = Fin 5, gate_closed = False, gate_keys = []\<rparr>"
  by code_simp


section \<open>One key\<close>

text \<open>What a call does to the entry of its own key.\<close>

definition seen_entry :: "Gate \<Rightarrow> string \<Rightarrow> instant \<Rightarrow> memEntry" where
  "seen_entry g key now = (case go_get (gate_keys g) key of
      Some e \<Rightarrow> if now < gateExpireAt e then e else new_entry (budget g) now
    | None \<Rightarrow> new_entry (budget g) now)"

lemma Allow_entry:
  assumes "gate_inv g" and "\<not> gate_closed g" and "seen_entry g key now = e"
  shows "go_get (gate_keys (fst (Gate_Allow c now key g))) key = Some (fst (entry_allow (gate_cfg g) now e))"
    and "snd (Gate_Allow c now key g) = snd (entry_allow (gate_cfg g) now e)"
    and "gate_cfg (fst (Gate_Allow c now key g)) = gate_cfg g"
    and "budget (fst (Gate_Allow c now key g)) = budget g"
    and "\<not> gate_closed (fst (Gate_Allow c now key g))"
proof -
  have "wf_map (gate_keys g)" using assms(1) by (simp add: gate_inv_def)
  then have "fst (Gate_loadEntry (budget g) c key now (gate_keys g)) = e"
    using assms(3) by (simp add: gate_map.load_fst seen_entry_def)
  then show "go_get (gate_keys (fst (Gate_Allow c now key g))) key = Some (fst (entry_allow (gate_cfg g) now e))"
    "snd (Gate_Allow c now key g) = snd (entry_allow (gate_cfg g) now e)"
    "gate_cfg (fst (Gate_Allow c now key g)) = gate_cfg g"
    "budget (fst (Gate_Allow c now key g)) = budget g"
    "\<not> gate_closed (fst (Gate_Allow c now key g))"
    using assms(2) by (simp_all add: Gate_Allow_def case_prod_beta update_conv)
qed

lemma Report_entry:
  assumes "\<not> gate_closed g" and "go_get (gate_keys g) key = Some e"
  shows "go_get (gate_keys (fst (Gate_Report oor u now key success g))) key
      = Some (fst (entry_report oor u g now success e))"
    and "gate_cfg (fst (Gate_Report oor u now key success g)) = gate_cfg g"
    and "budget (fst (Gate_Report oor u now key success g)) = budget g"
    and "\<not> gate_closed (fst (Gate_Report oor u now key success g))"
  using assms by (simp_all add: Gate_Report_def case_prod_beta update_conv)

lemma gate_run_append:
  "gate_run (xs @ ys) g =
     (case gate_run xs g of (g1, e1) \<Rightarrow> case gate_run ys g1 of (g2, e2) \<Rightarrow> (g2, e1 @ e2))"
  by (induction xs arbitrary: g) (auto simp: case_prod_beta)

section \<open>Tripping\<close>

definition failures :: "nat \<Rightarrow> instant \<Rightarrow> int \<Rightarrow> float64 \<Rightarrow> string \<Rightarrow> nat \<Rightarrow> gate_op list" where
  "failures c now oor u key k = concat (replicate k [GateAllow c now key, GateReport oor u now key False])"

lemma failures_Suc:
  "failures c now oor u key (Suc k) = failures c now oor u key k @ [GateAllow c now key, GateReport oor u now key False]"
  unfolding failures_def by (induction k) simp_all

lemma failure_step:
  assumes "gate_inv g" and "\<not> gate_closed g"
    and "seen_entry g key now = e"
    and "gate_state e = stateClosed" and "credit e = Fin (of_int m)" and "1 \<le> m" and "m \<le> 2 ^ 53" and "backoff_n e = 0"
  shows "\<exists>e'. go_get (gate_keys (fst (gate_run [GateAllow c now key, GateReport oor u now key False] g))) key = Some e'
      \<and> credit e' = Fin (of_int (m - 1)) \<and> backoff_n e' = 0 \<and> gateExpireAt e' = now + TTL (gate_cfg g)
      \<and> (if m = 1 then gate_state e' = stateOpen \<and> openUntil e' = now + cooldownDuration oor u (gate_cfg g) 0
         else gate_state e' = stateClosed)"
proof -
  let ?g = "fst (Gate_Allow c now key g)"
  note a = Allow_entry [OF assms(1-3), of c]
  define e1 where "e1 = resetNIfClosedLongEnough (gate_cfg g) now (e\<lparr>gateExpireAt := now + TTL (gate_cfg g)\<rparr>)"
  have "fst (entry_allow (gate_cfg g) now e) = e1"
    using assms(4) by (simp add: entry_allow_def Let_def e1_def)
  then have look: "go_get (gate_keys ?g) key = Some e1" using a(1) by simp
  have n: "backoff_n e1 = 0" "gate_state e1 = stateClosed" "credit e1 = Fin (of_int m)"
    using assms by (simp_all add: e1_def resetNIfClosedLongEnough_def)
  have dec: "fsub (Fin (of_int m)) (Fin 1) = Fin (of_int (m - 1))"
    using round64_of_int [of "m - 1"] assms(6,7) by (simp add: fsub_def)
  have n2: "backoff_n (resetNIfClosedLongEnough (gate_cfg ?g) now (e1\<lparr>gateExpireAt := t\<rparr>)) = 0" for t
    using n by (simp add: resetNIfClosedLongEnough_def)
  have "fst (gate_run [GateAllow c now key, GateReport oor u now key False] g) = fst (Gate_Report oor u now key False ?g)"
    by (simp add: gate_step_def case_prod_beta)
  then show ?thesis
    using Report_entry(1) [OF a(5) look, of oor u now False] n n2 dec assms(6)
    by (auto simp: entry_report_def Let_def a(3))
qed

lemma failures_gate:
  fixes c now oor u key g
  defines "r \<equiv> \<lambda>k. fst (gate_run (failures c now oor u key k) g)"
  assumes "gate_inv g" and "\<not> gate_closed g"
  shows "gate_inv (r k) \<and> \<not> gate_closed (r k) \<and> gate_cfg (r k) = gate_cfg g \<and> budget (r k) = budget g"
proof (induction k)
  case 0
  then show ?case using assms by (simp add: failures_def)
next
  case (Suc k)
  have "r (Suc k) = fst (Gate_Report oor u now key False (fst (Gate_Allow c now key (r k))))"
    by (simp add: r_def failures_Suc gate_run_append gate_step_def case_prod_beta)
  then show ?case
    using Suc Allow_entry [of "r k" key now, OF _ _ refl] Gate_Report_inv Gate_Allow_inv Report_entry by metis
qed

lemma failures_entry:
  assumes "gate_inv g" and "\<not> gate_closed g" and "gate_keys g = []"
    and "budget g = Fin (of_int (int B))" and "int B \<le> 2 ^ 53" and "1 \<le> k" and "k \<le> B"
  shows "\<exists>e. go_get (gate_keys (fst (gate_run (failures c now oor u key k) g))) key = Some e
      \<and> credit e = Fin (of_int (int B - int k)) \<and> backoff_n e = 0 \<and> gateExpireAt e = now + TTL (gate_cfg g)
      \<and> (if k < B then gate_state e = stateClosed
         else gate_state e = stateOpen \<and> openUntil e = now + cooldownDuration oor u (gate_cfg g) 0)"
  using assms(6,7)
proof (induction k rule: nat_induct_at_least)
  case base
  have "seen_entry g key now = new_entry (Fin (of_int (int B))) now" by (simp add: seen_entry_def assms(3,4))
  then show ?case
    using failure_step [OF assms(1,2), of key now _ "int B" c oor u] base assms(5)
    by (auto simp: failures_Suc failures_def new_entry_def split: if_splits)
next
  case (Suc k)
  let ?r = "fst (gate_run (failures c now oor u key k) g)"
  have ttl: "0 < TTL (gate_cfg g)" using assms(1) by (auto simp: gate_inv_def valid_config_def Second_def)
  obtain e where e: "go_get (gate_keys ?r) key = Some e" "credit e = Fin (of_int (int B - int k))"
      "backoff_n e = 0" "gateExpireAt e = now + TTL (gate_cfg g)" "gate_state e = stateClosed"
    using Suc by auto
  then have "seen_entry ?r key now = e" using ttl by (simp add: seen_entry_def)
  moreover have "fst (gate_run (failures c now oor u key (Suc k)) g)
      = fst (gate_run [GateAllow c now key, GateReport oor u now key False] ?r)"
    by (simp add: failures_Suc gate_run_append case_prod_beta)
  ultimately show ?case
    using failure_step [of ?r key now e "int B - int k" c oor u] e Suc.prems Suc.hyps assms(5)
      failures_gate [OF assms(1,2), of c now oor u key k]
    by (auto split: if_splits simp: algebra_simps)
qed



section \<open>Waiting and probing\<close>

lemma entry_allow_deny:
  assumes "entry_ok b e" and "entry_allow cfg now e = (e', False, w, err)"
  shows "err = None \<and> e' = e\<lparr>gateExpireAt := now + TTL cfg\<rparr>
    \<and> (gate_state e = stateOpen \<and> now < openUntil e \<and> w = time_sub (openUntil e) now
      \<or> gate_state e = stateHalfOpen \<and> now < probeUntil e \<and> w = time_sub (probeUntil e) now)"
proof (cases "gate_state e")
  case stateClosed
  then show ?thesis using assms(2) by (simp add: entry_allow_def Let_def)
next
  case stateOpen
  then show ?thesis using assms(2)
    by (cases "now < openUntil e") (auto simp: entry_allow_def Let_def)
next
  case stateHalfOpen
  then show ?thesis using assms(2)
    by (cases "probeOutstanding e \<and> now < probeUntil e") (auto simp: entry_allow_def Let_def)
next
  case (stateOther x)
  then show ?thesis using assms(1) by (simp add: entry_ok_def)
qed

lemma time_sub_wait: "now < t \<Longrightarrow> time_sub t now \<noteq> max_int64 \<Longrightarrow> t = now + time_sub t now \<and> 0 < time_sub t now"
  by (auto simp: time_sub_def min_int64_def max_int64_def)

lemma seen_entry_ok:
  "gate_inv g \<Longrightarrow> budget g = Fin b \<Longrightarrow> entry_ok b (seen_entry g key now)"
  by (auto simp: seen_entry_def gate_inv_def new_entry_ok split: option.splits)

text \<open>
  C15: The wait a denial reports is exactly enough. When \<open>Allow\<close> denies without the gate being closed,
  the reported wait is positive, and (unless it was cut off at the largest duration) the same key is
  admitted by the next \<open>Allow\<close> at any instant at or after the end of that wait.
\<close>

theorem wait_then_admitted:
  assumes "gate_inv g" and "\<not> gate_closed g" and "Gate_Allow c now key g = (g', False, w, err)"
    and "w \<noteq> max_int64" and "now + w \<le> now'"
  shows "err = None \<and> 0 < w \<and> fst (snd (Gate_Allow c' now' key g')) \<and> fst (snd (snd (Gate_Allow c' now' key g'))) = 0"
proof -
  obtain b where b: "budget g = Fin b" using assms(1) by (auto simp: gate_inv_def)
  let ?cfg = "gate_cfg g" and ?e = "seen_entry g key now"
  have inv: "gate_inv g'" using Gate_Allow_inv(1) [OF assms(1), of c now key] assms(3) by simp
  note a = Allow_entry [OF assms(1,2) refl, of c now key, unfolded assms(3)]
  obtain e' where e': "entry_allow ?cfg now ?e = (e', False, w, err)"
    using a(2) by (cases "entry_allow ?cfg now ?e") simp
  have d: "err = None" "e' = ?e\<lparr>gateExpireAt := now + TTL ?cfg\<rparr>" "gate_state ?e = stateOpen \<and> now < openUntil ?e \<and> w = time_sub (openUntil ?e) now
      \<or> gate_state ?e = stateHalfOpen \<and> now < probeUntil ?e \<and> w = time_sub (probeUntil ?e) now"
    using entry_allow_deny [OF seen_entry_ok [OF assms(1) b] e'] by blast+
  have look: "go_get (gate_keys g') key = Some e'" using a(1) e' by simp
  have w: "0 < w \<and> (gate_state e' = stateOpen \<and> openUntil e' \<le> now'
      \<or> gate_state e' = stateHalfOpen \<and> probeUntil e' \<le> now')"
    using d(3) time_sub_wait [of now "openUntil ?e"] time_sub_wait [of now "probeUntil ?e"] assms(4,5) by (auto simp: d(2))
  have "fst (snd (entry_allow ?cfg now' (seen_entry g' key now'))) \<and> fst (snd (snd (entry_allow ?cfg now' (seen_entry g' key now')))) = 0"
    using w look by (auto simp: seen_entry_def entry_allow_def Let_def new_entry_def)
  then show ?thesis using d(1) w Allow_entry [OF inv _ refl, of c' now' key] a(3,5) by simp
qed

text \<open>A gate with the default knobs, no jitter and one key, for examples.\<close>

definition sample_gate :: "gateState \<Rightarrow> Gate" where
  "sample_gate st = \<lparr>gate_cfg = \<lparr>FailureRatio = Fin (1 / 4), TripFailures = 5, BaseCooldown = Second,
       MaxCooldown = 10 * Second, Jitter = Fin 0, TTL = 60 * Second\<rparr>,
     budget = Fin 5, gate_closed = False,
     gate_keys = [(''k'', \<lparr>credit = Fin 1, backoff_n = 0, gate_state = st, openUntil = Second, closedSince = 0,
       probeUntil = Second, probeOutstanding = True, gateExpireAt = 60 * Second\<rparr>)]\<rparr>"

lemma sample_gate_inv: "st \<in> {stateClosed, stateOpen, stateHalfOpen} \<Longrightarrow> gate_inv (sample_gate st)"
proof -
  have "\<exists>r :: rat. r * 4 = 1 \<and> 0 < r \<and> r < 1" by (rule exI [of _ "1 / 4"]) simp
  then show "st \<in> {stateClosed, stateOpen, stateHalfOpen} \<Longrightarrow> gate_inv (sample_gate st)"
    using rep53_int [of 1] rep53_int [of 5]
    by (auto simp: sample_gate_def gate_inv_def valid_config_def entry_ok_def wf_map_def is_int64_def
        maxMemorySources_def Second_def)
qed

theorem wait_then_admitted_witness:
  "0 < Second \<and> fst (snd (Gate_Allow 0 Second ''k'' (fst (Gate_Allow 0 0 ''k'' (sample_gate stateOpen)))))"
proof -
  have "Gate_Allow 0 0 ''k'' (sample_gate stateOpen)
      = (fst (Gate_Allow 0 0 ''k'' (sample_gate stateOpen)), False, Second, None)" by code_simp
  moreover have "\<not> gate_closed (sample_gate stateOpen)" by (simp add: sample_gate_def)
  moreover have "Second \<noteq> max_int64" by code_simp
  moreover have "gate_inv (sample_gate stateOpen)" by (simp add: sample_gate_inv)
  ultimately show ?thesis
    using wait_then_admitted [of "sample_gate stateOpen" 0 0 "''k''" _ Second None Second 0] by simp
qed

fun allows :: "string \<Rightarrow> (nat \<times> instant) list \<Rightarrow> Gate \<Rightarrow> bool list" where
  "allows key [] g = []"
| "allows key ((c, t) # calls) g = (case Gate_Allow c t key g of (g', ok, _, _) \<Rightarrow> ok # allows key calls g')"

lemma probe_denies:
  assumes "gate_inv g" and "\<not> gate_closed g" and "go_get (gate_keys g) key = Some e"
    and "gate_state e = stateHalfOpen" and "probeOutstanding e" and "t < probeUntil e" and "t < gateExpireAt e"
  shows "fst (snd (Gate_Allow c t key g)) = False"
    and "go_get (gate_keys (fst (Gate_Allow c t key g))) key = Some (e\<lparr>gateExpireAt := t + TTL (gate_cfg g)\<rparr>)"
    and "gate_cfg (fst (Gate_Allow c t key g)) = gate_cfg g" and "\<not> gate_closed (fst (Gate_Allow c t key g))"
proof -
  have "seen_entry g key t = e" using assms(3,7) by (simp add: seen_entry_def)
  note a = Allow_entry [OF assms(1,2) this, of c]
  show "fst (snd (Gate_Allow c t key g)) = False"
    "go_get (gate_keys (fst (Gate_Allow c t key g))) key = Some (e\<lparr>gateExpireAt := t + TTL (gate_cfg g)\<rparr>)"
    "gate_cfg (fst (Gate_Allow c t key g)) = gate_cfg g" "\<not> gate_closed (fst (Gate_Allow c t key g))"
    using a assms(4-6) by (simp_all add: entry_allow_def Let_def)
qed

lemma probe_denies_all:
  "gate_inv g \<Longrightarrow> \<not> gate_closed g \<Longrightarrow> go_get (gate_keys g) key = Some e \<Longrightarrow> gate_state e = stateHalfOpen \<Longrightarrow>
   probeOutstanding e \<Longrightarrow> now + BaseCooldown (gate_cfg g) \<le> probeUntil e \<Longrightarrow> now + TTL (gate_cfg g) \<le> gateExpireAt e \<Longrightarrow>
   \<forall>(c, t) \<in> set calls. now \<le> t \<and> t < now + BaseCooldown (gate_cfg g) \<and> t < now + TTL (gate_cfg g) \<Longrightarrow>
   allows key calls g = replicate (length calls) False"
proof (induction calls arbitrary: g e)
  case (Cons call calls)
  obtain c t where call: "call = (c, t)" by (cases call)
  have t: "now \<le> t" "t < probeUntil e" "t < gateExpireAt e" using Cons.prems(6-8) call by auto
  note d = probe_denies [OF Cons.prems(1-5) t(2,3), of c]
  have "allows key calls (fst (Gate_Allow c t key g)) = replicate (length calls) False"
    using Cons.prems t d Gate_Allow_inv(1) [OF Cons.prems(1)] call
    by (intro Cons.IH [OF _ _ d(2)]) auto
  then show ?case using call d(1) by (simp add: case_prod_beta)
qed simp

lemma entry_allow_probe:
  assumes "gate_state (fst (entry_allow cfg now e)) = stateHalfOpen" and "fst (snd (entry_allow cfg now e))"
  shows "probeOutstanding (fst (entry_allow cfg now e)) \<and> probeUntil (fst (entry_allow cfg now e)) = now + BaseCooldown cfg
    \<and> gateExpireAt (fst (entry_allow cfg now e)) = now + TTL cfg"
  using assms by (cases "gate_state e") (auto simp: entry_allow_def Let_def split: if_splits)

text \<open>
  C16: At most one probe per lease. When \<open>Allow\<close> admits a probe (it leaves the key HALF-OPEN), every
  later \<open>Allow\<close> of the key before the lease of \<open>BaseCooldown\<close> ends (and before the key's TTL) is
  denied, however many there are, as long as nothing is reported.
\<close>

theorem one_probe_per_lease:
  assumes "gate_inv g" and "\<not> gate_closed g" and "Gate_Allow c now key g = (g', True, w, err)"
    and "go_get (gate_keys g') key = Some e" and "gate_state e = stateHalfOpen"
    and "\<forall>(c, t) \<in> set calls. now \<le> t \<and> t < now + BaseCooldown (gate_cfg g) \<and> t < now + TTL (gate_cfg g)"
  shows "allows key calls g' = replicate (length calls) False"
proof -
  note a = Allow_entry [OF assms(1,2) refl, of c now key, unfolded assms(3) fst_conv snd_conv]
  have e: "fst (entry_allow (gate_cfg g) now (seen_entry g key now)) = e" using a(1) assms(4) by simp
  have "probeOutstanding e \<and> probeUntil e = now + BaseCooldown (gate_cfg g) \<and> gateExpireAt e = now + TTL (gate_cfg g)"
    using entry_allow_probe [of "gate_cfg g" now "seen_entry g key now"] e a(2) assms(5) by (metis fst_conv)
  moreover have "gate_inv g'" using Gate_Allow_inv(1) [OF assms(1), of c now key] assms(3) by simp
  ultimately show ?thesis using a(3,5) assms(4-6) by (intro probe_denies_all) auto
qed

theorem one_probe_per_lease_witness:
  "allows ''k'' [(0, 2 * Second - 1), (3, Second)] (fst (Gate_Allow 0 Second ''k'' (sample_gate stateOpen))) = [False, False]"
proof -
  have a: "Gate_Allow 0 Second ''k'' (sample_gate stateOpen)
      = (fst (Gate_Allow 0 Second ''k'' (sample_gate stateOpen)), True, 0, None)" by code_simp
  have e: "go_get (gate_keys (fst (Gate_Allow 0 Second ''k'' (sample_gate stateOpen)))) ''k''
      = Some \<lparr>credit = Fin 1, backoff_n = 0, gate_state = stateHalfOpen, openUntil = Second, closedSince = 0,
       probeUntil = 2 * Second, probeOutstanding = True, gateExpireAt = 61 * Second\<rparr>" by code_simp
  have "\<not> gate_closed (sample_gate stateOpen)" "gate_inv (sample_gate stateOpen)"
    by (simp_all add: sample_gate_inv) (simp add: sample_gate_def)
  then show ?thesis
    using one_probe_per_lease [OF _ _ a e, of "[(0, 2 * Second - 1), (3, Second)]"]
    by (simp add: sample_gate_def Second_def numeral_2_eq_2)
qed

text \<open>
  Cooldowns double up to the cap. For a valid configuration the cooldown of exponent \<open>n\<close> is
  never negative and never above \<open>MaxCooldown\<close>, whatever the sample; without jitter it is exactly
  \<open>min (BaseCooldown * 2 ^ n) MaxCooldown\<close>, the doubling never overflowing 64 bits; and with a sample in
  \<open>[0, 1)\<close> and a cap of at most \<open>2 ^ 61\<close> ns the jittered product always fits an \<open>int64\<close>, so the
  conversion is the same on every architecture.
\<close>

theorem cooldown_spec:
  assumes "valid_config cfg" and "0 \<le> n"
  shows "0 \<le> cooldownDuration oor u cfg n \<and> cooldownDuration oor u cfg n \<le> MaxCooldown cfg
    \<and> (Jitter cfg = Fin 0 \<longrightarrow> cooldownDuration oor u cfg n = min (BaseCooldown cfg * 2 ^ nat n) (MaxCooldown cfg))
    \<and> (MaxCooldown cfg \<le> 2 ^ 61 \<and> (\<exists>v. u = Fin v \<and> 0 \<le> v \<and> v < 1) \<longrightarrow>
         cooldownDuration oor u cfg n = cooldownDuration oor' u cfg n)"
proof -
  have eq: "cooldown_loop (MaxCooldown cfg) (nat n) (BaseCooldown cfg) = min (BaseCooldown cfg * 2 ^ nat n) (MaxCooldown cfg)"
    using assms by (intro cooldown_loop_eq) (auto simp: valid_config_def)
  have pos: "0 < min (BaseCooldown cfg * 2 ^ nat n) (MaxCooldown cfg)" using assms by (auto simp: valid_config_def)
  obtain j where j: "Jitter cfg = Fin j" "0 \<le> j" "j < 1" using assms by (auto simp: valid_config_def)
  have "cooldownDuration oor u cfg n = cooldownDuration oor' u cfg n"
    if "MaxCooldown cfg \<le> 2 ^ 61" "u = Fin v" "0 \<le> v" "v < 1" for v
    using jittered_in_range(2) [OF j(2,3) that(3,4), of "min (BaseCooldown cfg * 2 ^ nat n) (MaxCooldown cfg)" oor oor'] that pos
    by (simp add: cooldownDuration_def Let_def eq j(1))
  moreover have "Jitter cfg = Fin 0 \<longrightarrow> cooldownDuration oor u cfg n = min (BaseCooldown cfg * 2 ^ nat n) (MaxCooldown cfg)"
    by (simp add: cooldownDuration_def Let_def eq)
  ultimately show ?thesis using cooldown_bounds [OF assms(1), of oor u n] by blast
qed

theorem cooldown_spec_witness:
  "cooldownDuration 0 (Fin 0) (gate_cfg (sample_gate stateOpen)) 3 = 8 * Second
   \<and> cooldownDuration 0 (Fin 0) (gate_cfg (sample_gate stateOpen)) 9 = 10 * Second"
proof -
  have v: "valid_config (gate_cfg (sample_gate stateOpen))" using sample_gate_inv by (auto simp: gate_inv_def)
  have "Jitter (gate_cfg (sample_gate stateOpen)) = Fin 0" by (simp add: sample_gate_def)
  then show ?thesis
    using cooldown_spec [OF v, of 3 0 "Fin 0"] cooldown_spec [OF v, of 9 0 "Fin 0"]
    by (simp add: sample_gate_def Second_def)
qed

section \<open>Where the code and its documentation part\<close>

text \<open>
  C17: A report from a denied caller decides the probe. While a probe is out and its lease runs,
  \<open>Allow\<close> denies; if the denied caller then reports, the report is not ignored but taken as the
  probe's outcome: a success closes the key with full credit, a failure re-opens it with the
  exponent one higher.
\<close>

theorem denied_report_decides_probe:
  assumes "gate_inv g" and "\<not> gate_closed g" and "go_get (gate_keys g) key = Some e"
    and "gate_state e = stateHalfOpen" and "probeOutstanding e" and "t < probeUntil e" and "t < gateExpireAt e"
  shows "\<not> fst (snd (Gate_Allow c t key g))
    \<and> (\<exists>e'. go_get (gate_keys (fst (Gate_Report oor u t key True (fst (Gate_Allow c t key g))))) key = Some e'
         \<and> gate_state e' = stateClosed \<and> credit e' = budget g)
    \<and> (\<exists>e'. go_get (gate_keys (fst (Gate_Report oor u t key False (fst (Gate_Allow c t key g))))) key = Some e'
         \<and> gate_state e' = stateOpen \<and> backoff_n e' = wrap64 (backoff_n e + 1))"
proof -
  note d = probe_denies [OF assms, of c]
  have "budget (fst (Gate_Allow c t key g)) = budget g" using Allow_entry(4) [OF assms(1,2) refl] .
  then show ?thesis
    using d assms(4,5) Report_entry(1) [OF d(4,2), of oor u t] by (simp add: entry_report_def Let_def)
qed

theorem denied_report_decides_probe_witness:
  "\<exists>e'. go_get (gate_keys (fst (Gate_Report 0 (Fin 0) 0 ''k'' True (fst (Gate_Allow 0 0 ''k'' (sample_gate stateHalfOpen)))))) ''k''
     = Some e' \<and> gate_state e' = stateClosed"
proof -
  have "gate_inv (sample_gate stateHalfOpen)" by (simp add: sample_gate_inv)
  from denied_report_decides_probe [OF this, of "''k''" _ 0 0 0 "Fin 0"] show ?thesis
    by (auto simp: sample_gate_def Second_def)
qed

definition nan_config :: GateConfig where
  "nan_config = \<lparr>FailureRatio = NaN, TripFailures = 5, BaseCooldown = Second, MaxCooldown = 10 * Second,
     Jitter = Fin 0, TTL = 60 * Second\<rparr>"

lemma nan_config_New: "Gate_New nan_config = Inr \<lparr>gate_cfg = nan_config, budget = Fin 5, gate_closed = False, gate_keys = []\<rparr>"
proof -
  have "float_of_int 5 = Fin 5" using float_of_int_exact [of 5] by simp
  then show ?thesis
    by (simp add: Gate_New_def resolveConfig_def fill_defaults_def nan_config_def allZero_def Let_def Second_def)
qed

text \<open>What a gate looks like once a success has been reported under a NaN ratio.\<close>

definition nan_key :: "string \<Rightarrow> instant \<Rightarrow> Gate \<Rightarrow> bool" where
  "nan_key key now g \<longleftrightarrow> gate_cfg g = nan_config \<and> \<not> gate_closed g \<and> wf_map (gate_keys g)
     \<and> (\<exists>e. go_get (gate_keys g) key = Some e \<and> gate_state e = stateClosed \<and> credit e = NaN \<and> now < gateExpireAt e)"

lemma nan_key_failure:
  assumes "nan_key key now g"
  shows "nan_key key now (fst (gate_run [GateAllow c now key, GateReport oor u now key False] g))
    \<and> fst (snd (Gate_Allow c now key g))"
proof -
  obtain e where e: "go_get (gate_keys g) key = Some e" "gate_state e = stateClosed" "credit e = NaN" "now < gateExpireAt e"
    and g: "gate_cfg g = nan_config" "\<not> gate_closed g" "wf_map (gate_keys g)"
    using assms by (auto simp: nan_key_def)
  have ld: "Gate_loadEntry (budget g) c key now (gate_keys g) = (e, gate_keys g)"
    using e by (intro gate_map.load_live) auto
  define e1 where "e1 = resetNIfClosedLongEnough nan_config now (e\<lparr>gateExpireAt := now + TTL nan_config\<rparr>)"
  have a: "Gate_Allow c now key g = (g\<lparr>gate_keys := go_set key e1 (gate_keys g)\<rparr>, True, 0, None)"
    using e g ld by (simp add: Gate_Allow_def entry_allow_def Let_def e1_def)
  have "gate_state e1 = stateClosed" "credit e1 = NaN" using e by (simp_all add: e1_def)
  then have "nan_key key now (fst (Gate_Report oor u now key False (fst (Gate_Allow c now key g))))"
    using a g by (simp add: nan_key_def Gate_Report_def entry_report_def Let_def case_prod_beta update_conv fsub_def)
      (simp add: nan_config_def Second_def)
  then show ?thesis using a by (simp add: gate_step_def case_prod_beta)
qed

text \<open>
  C18: A NaN failure ratio passes the validation and disables the gate. \<open>resolveConfig\<close> compares the
  ratio with \<open>0\<close> and \<open>1\<close> only, and every comparison with NaN is false, so \<open>New\<close> accepts it; after one
  successful report the credit is NaN, and from then on no number of consecutive failures opens the
  key: every \<open>Allow\<close> is admitted.
\<close>

theorem nan_ratio_never_trips:
  "\<exists>g. Gate_New nan_config = Inr g
     \<and> (\<forall>k. let g' = fst (gate_run ([GateAllow c now key, GateReport oor u now key True] @ failures c now oor u key k) g)
            in (\<exists>e. go_get (gate_keys g') key = Some e \<and> gate_state e = stateClosed)
               \<and> fst (snd (Gate_Allow c now key g')))"
proof -
  let ?g = "\<lparr>gate_cfg = nan_config, budget = Fin 5, gate_closed = False, gate_keys = []\<rparr> :: Gate"
  let ?g1 = "fst (gate_run [GateAllow c now key, GateReport oor u now key True] ?g)"
  have "nan_key key now ?g1"
    by (simp add: nan_key_def gate_step_def Gate_Allow_def Gate_loadEntry_def Gate_dropExpired_def maxMemorySources_def
        Gate_Report_def entry_allow_def entry_report_def new_entry_def resetNIfClosedLongEnough_def successCredit_def
        fsub_def nan_config_def Second_def wf_map_def Let_def)
  then have "nan_key key now (fst (gate_run (failures c now oor u key k) ?g1))" for k
  proof (induction k)
    case (Suc k)
    then show ?case using nan_key_failure by (simp add: failures_Suc gate_run_append case_prod_beta)
  qed (simp add: failures_def)
  then have "nan_key key now (fst (gate_run ([GateAllow c now key, GateReport oor u now key True] @ failures c now oor u key k) ?g))" for k
    unfolding gate_run_append by (simp add: case_prod_beta)
  then show ?thesis
    using nan_config_New nan_key_failure unfolding nan_key_def Let_def by (intro exI [of _ ?g]) (metis nan_key_def)
qed

end
