(* ===== verification/TokenBucket.thy ===== *)
theory TokenBucket
  imports TTLMap Float64
begin

text \<open>
  Package \<open>tokenbucket\<close>: the clock of \<open>clock.go\<close> (one consume of the bucket, in \<open>float64\<close>), the
  in-process store of \<open>memory.go\<close> and the formulas of the Redis script of \<open>lua.go\<close>. \<open>Allow\<close> runs
  under the store's mutex, so it is one step: the error of the caller's context, the clock and the
  key the map iteration yields first are arguments, and so is \<open>oor\<close>, what the architecture returns
  for a conversion to \<open>int64\<close> that does not fit.
\<close>

section \<open>The clock\<close>

datatype tb_error =
  tbErrRate | tbErrBurst | tbErrDelay | tbErrTTL | tbErrRedis | tbErrEvalLen | tbErrEvalWait

record clockConfig =
  clk_rate :: float64
  clk_burst :: int
  clk_maxDelay :: duration
  clk_ttl :: duration

definition validateClock :: "float64 \<Rightarrow> int \<Rightarrow> duration \<Rightarrow> duration \<Rightarrow> tb_error option" where
  "validateClock rate burst maxDelay ttl =
     (if fle rate (Fin 0) \<or> is_nan rate \<or> is_inf rate then Some tbErrRate
      else if burst < 1 then Some tbErrBurst
      else if maxDelay < 0 then Some tbErrDelay
      else if ttl < Second \<or> ttl smod Second \<noteq> 0 then Some tbErrTTL
      else None)"

definition limitPerMicro :: "clockConfig \<Rightarrow> float64" where
  "limitPerMicro c = fdiv (clk_rate c) (Fin 1000000)"

definition ttlSeconds :: "clockConfig \<Rightarrow> int" where
  "ttlSeconds c = clk_ttl c sdiv Second"

text \<open>\<open>Duration.Microseconds\<close>\<close>

definition Microseconds :: "duration \<Rightarrow> int" where
  "Microseconds d = d sdiv 1000"

text \<open>\<open>consumeOne\<close>: the tokens after the refill, and the tokens and the wait after the consume.\<close>

definition refill :: "float64 \<Rightarrow> int \<Rightarrow> float64 \<Rightarrow> float64 \<Rightarrow> int \<Rightarrow> float64" where
  "refill tokens last0 limit burst nowMicro =
     (let last1 = (if nowMicro < last0 then nowMicro else last0);
          elapsed = float_of_int (wrap64 (nowMicro - last1));
          t = fadd tokens (fmul limit elapsed)
      in if fless burst t then burst else t)"

definition take_token :: "float64 \<Rightarrow> float64 \<Rightarrow> int \<Rightarrow> float64 \<Rightarrow> float64 \<times> float64" where
  "take_token limit burst maxDelayMicro refilled =
     (let t = fsub refilled (Fin 1)
      in if fless t (Fin 0) then
           let waitMicro = fdiv (fneg t) limit
           in if fless (float_of_int maxDelayMicro) waitMicro then
                let t' = fadd t (Fin 1)
                in (if fless burst t' then burst else t', waitMicro)
              else (t, waitMicro)
         else (t, Fin 0))"

definition consumeOne ::
  "float64 \<Rightarrow> int \<Rightarrow> float64 \<Rightarrow> float64 \<Rightarrow> int \<Rightarrow> int \<Rightarrow> float64 \<times> int \<times> float64" where
  "consumeOne tokens last0 limit burst nowMicro maxDelayMicro =
     (case take_token limit burst maxDelayMicro (refill tokens last0 limit burst nowMicro) of
        (tokens', waitMicro) \<Rightarrow>
          (tokens', if nowMicro < last0 then last0 else nowMicro, waitMicro))"

definition waitDuration :: "int \<Rightarrow> float64 \<Rightarrow> duration" where
  "waitDuration oor waitMicro =
     (if fle waitMicro (Fin 0) then 0
      else int_of_float oor (fmul waitMicro (float_of_int Microsecond)))"

definition allowedFromWait :: "duration \<Rightarrow> duration \<Rightarrow> bool" where
  "allowedFromWait wait maxDelay \<longleftrightarrow> wait \<le> maxDelay"

section \<open>The in-process store\<close>

record bucketEntry =
  bkt_tokens :: float64
  bkt_last :: int
  bkt_expireAt :: instant

type_synonym buckets = "(string, bucketEntry) gomap"

record Memory =
  mem_clock :: clockConfig
  mem_buckets :: buckets

definition maxBucketSources :: nat where
  "maxBucketSources = 65536"

definition NewMemory :: "float64 \<Rightarrow> int \<Rightarrow> duration \<Rightarrow> duration \<Rightarrow> tb_error + Memory" where
  "NewMemory rate burst maxDelay ttl =
     (case validateClock rate burst maxDelay ttl of
        Some e \<Rightarrow> Inl e
      | None \<Rightarrow> Inr \<lparr>mem_clock = \<lparr>clk_rate = rate, clk_burst = burst, clk_maxDelay = maxDelay, clk_ttl = ttl\<rparr>,
                    mem_buckets = []\<rparr>)"

definition Memory_dropExpired :: "instant \<Rightarrow> buckets \<Rightarrow> buckets" where
  "Memory_dropExpired now m = filter (\<lambda>(k, e). now < bkt_expireAt e) m"

definition Memory_dropOne :: "nat \<Rightarrow> instant \<Rightarrow> buckets \<Rightarrow> buckets" where
  "Memory_dropOne c now m0 =
     (let m = Memory_dropExpired now m0
      in if go_len m < maxBucketSources then m
         else go_delete (fst (m ! (c mod go_len m))) m)"

definition full_bucket :: "clockConfig \<Rightarrow> instant \<Rightarrow> bucketEntry" where
  "full_bucket clk now =
     \<lparr>bkt_tokens = float_of_int (clk_burst clk), bkt_last = time_unix_micro now, bkt_expireAt = zero_time\<rparr>"

text \<open>The first half of \<open>Allow\<close>: the bucket of the key, a full one for a new or expired key.\<close>

definition Memory_entry :: "clockConfig \<Rightarrow> nat \<Rightarrow> string \<Rightarrow> instant \<Rightarrow> buckets \<Rightarrow> bucketEntry \<times> buckets" where
  "Memory_entry clk c key now m0 =
     (let (entry, m) =
            (case go_get m0 key of
               None \<Rightarrow> (None, m0)
             | Some e \<Rightarrow> if \<not> now < bkt_expireAt e then (None, go_delete key m0) else (Some e, m0))
      in case entry of
           Some e \<Rightarrow> (e, m)
         | None \<Rightarrow>
             let m1 = Memory_dropExpired now m;
                 m2 = (if go_len m1 \<ge> maxBucketSources then Memory_dropOne c now m1 else m1);
                 e = full_bucket clk now
             in (e, go_set key e m2))"

definition bucket_allow :: "int \<Rightarrow> clockConfig \<Rightarrow> instant \<Rightarrow> bucketEntry \<Rightarrow> bucketEntry \<times> bool \<times> duration" where
  "bucket_allow oor clk now e =
     (case consumeOne (bkt_tokens e) (bkt_last e) (limitPerMicro clk) (float_of_int (clk_burst clk))
             (time_unix_micro now) (Microseconds (clk_maxDelay clk)) of
        (tokens, last1, waitMicro) \<Rightarrow>
          let wait = waitDuration oor waitMicro
          in (e\<lparr>bkt_tokens := tokens, bkt_last := last1, bkt_expireAt := now + clk_ttl clk\<rparr>,
              allowedFromWait wait (clk_maxDelay clk), wait))"

definition Memory_Allow ::
  "int \<Rightarrow> 'x option \<Rightarrow> nat \<Rightarrow> instant \<Rightarrow> string \<Rightarrow> Memory \<Rightarrow> Memory \<times> bool \<times> duration \<times> 'x option" where
  "Memory_Allow oor ctxErr c now key m =
     (case ctxErr of
        Some e \<Rightarrow> (m, False, 0, Some e)
      | None \<Rightarrow>
          (case Memory_entry (mem_clock m) c key now (mem_buckets m) of (entry, bs) \<Rightarrow>
             case bucket_allow oor (mem_clock m) now entry of (entry', allowed, wait) \<Rightarrow>
               (m\<lparr>mem_buckets := go_set key entry' bs\<rparr>, allowed, wait, None)))"

section \<open>The formulas of the Redis script\<close>

text \<open>
  The arithmetic of \<open>allowScript\<close> on Lua numbers, which are doubles. \<open>stored\<close> is the pair of
  \<open>last\<close> and \<open>tokens\<close> that \<open>HGETALL\<close> gives when the hash has both fields. The script returns the
  wait and stores the second and third component; text conversions are the server's.
\<close>

definition fmin :: "float64 \<Rightarrow> float64 \<Rightarrow> float64" where
  "fmin x y = (if fless y x then y else x)"

definition lua_script ::
  "(float64 \<times> float64) option \<Rightarrow> float64 \<Rightarrow> float64 \<Rightarrow> float64 \<Rightarrow> float64 \<Rightarrow> float64 \<times> float64 \<times> float64" where
  "lua_script stored limit burst t max_delay =
     (let (bucket_last, bucket_tokens) = (case stored of Some (l, k) \<Rightarrow> (l, k) | None \<Rightarrow> (t, burst));
          last1 = (if fless t bucket_last then t else bucket_last);
          elapsed = fsub t last1;
          delta = fmul limit elapsed;
          tokens0 = fsub (fmin (fadd bucket_tokens delta) burst) (Fin 1);
          (tokens, wait_duration) =
            (if fless tokens0 (Fin 0) then
               let w = fdiv (fmul tokens0 (Fin (- 1))) limit
               in (if fless max_delay w then fmin (fadd tokens0 (Fin 1)) burst else tokens0, w)
             else (tokens0, Fin 0));
          persistLast = (if fless bucket_last t then t else bucket_last)
      in (wait_duration, persistLast, tokens))"

section \<open>The map keeps its contract\<close>

interpretation bucket_map: ttl_map bkt_expireAt Memory_dropExpired Memory_dropOne maxBucketSources
    "full_bucket clk" "Memory_entry clk" for clk
proof
  show "0 < maxBucketSources" by (simp add: maxBucketSources_def)
next
  fix m :: buckets and now
  show "wf_map m \<Longrightarrow> wf_map (Memory_dropExpired now m)" by (simp add: Memory_dropExpired_def)
  show "go_len (Memory_dropExpired now m) \<le> go_len m" by (simp add: Memory_dropExpired_def)
  fix k
  show "wf_map m \<Longrightarrow> go_get (Memory_dropExpired now m) k =
      (case go_get m k of None \<Rightarrow> None | Some e \<Rightarrow> if now < bkt_expireAt e then Some e else None)"
    by (simp add: Memory_dropExpired_def go_get_filter)
next
  fix m :: buckets and c now
  assume wf: "wf_map m"
  then show "wf_map (Memory_dropOne c now m)" by (simp add: Memory_dropOne_def Memory_dropExpired_def Let_def)
  fix k e
  show "go_get (Memory_dropOne c now m) k = Some e \<Longrightarrow> go_get m k = Some e"
    using wf by (auto simp: Memory_dropOne_def Memory_dropExpired_def Let_def go_get_filter delete_conv
        split: if_splits option.splits)
next
  fix m :: buckets and c now
  assume m: "wf_map m" "go_len m \<le> maxBucketSources"
  let ?m = "Memory_dropExpired now m"
  have le: "go_len ?m \<le> maxBucketSources" and wf: "wf_map ?m"
    using m le_trans [OF length_filter_le m(2)] by (simp_all add: Memory_dropExpired_def)
  show "go_len (Memory_dropOne c now m) < maxBucketSources"
  proof (cases "go_len ?m < maxBucketSources")
    case False
    with le have "go_len ?m = maxBucketSources" by simp
    then show ?thesis using delete_nth_less [OF wf, of c]
      by (simp add: Memory_dropOne_def Let_def maxBucketSources_def)
  qed (simp add: Memory_dropOne_def Let_def)
next
  fix m :: buckets and k c now e
  show "go_get m k = Some e \<Longrightarrow> now < bkt_expireAt e \<Longrightarrow> Memory_entry clk c k now m = (e, m)"
    by (simp add: Memory_entry_def)
  show "go_get m k = None \<Longrightarrow> Memory_entry clk c k now m =
      (full_bucket clk now, go_set k (full_bucket clk now)
         (if maxBucketSources \<le> go_len (Memory_dropExpired now m)
          then Memory_dropOne c now (Memory_dropExpired now m) else Memory_dropExpired now m))"
    by (simp add: Memory_entry_def Let_def)
  show "go_get m k = Some e \<Longrightarrow> bkt_expireAt e \<le> now \<Longrightarrow>
      Memory_entry clk c k now m = Memory_entry clk c k now (go_delete k m)"
    by (simp add: Memory_entry_def Let_def delete_conv)
qed

section \<open>The bucket stays finite\<close>

definition sane_micro :: "int \<Rightarrow> bool" where
  "sane_micro t \<longleftrightarrow> \<bar>t\<bar> < 2 ^ 62"

lemma clamped_elapsed:
  assumes "sane_micro now" and "sane_micro l"
  shows "\<exists>n. wrap64 (now - (if now < l then now else l)) = n \<and> n = max 0 (now - l) \<and> is_int64 n"
proof -
  have "is_int64 (max 0 (now - l))" using assms by (auto simp: sane_micro_def is_int64_def abs_less_iff)
  then show ?thesis by (auto simp: max_def)
qed

lemma pos_float: "0 \<le> q \<Longrightarrow> (\<exists>d. round64 q = Fin d \<and> 0 \<le> d) \<or> round64 q = PosInf"
  by (cases q rule: round64_cases) (auto intro: round53_nonneg)

lemma refill_bounds:
  assumes "rep53 t" and "- (2 ^ 53) \<le> t" and "t \<le> b" and "rep53 b" and "0 \<le> l" and "sane_micro now" and "sane_micro l0"
  shows "\<exists>v. refill (Fin t) l0 (Fin l) (Fin b) now = Fin v \<and> rep53 v \<and> t \<le> v \<and> v \<le> b"
proof -
  obtain n where n: "wrap64 (now - (if now < l0 then now else l0)) = n" "n = max 0 (now - l0)" "is_int64 n"
    using clamped_elapsed [OF assms(6,7)] by blast
  define el where "el = round53 (of_int n)"
  have el: "0 \<le> el" "float_of_int n = Fin el"
    using n float_of_int_int64 [OF n(3)] by (auto simp: el_def intro!: round53_nonneg)
  have "0 \<le> l * el" using assms(5) el by simp
  then consider d where "round64 (l * el) = Fin d" "0 \<le> d" | "round64 (l * el) = PosInf"
    using pos_float by blast
  then show ?thesis
  proof cases
    case (1 d)
    have ge: "t \<le> round53 (t + d)" using assms(1) 1 by (intro round53_ge) auto
    show ?thesis
    proof (cases "t + d" rule: round64_cases)
      case fin
      then show ?thesis using 1 ge assms n el by (auto simp: refill_def Let_def)
    next
      case pos
      then show ?thesis using 1 assms n el by (auto simp: refill_def Let_def)
    next
      case neg
      then have "\<bar>t + d\<bar> \<le> 2 ^ 64" using assms(2) 1(2) by (simp add: abs_le_iff)
      then show ?thesis using round64_small neg by simp
    qed
  next
    case 2
    then show ?thesis using assms n el by (auto simp: refill_def Let_def)
  qed
qed

lemma round53_minus_one: "- (2 ^ 53) \<le> v \<Longrightarrow> - (2 ^ 53) \<le> round53 (v - 1)"
proof -
  assume v: "- (2 ^ 53) \<le> v"
  have "round53 (- (2 ^ 53) - 1) = - (2 ^ 53)" by code_simp
  moreover have "round53 (- (2 ^ 53) - 1) \<le> round53 (v - 1)" using v by (intro round53_mono) simp
  ultimately show ?thesis by simp
qed

lemma take_bounds:
  assumes "rep53 v" and "- (2 ^ 53) \<le> v" and "v \<le> b" and "b \<le> 2 ^ 63" and "rep53 b" and "0 \<le> l"
  shows "\<exists>t w. take_token (Fin l) (Fin b) md (Fin v) = (Fin t, w) \<and> rep53 t \<and> - (2 ^ 53) \<le> t \<and> t \<le> b
    \<and> ((\<exists>x. w = Fin x \<and> 0 \<le> x) \<or> w = PosInf)"
proof -
  let ?w = "round53 (v - 1)"
  have sub: "fsub (Fin v) (Fin 1) = Fin ?w"
    using assms by (simp add: fsub_def) (intro round64_small, simp add: abs_le_iff)
  have w: "- (2 ^ 53) \<le> ?w" "?w \<le> b" "rep53 ?w"
    using round53_minus_one [OF assms(2)] round53_le [of "v - 1" v] assms rep53_round53 by auto
  have add: "fadd (Fin ?w) (Fin 1) = Fin (round53 (?w + 1))"
    using w assms(4) by simp (intro round64_small, simp add: abs_le_iff)
  have r: "?w \<le> round53 (?w + 1)" "rep53 (round53 (?w + 1))"
    using round53_ge [of ?w "?w + 1"] w rep53_round53 by auto
  have wait: "(\<exists>x. fdiv (Fin (- ?w)) (Fin l) = Fin x \<and> 0 \<le> x) \<or> fdiv (Fin (- ?w)) (Fin l) = PosInf" if "?w < 0"
    using that assms(6) pos_float [of "- ?w / l"] by (auto simp: finf_def divide_nonpos_nonneg)
  show ?thesis
    using sub add w r wait assms by (auto simp: take_token_def Let_def)
qed

section \<open>The invariant of the store\<close>

definition valid_clock :: "clockConfig \<Rightarrow> bool" where
  "valid_clock clk \<longleftrightarrow> (\<exists>r. clk_rate clk = Fin r \<and> 0 < r \<and> r < pow2 1024) \<and> 1 \<le> clk_burst clk \<and> is_int64 (clk_burst clk)
     \<and> 0 \<le> clk_maxDelay clk \<and> Second \<le> clk_ttl clk"

definition bucket_ok :: "rat \<Rightarrow> bucketEntry \<Rightarrow> bool" where
  "bucket_ok b e \<longleftrightarrow> (\<exists>t. bkt_tokens e = Fin t \<and> rep53 t \<and> - (2 ^ 53) \<le> t \<and> t \<le> b) \<and> sane_micro (bkt_last e)"

definition mem_inv :: "Memory \<Rightarrow> bool" where
  "mem_inv m \<longleftrightarrow> valid_clock (mem_clock m) \<and> wf_map (mem_buckets m) \<and> go_len (mem_buckets m) \<le> maxBucketSources
     \<and> (\<exists>b. float_of_int (clk_burst (mem_clock m)) = Fin b \<and> (\<forall>k e. go_get (mem_buckets m) k = Some e \<longrightarrow> bucket_ok b e))"

lemma valid_clock_burst:
  "valid_clock clk \<Longrightarrow> \<exists>b. float_of_int (clk_burst clk) = Fin b \<and> rep53 b \<and> 1 \<le> b \<and> b \<le> 2 ^ 63"
  using float_of_int_pos [of "clk_burst clk"] by (simp add: valid_clock_def)

lemma valid_clock_limit: "valid_clock clk \<Longrightarrow> \<exists>l. limitPerMicro clk = Fin l \<and> 0 \<le> l \<and> rep53 l"
proof -
  assume "valid_clock clk"
  then obtain r where r: "clk_rate clk = Fin r" "0 < r" "r < pow2 1024" by (auto simp: valid_clock_def)
  have "pow2 1024 = 2 * pow2 1023" using pow2_Suc [of 1023] by simp
  then have "\<bar>r / 1000000\<bar> \<le> pow2 1023" using r by simp
  then have "limitPerMicro clk = Fin (round53 (r / 1000000))" using r by (simp add: limitPerMicro_def round64_bounded)
  then show ?thesis using r rep53_round53 round53_nonneg [of "r / 1000000"] by auto
qed

lemma bucket_allow_ok:
  assumes "valid_clock clk" and "float_of_int (clk_burst clk) = Fin b" and "bucket_ok b e" and "sane_micro (time_unix_micro now)"
  shows "bucket_ok b (fst (bucket_allow oor clk now e))"
proof -
  obtain t where t: "bkt_tokens e = Fin t" "rep53 t" "- (2 ^ 53) \<le> t" "t \<le> b" and l0: "sane_micro (bkt_last e)"
    using assms(3) by (auto simp: bucket_ok_def)
  obtain l where l: "limitPerMicro clk = Fin l" "0 \<le> l" using valid_clock_limit [OF assms(1)] by blast
  have b: "rep53 b" "b \<le> 2 ^ 63" using valid_clock_burst [OF assms(1)] assms(2) by auto
  obtain v where v: "refill (Fin t) (bkt_last e) (Fin l) (Fin b) (time_unix_micro now) = Fin v" "rep53 v" "t \<le> v" "v \<le> b"
    using refill_bounds [OF t(2-4) b(1) l(2) assms(4) l0] by blast
  then obtain t' w where w: "take_token (Fin l) (Fin b) (Microseconds (clk_maxDelay clk)) (Fin v) = (Fin t', w)"
      "rep53 t'" "- (2 ^ 53) \<le> t'" "t' \<le> b"
    using take_bounds [of v b l "Microseconds (clk_maxDelay clk)"] t(3) b l(2) by auto
  show ?thesis
    using t l v w assms(2,4) l0 by (simp add: bucket_allow_def consumeOne_def bucket_ok_def Let_def)
qed

lemma full_bucket_ok:
  "valid_clock clk \<Longrightarrow> float_of_int (clk_burst clk) = Fin b \<Longrightarrow> sane_micro (time_unix_micro now) \<Longrightarrow>
   bucket_ok b (full_bucket clk now)"
  using valid_clock_burst [of clk] by (auto simp: bucket_ok_def full_bucket_def)

lemma Memory_Allow_inv:
  assumes "mem_inv m" and "sane_micro (time_unix_micro now)"
  shows "mem_inv (fst (Memory_Allow oor ctxErr c now key m))"
proof (cases ctxErr)
  case None
  let ?clk = "mem_clock m"
  obtain b where b: "float_of_int (clk_burst ?clk) = Fin b" "\<And>k e. go_get (mem_buckets m) k = Some e \<Longrightarrow> bucket_ok b e"
    and clk: "valid_clock ?clk" and wf: "wf_map (mem_buckets m)" and len: "go_len (mem_buckets m) \<le> maxBucketSources"
    using assms(1) by (auto simp: mem_inv_def)
  let ?l = "Memory_entry ?clk c key now (mem_buckets m)"
  have "bucket_ok b (fst ?l)"
    using bucket_map.load_fst [OF wf, of ?clk c key now] b(2) [of key] full_bucket_ok [OF clk b(1) assms(2)]
    by (auto split: option.splits if_splits)
  then have ok: "bucket_ok b (fst (bucket_allow oor ?clk now (fst ?l)))"
    by (rule bucket_allow_ok [OF clk b(1) _ assms(2)])
  have "go_get (snd ?l) k = Some e \<Longrightarrow> k \<noteq> key \<Longrightarrow> bucket_ok b e" for k e
    using bucket_map.load_other [OF wf] b(2) by blast
  then have "mem_inv (m\<lparr>mem_buckets := go_set key (fst (bucket_allow oor ?clk now (fst ?l))) (snd ?l)\<rparr>)"
    using ok clk b(1) bucket_map.load_wf [OF wf] bucket_map.load_len [OF wf len] bucket_map.load_get [OF wf]
    by (auto simp: mem_inv_def go_len_set update_conv)
  then show ?thesis using None by (simp add: Memory_Allow_def case_prod_beta)
qed (use assms in \<open>simp add: Memory_Allow_def\<close>)

record 'x mem_call =
  call_ctxErr :: "'x option"
  call_choice :: nat
  call_now :: instant
  call_key :: string

fun mem_run :: "int \<Rightarrow> 'x mem_call list \<Rightarrow> Memory \<Rightarrow> Memory \<times> (bool \<times> duration \<times> 'x option) list" where
  "mem_run oor [] m = (m, [])"
| "mem_run oor (call # calls) m =
     (case Memory_Allow oor (call_ctxErr call) (call_choice call) (call_now call) (call_key call) m of (m1, r) \<Rightarrow>
        case mem_run oor calls m1 of (m2, rs) \<Rightarrow> (m2, r # rs))"

lemma mem_run_inv:
  "mem_inv m \<Longrightarrow> \<forall>call \<in> set calls. sane_micro (time_unix_micro (call_now call)) \<Longrightarrow> mem_inv (fst (mem_run oor calls m))"
proof (induction calls arbitrary: m)
  case (Cons call calls)
  have "mem_inv (fst (Memory_Allow oor (call_ctxErr call) (call_choice call) (call_now call) (call_key call) m))"
    using Cons.prems by (intro Memory_Allow_inv) auto
  from Cons.IH [OF this] show ?case using Cons.prems by (simp add: case_prod_beta)
qed simp

lemma NewMemory_inv:
  assumes "NewMemory (Fin r) burst maxDelay ttl = Inr m" and "r < pow2 1024" and "is_int64 burst"
  shows "mem_inv m" and "mem_buckets m = []"
    and "mem_clock m = \<lparr>clk_rate = Fin r, clk_burst = burst, clk_maxDelay = maxDelay, clk_ttl = ttl\<rparr>"
proof -
  have m: "m = \<lparr>mem_clock = \<lparr>clk_rate = Fin r, clk_burst = burst, clk_maxDelay = maxDelay, clk_ttl = ttl\<rparr>, mem_buckets = []\<rparr>"
    and v: "validateClock (Fin r) burst maxDelay ttl = None"
    using assms(1) by (auto simp: NewMemory_def split: option.splits)
  show "mem_buckets m = []" "mem_clock m = \<lparr>clk_rate = Fin r, clk_burst = burst, clk_maxDelay = maxDelay, clk_ttl = ttl\<rparr>"
    using m by simp_all
  have "valid_clock (mem_clock m)"
    using v assms(2,3) by (auto simp: m validateClock_def valid_clock_def split: if_splits)
  then show "mem_inv m" using valid_clock_burst [of "mem_clock m"] by (auto simp: mem_inv_def m)
qed

text \<open>
  C19: The in-process buckets stay finite and bounded. After any sequence of \<open>Allow\<close> calls on a new
  store, on any keys, with contexts that may have ended and a clock that may jump in either direction
  (within 146000 years of the epoch), the map holds at most 65536 buckets and every bucket's tokens
  are a finite \<open>float64\<close> between \<open>-2 ^ 53\<close> and the burst: never NaN, infinite or above the burst.
\<close>

theorem memory_runs_keep_invariant:
  assumes "NewMemory (Fin r) burst maxDelay ttl = Inr m" and "r < pow2 1024" and "is_int64 burst"
    and "\<forall>call \<in> set calls. sane_micro (time_unix_micro (call_now call))"
  shows "mem_inv (fst (mem_run oor calls m))"
  using mem_run_inv [OF NewMemory_inv(1) [OF assms(1-3)] assms(4)] .

definition unit_memory :: Memory where
  "unit_memory = \<lparr>mem_clock = \<lparr>clk_rate = Fin 1, clk_burst = 1, clk_maxDelay = 0, clk_ttl = 10 * Second\<rparr>, mem_buckets = []\<rparr>"

lemma unit_memory_New: "NewMemory (Fin 1) 1 0 (10 * Second) = Inr unit_memory"
  by code_simp

lemma one_less_pow2: "1 < pow2 1024"
  using pow2_less [of 0 1024] by simp

theorem memory_runs_keep_invariant_witness:
  "mem_inv (fst (mem_run 0 [\<lparr>call_ctxErr = None :: unit option, call_choice = 0, call_now = 5, call_key = ''k''\<rparr>] unit_memory))"
  by (rule memory_runs_keep_invariant [OF unit_memory_New one_less_pow2])
    (auto simp: is_int64_def sane_micro_def time_unix_micro_def Microsecond_def)

section \<open>The script computes the same consume\<close>

lemma float_of_int_sub:
  "\<bar>a\<bar> \<le> 2 ^ 53 \<Longrightarrow> \<bar>b\<bar> \<le> 2 ^ 53 \<Longrightarrow> fsub (float_of_int a) (float_of_int b) = float_of_int (a - b)"
  by (simp add: float_of_int_exact fsub_def) (simp add: float_of_int_def)

lemma float_of_int_less:
  "\<bar>a\<bar> \<le> 2 ^ 53 \<Longrightarrow> \<bar>b\<bar> \<le> 2 ^ 53 \<Longrightarrow> fless (float_of_int a) (float_of_int b) \<longleftrightarrow> a < b"
  by (simp add: float_of_int_exact)

lemma fadd_result: "fadd x y = Fin q \<Longrightarrow> y = Fin c \<Longrightarrow> \<exists>a. round64 a = Fin q"
  by (cases x) auto

lemma fmul_minus_one: "t = fsub x (Fin 1) \<Longrightarrow> fmul t (Fin (- 1)) = fneg t"
proof (cases t)
  case (Fin q)
  assume "t = fsub x (Fin 1)"
  then obtain a where a: "round64 a = Fin q" using fadd_result [of x "Fin (- 1)" q] Fin by (auto simp: fsub_def)
  then have "round53 q = q" "clamp q = Fin q"
    by (cases a rule: round64_cases; simp add: round53_exact round64_def)+
  then have "round64 (- q) = Fin (- q)"
    unfolding round64_def round53_minus clamp_def abs_minus_cancel by (auto simp only: finf_def split: if_splits)
  then show ?thesis using Fin by simp
qed (auto simp: finf_def)

text \<open>
  C20: Redis and memory compute the same bucket. For instants within \<open>2 ^ 53\<close> microseconds of the epoch
  (285 years) the formulas of the Redis script, on doubles throughout, give bit for bit the tokens, the
  persisted last instant and the wait of \<open>consumeOne\<close> with its 64-bit instants, for a stored bucket and
  for a missing one, which both seed full at the current instant.
\<close>

theorem lua_agrees_with_consumeOne:
  assumes "\<bar>t\<bar> \<le> 2 ^ 53" and "\<bar>l\<bar> \<le> 2 ^ 53"
  shows "(case consumeOne tokens l limit burst t md of (tokens', l', w) \<Rightarrow>
      lua_script (Some (float_of_int l, tokens)) limit burst (float_of_int t) (float_of_int md) = (w, float_of_int l', tokens'))
    \<and> lua_script None limit burst (float_of_int t) (float_of_int md)
        = lua_script (Some (float_of_int t, burst)) limit burst (float_of_int t) (float_of_int md)"
proof -
  define L where "L = (if t < l then t else l)"
  have last: "(if fless (float_of_int t) (float_of_int l) then float_of_int t else float_of_int l) = float_of_int L"
    using float_of_int_less [OF assms] by (simp add: L_def)
  have "is_int64 (t - L)" using assms by (auto simp: L_def is_int64_def abs_le_iff)
  moreover have "fsub (float_of_int t) (float_of_int L) = float_of_int (t - L)"
    using assms by (intro float_of_int_sub) (auto simp: L_def)
  ultimately have el: "fsub (float_of_int t) (float_of_int L) = float_of_int (wrap64 (t - L))" by simp
  have pers: "(if fless (float_of_int l) (float_of_int t) then float_of_int t else float_of_int l)
      = float_of_int (if t < l then l else t)"
    using float_of_int_less [OF assms(2,1)] by auto
  define v where "v = refill tokens l limit burst t"
  have v: "fmin (fadd tokens (fmul limit (float_of_int (wrap64 (t - L))))) burst = v"
    by (simp add: v_def refill_def fmin_def Let_def L_def)
  have m: "fmul (fsub v (Fin 1)) (Fin (- 1)) = fneg (fsub v (Fin 1))" using fmul_minus_one by simp
  have "lua_script (Some (float_of_int l, tokens)) limit burst (float_of_int t) (float_of_int md)
      = (case take_token limit burst md v of (tokens', w) \<Rightarrow> (w, float_of_int (if t < l then l else t), tokens'))"
    unfolding lua_script_def Let_def option.case prod.case last el v m pers
    by (simp add: take_token_def fmin_def Let_def)
  moreover have "lua_script None limit burst (float_of_int t) (float_of_int md)
      = lua_script (Some (float_of_int t, burst)) limit burst (float_of_int t) (float_of_int md)"
    by (simp add: lua_script_def)
  ultimately show ?thesis unfolding consumeOne_def v_def [symmetric] by (simp add: case_prod_beta)
qed

theorem lua_agrees_with_consumeOne_witness:
  "lua_script None (Fin (1 / 4)) (Fin 2) (float_of_int 7) (float_of_int 0)
     = lua_script (Some (float_of_int 7, Fin 2)) (Fin (1 / 4)) (Fin 2) (float_of_int 7) (float_of_int 0)"
  using lua_agrees_with_consumeOne [of 7 7 "Fin 2" "Fin (1 / 4)" "Fin 2" 0] by simp

section \<open>A burst at one instant\<close>

lemma refill_same:
  assumes "rep53 t" and "\<bar>t\<bar> \<le> 2 ^ 64" and "t \<le> b" and "limit = Fin l" and "rep53 b"
  shows "refill (Fin t) now limit (Fin b) now = Fin t"
proof -
  have "float_of_int 0 = Fin 0" by (simp add: float_of_int_exact)
  moreover have "round64 0 = Fin 0" using round64_of_int [of 0] by simp
  moreover have "round64 t = Fin t" using round64_small [OF assms(2)] round53_exact [OF assms(1)] by simp
  ultimately show ?thesis using assms(3,4) by (simp add: refill_def)
qed

lemma wait_refunds:
  assumes "0 \<le> md" and "md \<le> 2 ^ 53" and "md < waitDuration oor w" and "w \<noteq> NaN"
  shows "fless (float_of_int (Microseconds md)) w"
proof (rule ccontr)
  assume not: "\<not> fless (float_of_int (Microseconds md)) w"
  let ?m = "md div 1000"
  have m: "Microseconds md = ?m" using assms(1) by (simp add: Microseconds_def sdiv_nonneg)
  have fm: "float_of_int ?m = Fin (of_int ?m)" using assms(1,2) by (intro float_of_int_exact) auto
  have thou: "float_of_int Microsecond = Fin 1000" using float_of_int_exact [of 1000] by (simp add: Microsecond_def)
  consider "w = NegInf" | x where "w = Fin x" "x \<le> of_int ?m" "0 < x" | x where "w = Fin x" "x \<le> 0"
    using not assms(4) by (cases w; cases "fle w (Fin 0)") (auto simp: m fm not_less not_le)
  then show False
  proof cases
    case 1
    then show False using assms by (simp add: waitDuration_def)
  next
    case 2
    have "x * 1000 \<le> of_int (?m * 1000)" using 2 by simp
    moreover have "\<bar>?m * 1000\<bar> \<le> 2 ^ 53" using assms(1,2) by auto
    ultimately have r: "round53 (x * 1000) \<le> of_int (?m * 1000)" by (intro round53_le rep53_int)
    have "(of_int (?m * 1000) :: rat) \<le> of_int md" unfolding of_int_le_iff by simp
    then have "round53 (x * 1000) \<le> of_int md" using r by linarith
    moreover have "0 \<le> round53 (x * 1000)" using 2 by (intro round53_nonneg) simp
    ultimately have tr: "trunc (round53 (x * 1000)) \<le> md" "0 \<le> trunc (round53 (x * 1000))"
      by (auto simp: trunc_def floor_le_iff)
    have "(of_int (?m * 1000) :: rat) \<le> of_int (2 ^ 53)" unfolding of_int_le_iff using assms(1,2) by auto
    then have "x * 1000 \<le> 2 ^ 64" using \<open>x * 1000 \<le> of_int (?m * 1000)\<close> by simp
    then have "round64 (x * 1000) = Fin (round53 (x * 1000))" using 2 by (intro round64_small) (simp add: abs_le_iff)
    then have "waitDuration oor w = trunc (round53 (x * 1000))"
      using 2 tr assms(2) by (simp add: waitDuration_def thou int_of_float_def is_int64_def)
    then show False using tr assms(3) by simp
  next
    case 3
    then show False using assms by (simp add: waitDuration_def)
  qed
qed

definition same_call :: "nat \<Rightarrow> instant \<Rightarrow> string \<Rightarrow> 'x mem_call" where
  "same_call c now key = \<lparr>call_ctxErr = None, call_choice = c, call_now = now, call_key = key\<rparr>"

definition one_wait :: "clockConfig \<Rightarrow> float64" where
  "one_wait clk = fdiv (Fin 1) (limitPerMicro clk)"

lemma one_wait_not_NaN: "valid_clock clk \<Longrightarrow> one_wait clk \<noteq> NaN"
  using valid_clock_limit [of clk] by (auto simp: one_wait_def finf_def split: if_splits)

lemma int_sub_one: "\<bar>k - 1\<bar> \<le> 2 ^ 53 \<Longrightarrow> fsub (Fin (of_int k)) (Fin 1) = Fin (of_int (k - 1))"
  using round64_of_int [of "k - 1"] by (simp add: fsub_def)

lemma refill_same_int:
  assumes "limit = Fin l" and "0 \<le> k" and "k \<le> B" and "B \<le> 2 ^ 53"
  shows "refill (Fin (of_int k)) t limit (Fin (of_int B)) t = Fin (of_int k)"
proof -
  have "(of_int k :: rat) \<le> of_int (2 ^ 53)" unfolding of_int_le_iff using assms by simp
  then have "\<bar>of_int k :: rat\<bar> \<le> 2 ^ 64" using assms by simp
  then show ?thesis using assms rep53_int [of k] rep53_int [of B] by (intro refill_same [where l = l]) auto
qed

lemma bucket_same_instant:
  assumes "valid_clock clk" and "clk_burst clk = B" and "B \<le> 2 ^ 53" and "clk_maxDelay clk \<le> 2 ^ 53"
    and "clk_maxDelay clk < waitDuration oor (one_wait clk)"
    and "bkt_tokens e = Fin (of_int k)" and "0 \<le> k" and "k \<le> B" and "bkt_last e = time_unix_micro now"
  shows "bucket_allow oor clk now e =
    (e\<lparr>bkt_tokens := Fin (of_int (max 0 (k - 1))), bkt_expireAt := now + clk_ttl clk\<rparr>,
     if 0 < k then (True, 0) else (False, waitDuration oor (one_wait clk)))"
proof -
  obtain l where l: "limitPerMicro clk = Fin l" "0 \<le> l" using valid_clock_limit [OF assms(1)] by blast
  have B: "1 \<le> B" "0 \<le> clk_maxDelay clk" using assms(1,2) by (auto simp: valid_clock_def)
  have fB: "float_of_int B = Fin (of_int B)" using B assms(3) by (intro float_of_int_exact) simp
  have re: "refill (bkt_tokens e) (bkt_last e) (limitPerMicro clk) (float_of_int B) (time_unix_micro now) = Fin (of_int k)"
    using refill_same_int [OF l(1) assms(7,8,3)] assms(6,9) fB by simp
  show ?thesis
  proof (cases "0 < k")
    case True
    then have "fsub (Fin (of_int k)) (Fin 1) = Fin (of_int (k - 1))" using assms(3,8) by (intro int_sub_one) simp
    moreover have "\<not> (of_int (k - 1) :: rat) < 0" using True by simp
    ultimately show ?thesis
      using True re B assms(2,9) by (simp add: bucket_allow_def consumeOne_def take_token_def Let_def waitDuration_def allowedFromWait_def)
  next
    case False
    with assms(7) have k: "k = 0" by simp
    have m1: "fsub (Fin 0) (Fin 1) = Fin (- 1)" "fadd (Fin (- 1)) (Fin 1) = Fin 0"
      using int_sub_one [of 0] round64_of_int [of 0] by simp_all
    have "fless (float_of_int (Microseconds (clk_maxDelay clk))) (one_wait clk)"
      using wait_refunds [OF B(2) assms(4,5) one_wait_not_NaN [OF assms(1)]] .
    then have "take_token (limitPerMicro clk) (float_of_int B) (Microseconds (clk_maxDelay clk)) (Fin 0) = (Fin 0, one_wait clk)"
      using m1 B fB by (simp add: take_token_def one_wait_def Let_def)
    then show ?thesis
      using False re k assms(2,5,9) by (simp add: bucket_allow_def consumeOne_def Let_def allowedFromWait_def)
  qed
qed

lemma allow_seen:
  assumes "wf_map (mem_buckets m)"
    and "e = (case go_get (mem_buckets m) key of Some e \<Rightarrow> if now < bkt_expireAt e then e else full_bucket (mem_clock m) now
              | None \<Rightarrow> full_bucket (mem_clock m) now)"
    and "bucket_allow oor (mem_clock m) now e = (e', allowed, wait)"
  shows "\<exists>m'. Memory_Allow oor (None :: 'x option) c now key m = (m', allowed, wait, None) \<and> mem_clock m' = mem_clock m
    \<and> wf_map (mem_buckets m') \<and> go_get (mem_buckets m') key = Some e'"
proof -
  let ?l = "Memory_entry (mem_clock m) c key now (mem_buckets m)"
  have e: "fst ?l = e" using bucket_map.load_fst [OF assms(1)] assms(2) by simp
  have "Memory_Allow oor (None :: 'x option) c now key m = (m\<lparr>mem_buckets := go_set key e' (snd ?l)\<rparr>, allowed, wait, None)"
    using assms(3) by (simp add: Memory_Allow_def case_prod_beta e)
  then show ?thesis using bucket_map.load_wf [OF assms(1)] by (simp add: update_conv)
qed

lemma burst_from:
  assumes "valid_clock (mem_clock m)" and "clk_burst (mem_clock m) = int B" and "int B \<le> 2 ^ 53"
    and "clk_maxDelay (mem_clock m) \<le> 2 ^ 53"
    and "clk_maxDelay (mem_clock m) < waitDuration oor (one_wait (mem_clock m))"
    and "wf_map (mem_buckets m)" and "k \<le> B"
    and "e = (case go_get (mem_buckets m) key of Some e \<Rightarrow> if now < bkt_expireAt e then e else full_bucket (mem_clock m) now
              | None \<Rightarrow> full_bucket (mem_clock m) now)"
    and "bkt_tokens e = Fin (of_int (int k))" and "bkt_last e = time_unix_micro now"
  shows "snd (mem_run oor (replicate n (same_call c now key)) m)
    = replicate (min n k) (True, 0, None) @ replicate (n - k) (False, waitDuration oor (one_wait (mem_clock m)), None)"
  using assms
proof (induction n arbitrary: m k e)
  case (Suc n)
  let ?clk = "mem_clock m"
  let ?e = "e\<lparr>bkt_tokens := Fin (of_int (max 0 (int k - 1))), bkt_expireAt := now + clk_ttl ?clk\<rparr>"
  have b: "bucket_allow oor ?clk now e = (?e, if 0 < k then (True, 0) else (False, waitDuration oor (one_wait ?clk)))"
    using bucket_same_instant [OF Suc.prems(1-5,9) _ _ Suc.prems(10)] Suc.prems(7) by simp
  then have b': "bucket_allow oor ?clk now e
      = (?e, fst (snd (bucket_allow oor ?clk now e)), snd (snd (bucket_allow oor ?clk now e)))" by simp
  obtain m' where m': "Memory_Allow oor None c now key m
        = (m', fst (snd (bucket_allow oor ?clk now e)), snd (snd (bucket_allow oor ?clk now e)), None :: 'a option)"
      "mem_clock m' = ?clk" "wf_map (mem_buckets m')" "go_get (mem_buckets m') key = Some ?e"
    using allow_seen [where ?'x = 'a, OF Suc.prems(6,8) b', of c] by blast
  have "now < now + clk_ttl ?clk" using Suc.prems(1) by (simp add: valid_clock_def Second_def)
  then have "snd (mem_run oor (replicate n (same_call c now key :: 'a mem_call)) m')
      = replicate (min n (k - 1)) (True, 0, None) @ replicate (n - (k - 1)) (False, waitDuration oor (one_wait ?clk), None)"
    using Suc.prems m' by (intro Suc.IH [of m' "k - 1" ?e, unfolded m'(2)]) auto
  moreover have "snd (mem_run oor (replicate (Suc n) (same_call c now key :: 'a mem_call)) m)
      = (fst (snd (bucket_allow oor ?clk now e)), snd (snd (bucket_allow oor ?clk now e)), None)
        # snd (mem_run oor (replicate n (same_call c now key)) m')"
    using m'(1) by (simp add: same_call_def case_prod_beta)
  ultimately show ?case using b by (cases k) auto
qed simp

text \<open>
  C21: A full bucket admits exactly its burst. On a new store with a burst of at most \<open>2 ^ 53\<close>, when one
  token takes longer to refill than \<open>maxDelay\<close> (both in whole nanoseconds, as \<open>Allow\<close> compares them),
  any number of calls for one key at one instant are admitted without a wait until the burst is used
  up, and from then on every call is denied with the wait of one token: a denied consume is refunded and
  never stacks.
\<close>

theorem burst_exact:
  assumes "NewMemory (Fin r) (int B) maxDelay ttl = Inr m" and "r < pow2 1024" and "int B \<le> 2 ^ 53" and "maxDelay \<le> 2 ^ 53"
    and "maxDelay < waitDuration oor (one_wait (mem_clock m))"
  shows "snd (mem_run oor (replicate n (same_call c now key)) m)
    = replicate (min n B) (True, 0, None) @ replicate (n - B) (False, waitDuration oor (one_wait (mem_clock m)), None)"
proof -
  have "is_int64 (int B)" using assms(3) by (simp add: is_int64_def)
  note new = NewMemory_inv [OF assms(1,2) this]
  have "valid_clock (mem_clock m)" "wf_map (mem_buckets m)" using new(1) by (auto simp: mem_inv_def)
  moreover have "float_of_int (int B) = Fin (of_int (int B))" using assms(3) by (intro float_of_int_exact) simp
  ultimately show ?thesis
    using assms new(2,3) by (intro burst_from [OF _ _ _ _ _ _ order_refl refl]) (auto simp: full_bucket_def)
qed

theorem burst_exact_witness:
  "snd (mem_run 0 (replicate 3 (same_call 0 5 ''k'')) unit_memory)
     = [(True, 0, None :: unit option), (False, 1000000000, None), (False, 1000000000, None)]"
proof -
  have new: "NewMemory (Fin 1) (int 1) 0 (10 * Second) = Inr unit_memory" using unit_memory_New by simp
  have w: "waitDuration 0 (one_wait (mem_clock unit_memory)) = 1000000000" by code_simp
  have "snd (mem_run 0 (replicate 3 (same_call 0 5 ''k'')) unit_memory)
      = replicate (min 3 1) (True, 0, None) @ replicate (3 - 1) (False, waitDuration 0 (one_wait (mem_clock unit_memory)), None :: unit option)"
    by (rule burst_exact [OF new one_less_pow2]) (simp_all add: w)
  then show ?thesis by (simp add: w numeral_eq_Suc)
qed

section \<open>Refunded yet admitted\<close>

text \<open>
  \<open>consumeOne\<close> refunds when the wait exceeds \<open>maxDelay\<close> in fractional microseconds; \<open>Allow\<close> then
  compares the wait cut to whole nanoseconds. A wait that exceeds \<open>maxDelay\<close> by less than a
  nanosecond is refunded and admitted.
\<close>

lemma refunded_fixpoint:
  assumes "valid_clock (mem_clock m)" and "wf_map (mem_buckets m)"
    and "float_of_int (clk_burst (mem_clock m)) = Fin b" and "rep53 b"
    and "limitPerMicro (mem_clock m) = Fin l" and "rep53 t" and "\<bar>t\<bar> \<le> 2 ^ 64" and "t \<le> b"
    and "take_token (Fin l) (Fin b) (Microseconds (clk_maxDelay (mem_clock m))) (Fin t) = (Fin t, w)"
    and "waitDuration oor w \<le> clk_maxDelay (mem_clock m)"
    and "go_get (mem_buckets m) key = Some e" and "now < bkt_expireAt e" and "bkt_tokens e = Fin t"
    and "bkt_last e = time_unix_micro now"
  shows "snd (mem_run oor (replicate n (same_call c now key)) m) = replicate n (True, waitDuration oor w, None)"
  using assms
proof (induction n arbitrary: m e)
  case (Suc n)
  let ?clk = "mem_clock m" and ?e = "e\<lparr>bkt_expireAt := now + clk_ttl (mem_clock m)\<rparr>"
  have "refill (Fin t) (time_unix_micro now) (Fin l) (Fin b) (time_unix_micro now) = Fin t"
    using Suc.prems(6-8,4) by (intro refill_same [where l = l]) auto
  then have b: "bucket_allow oor ?clk now e = (?e, True, waitDuration oor w)"
    using Suc.prems by (simp add: bucket_allow_def consumeOne_def allowedFromWait_def Let_def)
  have e: "e = (case go_get (mem_buckets m) key of Some e \<Rightarrow> if now < bkt_expireAt e then e else full_bucket ?clk now
              | None \<Rightarrow> full_bucket ?clk now)"
    using Suc.prems(11,12) by simp
  obtain m' where m': "Memory_Allow oor (None :: 'a option) c now key m = (m', True, waitDuration oor w, None)"
      "mem_clock m' = ?clk" "wf_map (mem_buckets m')" "go_get (mem_buckets m') key = Some ?e"
    using allow_seen [where ?'x = 'a, OF Suc.prems(2) e b, of c] by blast
  have "now < now + clk_ttl ?clk" using Suc.prems(1) by (simp add: valid_clock_def Second_def)
  then have "snd (mem_run oor (replicate n (same_call c now key :: 'a mem_call)) m') = replicate n (True, waitDuration oor w, None)"
    using Suc.prems m' by (intro Suc.IH [of m' ?e, unfolded m'(2)]) auto
  then show ?case using m'(1) by (simp add: same_call_def case_prod_beta)
qed simp

text \<open>The entry of a key after one more call.\<close>

lemma unit_call:
  assumes "m = unit_memory\<lparr>mem_buckets := [(''k'', e)]\<rparr>" and "now < bkt_expireAt e"
    and "consumeOne (bkt_tokens e) (bkt_last e) (limitPerMicro (mem_clock unit_memory)) (Fin 1) (time_unix_micro now) 0 = (t, l, w)"
  shows "Memory_Allow oor None 0 now ''k'' m
    = (unit_memory\<lparr>mem_buckets := [(''k'', \<lparr>bkt_tokens = t, bkt_last = l, bkt_expireAt = now + 10 * Second\<rparr>)]\<rparr>,
       waitDuration oor w \<le> 0, waitDuration oor w, None)"
proof -
  have "float_of_int 1 = Fin 1" using float_of_int_exact [of 1] by simp
  then show ?thesis
    using assms by (simp add: Memory_Allow_def Memory_entry_def bucket_allow_def unit_memory_def Microseconds_def
        allowedFromWait_def Let_def)
qed

text \<open>The roundings of three calls at rate 1, burst 1 and no delay, at 0 s, 0.057 s and 1 s.\<close>

lemma unit_limit: "limitPerMicro (mem_clock unit_memory) = Fin (4722366482869645 / 4722366482869645213696)"
  by code_simp

lemma unit_roundings:
  "round64 (4722366482869645 / 4722366482869645213696 * 57000) = Fin (1026820715040473 / 18014398509481984)"
  "round64 (1026820715040473 / 18014398509481984) = Fin (1026820715040473 / 18014398509481984)"
  "round64 (1026820715040473 / 18014398509481984 - 1) = Fin (- 2123447224305189 / 2251799813685248)"
  "round64 (2123447224305189 / 2251799813685248 / (4722366482869645 / 4722366482869645213696)) = Fin (8100308320256001 / 8589934592)"
  "round64 (- 2123447224305189 / 2251799813685248 + 1) = Fin (128352589380059 / 2251799813685248)"
  "round64 (4722366482869645 / 4722366482869645213696 * 943000) = Fin (8493788897220755 / 9007199254740992)"
  "round64 (128352589380059 / 2251799813685248 + 8493788897220755 / 9007199254740992) = Fin (9007199254740991 / 9007199254740992)"
  "round64 (9007199254740991 / 9007199254740992 - 1) = Fin (- 1 / 9007199254740992)"
  "round64 (1 / 9007199254740992 / (4722366482869645 / 4722366482869645213696)) = Fin (15625 / 140737488355328)"
  "round64 (- 1 / 9007199254740992 + 1) = Fin (9007199254740991 / 9007199254740992)"
  "round64 (15625 / 140737488355328 * 1000) = Fin (1953125 / 17592186044416)"
  by code_simp+

lemmas unit_eval = unit_limit unit_roundings consumeOne_def refill_def take_token_def fsub_def Let_def time_unix_micro_def
  Microsecond_def is_int64_def float_of_int_exact

lemma round64_zero [simp]: "round64 0 = Fin 0"
  using round64_of_int [of 0] by simp

lemma unit_call_1:
  "consumeOne (Fin 1) 0 (limitPerMicro (mem_clock unit_memory)) (Fin 1) (time_unix_micro 0) 0 = (Fin 0, 0, Fin 0)"
  using round64_of_int [of 1] by (simp add: unit_eval)

lemma unit_call_2:
  "consumeOne (Fin 0) 0 (limitPerMicro (mem_clock unit_memory)) (Fin 1) (time_unix_micro 57000000) 0
     = (Fin (128352589380059 / 2251799813685248), 57000, Fin (8100308320256001 / 8589934592))"
  using unit_roundings by (simp add: unit_eval)

lemma unit_call_3:
  "consumeOne (Fin (128352589380059 / 2251799813685248)) 57000 (limitPerMicro (mem_clock unit_memory)) (Fin 1)
     (time_unix_micro Second) 0
     = (Fin (9007199254740991 / 9007199254740992), 1000000, Fin (15625 / 140737488355328))"
  using unit_roundings by (simp add: unit_eval Second_def)

lemma unit_take:
  "take_token (Fin (4722366482869645 / 4722366482869645213696)) (Fin 1) 0 (Fin (9007199254740991 / 9007199254740992))
     = (Fin (9007199254740991 / 9007199254740992), Fin (15625 / 140737488355328))"
  using unit_roundings by (simp add: unit_eval)

lemma unit_waits:
  "waitDuration oor (Fin 0) = 0"
  "waitDuration oor (Fin (8100308320256001 / 8589934592)) = 943000000"
  "waitDuration oor (Fin (15625 / 140737488355328)) = 0"
proof -
  have "round64 (8100308320256001 / 8589934592 * 1000) = Fin (7910457344000001 / 8388608)" by code_simp
  moreover have "\<lfloor>7910457344000001 / 8388608 :: rat\<rfloor> = 943000000" by (rule floor_unique) simp_all
  ultimately show "waitDuration oor (Fin (8100308320256001 / 8589934592)) = 943000000"
    by (simp add: waitDuration_def Microsecond_def float_of_int_exact int_of_float_def trunc_def is_int64_def)
  have "\<lfloor>1953125 / 17592186044416 :: rat\<rfloor> = 0" by (rule floor_unique) simp_all
  then show "waitDuration oor (Fin (15625 / 140737488355328)) = 0"
    using unit_roundings(11)
    by (simp add: waitDuration_def Microsecond_def float_of_int_exact int_of_float_def trunc_def is_int64_def)
qed (simp add: waitDuration_def)

lemma unit_first:
  "Memory_Allow oor None 0 0 ''k'' unit_memory
    = (unit_memory\<lparr>mem_buckets := [(''k'', \<lparr>bkt_tokens = Fin 0, bkt_last = 0, bkt_expireAt = 10 * Second\<rparr>)]\<rparr>, True, 0, None)"
  using unit_call_1 unit_waits(1) [of oor] float_of_int_exact [of 1]
  by (simp add: Memory_Allow_def Memory_entry_def bucket_allow_def unit_memory_def Microseconds_def full_bucket_def
      Memory_dropExpired_def maxBucketSources_def allowedFromWait_def Let_def time_unix_micro_def Microsecond_def)

text \<open>
  C22: A refunded consume can be admitted, and then there is no limit. At one request per second,
  burst 1 and no delay: a request is admitted at 0 s, a second one 57 ms later is denied for another
  943 ms, and at 1 s the bucket holds \<open>1 - 2 ^ -53\<close> tokens. A request now would have to wait
  \<open>0.0000000001\<close> microseconds; that exceeds \<open>maxDelay\<close>, so the token is refunded, but cut to whole
  nanoseconds it is 0, so the request is admitted. The bucket is back where it was: every further
  request at that instant is admitted, however many there are.
\<close>

theorem refunded_yet_admitted:
  "snd (mem_run oor ([same_call 0 0 ''k'', same_call 0 57000000 ''k''] @ replicate n (same_call 0 Second ''k'')) unit_memory)
     = [(True, 0, None), (False, 943000000, None :: 'x option)] @ replicate n (True, 0, None)"
proof -
  let ?mem = "\<lambda>t l x. unit_memory\<lparr>mem_buckets := [(''k'', \<lparr>bkt_tokens = t, bkt_last = l, bkt_expireAt = x\<rparr>)]\<rparr>"
  let ?t = "9007199254740991 / 9007199254740992 :: rat"
  have 2: "Memory_Allow oor (None :: 'x option) 0 57000000 ''k'' (?mem (Fin 0) 0 (10 * Second))
      = (?mem (Fin (128352589380059 / 2251799813685248)) 57000 (57000000 + 10 * Second), False, 943000000, None)"
    using unit_call [OF refl, where now = 57000000 and e = "\<lparr>bkt_tokens = Fin 0, bkt_last = 0, bkt_expireAt = 10 * Second\<rparr>"
        and t = "Fin (128352589380059 / 2251799813685248)" and l = 57000 and w = "Fin (8100308320256001 / 8589934592)" and oor = oor]
    by (simp add: unit_call_2 unit_waits) (simp add: Second_def)
  have 3: "Memory_Allow oor (None :: 'x option) 0 Second ''k'' (?mem (Fin (128352589380059 / 2251799813685248)) 57000 (57000000 + 10 * Second))
      = (?mem (Fin ?t) 1000000 (11 * Second), True, 0, None)"
    using unit_call [OF refl, where now = Second and e = "\<lparr>bkt_tokens = Fin (128352589380059 / 2251799813685248), bkt_last = 57000,
          bkt_expireAt = 57000000 + 10 * Second\<rparr>"
        and t = "Fin ?t" and l = 1000000 and w = "Fin (15625 / 140737488355328)" and oor = oor]
    by (simp add: unit_call_3 unit_waits) (simp add: Second_def)
  have rep: "rep53 ?t" unfolding rep53_def
    by (rule exI [of _ 9007199254740991], rule exI [of _ "- 53"]) (simp add: pow2_def)
  have valid: "valid_clock (mem_clock unit_memory)"
    using NewMemory_inv(1) [OF unit_memory_New one_less_pow2] by (simp add: mem_inv_def is_int64_def)
  have more: "snd (mem_run oor (replicate k (same_call 0 Second ''k'')) (?mem (Fin ?t) 1000000 (11 * Second)))
      = replicate k (True, 0, None :: 'x option)" for k
    using refunded_fixpoint [where m = "?mem (Fin ?t) 1000000 (11 * Second)" and b = 1 and t = ?t and oor = oor
        and w = "Fin (15625 / 140737488355328)" and l = "4722366482869645 / 4722366482869645213696"
        and e = "\<lparr>bkt_tokens = Fin ?t, bkt_last = 1000000, bkt_expireAt = 11 * Second\<rparr>" and key = "''k''" and now = Second and c = 0 and n = k]
      valid unit_limit unit_take unit_waits(3) [of oor] rep rep53_int [of 1] float_of_int_exact [of 1]
    by (simp add: unit_memory_def wf_map_def Microseconds_def Second_def time_unix_micro_def Microsecond_def is_int64_def)
  show ?thesis
    using unit_first [where ?'a = 'x, of oor] 2 3 more by (cases n) (simp_all add: same_call_def case_prod_beta)
qed

section \<open>Construction and the clock\<close>

text \<open>
  Construction accepts exactly the usable clocks. \<open>validateClock\<close> passes when and only when the
  rate is finite and positive, the burst at least 1, the delay not negative and the ttl a positive whole
  number of seconds, and then the seconds \<open>ttlSeconds\<close> sends to Redis are the ttl of the in-process
  store exactly.
\<close>

theorem validateClock_iff:
  "validateClock rate burst maxDelay ttl = None \<longleftrightarrow>
     (\<exists>r. rate = Fin r \<and> 0 < r) \<and> 1 \<le> burst \<and> 0 \<le> maxDelay
     \<and> (\<exists>k. 1 \<le> k \<and> ttl = k * Second \<and> ttlSeconds \<lparr>clk_rate = rate, clk_burst = burst, clk_maxDelay = maxDelay, clk_ttl = ttl\<rparr> = k)"
proof -
  have rate: "\<not> (fle rate (Fin 0) \<or> is_nan rate \<or> is_inf rate) \<longleftrightarrow> (\<exists>r. rate = Fin r \<and> 0 < r)"
    by (cases rate) (auto simp: is_nan_def is_inf_def not_le)
  have ttl: "\<not> (ttl < Second \<or> ttl smod Second \<noteq> 0) \<longleftrightarrow> (\<exists>k. 1 \<le> k \<and> ttl = k * Second \<and> ttl sdiv Second = k)"
  proof
    assume a: "\<not> (ttl < Second \<or> ttl smod Second \<noteq> 0)"
    then have "ttl mod Second = 0" "ttl sdiv Second = ttl div Second" "Second \<le> ttl"
      by (auto simp: smod_nonneg sdiv_nonneg Second_def)
    then show "\<exists>k. 1 \<le> k \<and> ttl = k * Second \<and> ttl sdiv Second = k"
      by (intro exI [of _ "ttl div Second"]) (auto simp: Second_def)
  next
    assume "\<exists>k. 1 \<le> k \<and> ttl = k * Second \<and> ttl sdiv Second = k"
    then obtain k where "1 \<le> k" "ttl = k * Second" by blast
    then show "\<not> (ttl < Second \<or> ttl smod Second \<noteq> 0)" by (simp add: Second_def)
  qed
  show ?thesis using rate ttl by (auto simp: validateClock_def ttlSeconds_def)
qed

lemma refill_back:
  assumes "rep53 t" and "\<bar>t\<bar> \<le> 2 ^ 64" and "t \<le> b" and "limit = Fin l" and "now \<le> l0"
  shows "refill (Fin t) l0 limit (Fin b) now = Fin t"
proof -
  have "now - (if now < l0 then now else l0) = 0" using assms(5) by auto
  moreover have "float_of_int 0 = Fin 0" by (simp add: float_of_int_exact)
  moreover have "round64 t = Fin t" using round64_small [OF assms(2)] round53_exact [OF assms(1)] by simp
  ultimately show ?thesis using assms(3,4) by (simp add: refill_def)
qed

text \<open>
  A clock that steps back neither refills nor rewinds. For a live bucket \<open>Allow\<close> stores the later
  of the previous and the current instant, and when the current instant is not later the tokens before
  the consume are exactly the stored ones; no other bucket of the map changes.
\<close>

theorem backward_clock_keeps_last:
  assumes "mem_inv m" and "go_get (mem_buckets m) key = Some e" and "now < bkt_expireAt e"
  shows "\<exists>e'. go_get (mem_buckets (fst (Memory_Allow oor (None :: 'x option) c now key m))) key = Some e'
      \<and> bkt_last e' = max (bkt_last e) (time_unix_micro now)
      \<and> (time_unix_micro now \<le> bkt_last e \<longrightarrow>
           bkt_tokens e' = fst (take_token (limitPerMicro (mem_clock m)) (float_of_int (clk_burst (mem_clock m)))
                                  (Microseconds (clk_maxDelay (mem_clock m))) (bkt_tokens e)))
      \<and> (\<forall>k. k \<noteq> key \<longrightarrow> go_get (mem_buckets (fst (Memory_Allow oor (None :: 'x option) c now key m))) k = go_get (mem_buckets m) k)"
proof -
  let ?clk = "mem_clock m"
  obtain b where b: "float_of_int (clk_burst ?clk) = Fin b" "bucket_ok b e" "valid_clock ?clk"
    using assms(1,2) by (auto simp: mem_inv_def)
  obtain t where t: "bkt_tokens e = Fin t" "rep53 t" "- (2 ^ 53) \<le> t" "t \<le> b" using b(2) by (auto simp: bucket_ok_def)
  have "b \<le> 2 ^ 63" using valid_clock_burst [OF b(3)] b(1) by auto
  then have "\<bar>t\<bar> \<le> 2 ^ 64" using t(3,4) by (simp add: abs_le_iff)
  moreover obtain l where "limitPerMicro ?clk = Fin l" using valid_clock_limit [OF b(3)] by blast
  ultimately have stay: "refill (bkt_tokens e) (bkt_last e) (limitPerMicro ?clk) (float_of_int (clk_burst ?clk)) (time_unix_micro now)
      = bkt_tokens e" if "time_unix_micro now \<le> bkt_last e"
    using refill_back [OF t(2) _ t(4)] that t(1) b(1) by simp
  have "Memory_entry ?clk c key now (mem_buckets m) = (e, mem_buckets m)"
    using assms(2,3) by (rule bucket_map.load_live)
  then have "fst (Memory_Allow oor (None :: 'x option) c now key m)
      = m\<lparr>mem_buckets := go_set key (fst (bucket_allow oor ?clk now e)) (mem_buckets m)\<rparr>"
    by (simp add: Memory_Allow_def case_prod_beta)
  then show ?thesis
    using stay by (auto simp: update_conv bucket_allow_def consumeOne_def Let_def case_prod_beta)
qed

theorem backward_clock_keeps_last_witness:
  "\<exists>e'. go_get (mem_buckets (fst (Memory_Allow 0 (None :: unit option) 0 0 ''k''
     (unit_memory\<lparr>mem_buckets := [(''k'', \<lparr>bkt_tokens = Fin 0, bkt_last = 9, bkt_expireAt = 1\<rparr>)]\<rparr>)))) ''k'' = Some e'
     \<and> bkt_last e' = 9"
proof -
  let ?e = "\<lparr>bkt_tokens = Fin 0, bkt_last = 9, bkt_expireAt = 1\<rparr>"
  have "valid_clock (mem_clock unit_memory)" "rep53 0"
    using NewMemory_inv(1) [OF unit_memory_New one_less_pow2] rep53_int [of 0] by (auto simp: mem_inv_def is_int64_def)
  then have "mem_inv (unit_memory\<lparr>mem_buckets := [(''k'', ?e)]\<rparr>)"
    using float_of_int_exact [of 1]
    by (simp add: mem_inv_def wf_map_def maxBucketSources_def bucket_ok_def sane_micro_def) (simp add: unit_memory_def)
  from backward_clock_keeps_last [OF this, where key = "''k''" and e = ?e and now = 0 and oor = 0 and c = 0]
  show ?thesis by (auto simp: time_unix_micro_def Microsecond_def max_def)
qed

end
