(* ===== verification/Resp.thy ===== *)
theory Resp
  imports Prelude
begin

text \<open>
  The RESP2 codec of \<open>src/simpleredis/resp.go\<close>: the command encoder, the reply decoder with its caps,
  and the classification of errors. A reader is the byte string the peer delivers on the connection,
  together with the error \<open>Read\<close> gives once that string is used up; every reading function returns what
  is left. The \<open>bufio\<close> buffer of 4096 bytes is kept: a longer line is a framing error. On an error the
  position in the stream is lost, as in the code, which then closes the socket.

  \<open>[]byte\<close> is a string; a slot of a reply is an option, \<^const>\<open>None\<close> where Go has a nil slice.
\<close>

section \<open>Errors\<close>

text \<open>Errors of the standard library: those of a connection, and those of a context.\<close>

datatype io_err = EOF | UnexpectedEOF | DeadlineExceeded | OtherIO string

datatype ctx_err = Canceled | CtxDeadline

text \<open>The sentinels of the package, the error texts of the peer, and the standard library's errors.\<close>

datatype redis_err =
  ErrUnreachable | ErrPoolWait | ErrNotFromNew | ErrMiss | ErrTimeout | ErrNoAuth | ErrIssue | ErrUnsupportedReply
| ReplyErr string | IoErr io_err | CtxErr ctx_err

text \<open>The \<open>Error()\<close> texts.\<close>

fun io_text :: "io_err \<Rightarrow> string" where
  "io_text EOF = ''EOF''"
| "io_text UnexpectedEOF = ''unexpected EOF''"
| "io_text DeadlineExceeded = ''i/o timeout''"
| "io_text (OtherIO s) = s"

fun err_text :: "redis_err \<Rightarrow> string" where
  "err_text ErrUnreachable = ''redis:unreachable''"
| "err_text ErrPoolWait = ''redis:unreachable''"
| "err_text ErrNotFromNew = ''redis:unreachable''"
| "err_text ErrMiss = ''redis:miss''"
| "err_text ErrTimeout = ''redis:timeout''"
| "err_text ErrNoAuth = ''redis:noauth''"
| "err_text ErrIssue = ''redis:issue?''"
| "err_text ErrUnsupportedReply = ''redis:unsupported-reply''"
| "err_text (ReplyErr s) = s"
| "err_text (IoErr e) = io_text e"
| "err_text (CtxErr Canceled) = ''context canceled''"
| "err_text (CtxErr CtxDeadline) = ''context deadline exceeded''"

text \<open>\<open>errors.Is\<close> against the exported sentinels: the pool-wait error and the not-from-New error wrap
  the unreachable one.\<close>

definition IsMiss :: "redis_err \<Rightarrow> bool" where
  "IsMiss e \<longleftrightarrow> e = ErrMiss"

definition IsUnreachable :: "redis_err \<Rightarrow> bool" where
  "IsUnreachable e \<longleftrightarrow> e \<in> {ErrUnreachable, ErrPoolWait, ErrNotFromNew}"

definition IsPoolWait :: "redis_err \<Rightarrow> bool" where
  "IsPoolWait e \<longleftrightarrow> e = ErrPoolWait"

definition has_prefix :: "string \<Rightarrow> string \<Rightarrow> bool" where
  "has_prefix p s \<longleftrightarrow> take (length p) s = p"

definition authPrefixes :: "string list" where
  "authPrefixes = [''NOAUTH'', ''WRONGPASS'', ''NOPERM'', ''ERR Client sent AUTH'']"

definition replyError :: "string \<Rightarrow> redis_err" where
  "replyError text = (if \<exists>p \<in> set authPrefixes. has_prefix p text then ErrNoAuth else ReplyErr text)"

definition isDirtyProtocolError :: "redis_err \<Rightarrow> bool" where
  "isDirtyProtocolError e \<longleftrightarrow> e = ErrIssue \<or> e = ErrUnsupportedReply"

definition ioError :: "redis_err \<Rightarrow> redis_err" where
  "ioError e = (if e = IoErr DeadlineExceeded then ErrTimeout else ErrUnreachable)"

section \<open>Command encoding\<close>

abbreviation CR :: char where "CR \<equiv> CHR 0x0D"
abbreviation LF :: char where "LF \<equiv> CHR 0x0A"
abbreviation CRLF :: string where "CRLF \<equiv> [CR, LF]"

definition commandVerb :: "string list \<Rightarrow> string" where
  "commandVerb args = (case args of [] \<Rightarrow> [] | a # _ \<Rightarrow> a)"

definition encode_bulk :: "string \<Rightarrow> string" where
  "encode_bulk arg = CHR ''$'' # format_nat (length arg) @ CRLF @ arg @ CRLF"

definition encode_command :: "string list \<Rightarrow> string" where
  "encode_command args = CHR ''*'' # format_nat (length args) @ CRLF @ concat (map encode_bulk args)"

text \<open>Every write of \<open>writeCommand\<close> goes through the connection's \<open>bufio.Writer\<close>, whose first error is
  sticky and is returned at the latest by \<open>Flush\<close>: the command is sent as a whole or there is an error,
  which is the argument \<open>werr\<close>.\<close>

definition writeCommand :: "io_err option \<Rightarrow> string list \<Rightarrow> redis_err + string" where
  "writeCommand werr args = (case werr of Some e \<Rightarrow> Inl (IoErr e) | None \<Rightarrow> Inr (encode_command args))"

section \<open>Reply decoding\<close>

text \<open>The default buffer size of \<open>bufio.NewReader\<close>.\<close>

definition bufSize :: nat where
  "bufSize = 4096"

definition maxBulkLength :: int where
  "maxBulkLength = 64 * 2 ^ 20"

definition maxArrayCount :: int where
  "maxArrayCount = 2 ^ 20"

definition maxParseLen :: int where
  "maxParseLen = max_int64"

text \<open>\<open>reader.ReadSlice\<close> of a newline: up to and including the first newline if it is among the next
  4096 bytes, the buffer-full error (\<^const>\<open>None\<close>) if there are 4096 bytes without one, and the
  connection's error otherwise.\<close>

fun split_line :: "string \<Rightarrow> (string \<times> string) option" where
  "split_line [] = None"
| "split_line (c # s) =
     (if c = LF then Some ([c], s) else map_option (\<lambda>(l, r). (c # l, r)) (split_line s))"

definition ReadSlice :: "io_err \<Rightarrow> string \<Rightarrow> io_err option + string \<times> string" where
  "ReadSlice t s =
     (case split_line (take bufSize s) of
        Some (l, _) \<Rightarrow> Inr (l, drop (length l) s)
      | None \<Rightarrow> Inl (if bufSize \<le> length s then None else Some t))"

text \<open>\<open>io.ReadFull\<close> of \<open>n > 0\<close> bytes.\<close>

definition ReadFull :: "io_err \<Rightarrow> nat \<Rightarrow> string \<Rightarrow> io_err + string \<times> string" where
  "ReadFull t n s =
     (if n \<le> length s then Inr (take n s, drop n s)
      else Inl (if s \<noteq> [] \<and> t = EOF then UnexpectedEOF else t))"

definition readLine :: "io_err \<Rightarrow> string \<Rightarrow> redis_err + string \<times> string" where
  "readLine t s =
     (case ReadSlice t s of
        Inl None \<Rightarrow> Inl ErrIssue
      | Inl (Some e) \<Rightarrow> Inl (IoErr e)
      | Inr (line, rest) \<Rightarrow>
          if length line < 2 \<or> line ! (length line - 2) \<noteq> CR then Inl ErrIssue
          else Inr (take (length line - 2) line, rest))"

text \<open>The digit loop of \<open>parseLen\<close>. The guard is Go's, with its truncating division.\<close>

fun parseLen_loop :: "int \<Rightarrow> string \<Rightarrow> int option" where
  "parseLen_loop n [] = Some n"
| "parseLen_loop n (c # cs) =
     (if \<not> is_digit c then None
      else if n > (maxParseLen - int (digit_val c)) sdiv 10 then None
      else parseLen_loop (wrap64 (n * 10 + int (digit_val c))) cs)"

definition parseLen :: "string \<Rightarrow> int option" where
  "parseLen digits =
     (case digits of
        [] \<Rightarrow> None
      | c # cs \<Rightarrow>
          if c = CHR ''-'' then (if cs = [] then None else map_option uminus (parseLen_loop 0 cs))
          else parseLen_loop 0 digits)"

definition readBulk :: "io_err \<Rightarrow> string \<Rightarrow> string \<Rightarrow> redis_err + string \<times> string" where
  "readBulk t head s =
     (case head of
        [] \<Rightarrow> Inl ErrIssue
      | c # digits \<Rightarrow>
          if c \<noteq> CHR ''$'' then Inl ErrIssue
          else case parseLen digits of
            None \<Rightarrow> Inl ErrIssue
          | Some n \<Rightarrow>
              if n < 0 then Inl ErrMiss
              else if n > maxBulkLength then Inl ErrIssue
              else case ReadFull t (nat n + 2) s of
                Inl e \<Rightarrow> Inl (IoErr e)
              | Inr (data, rest) \<Rightarrow>
                  if data ! nat n \<noteq> CR \<or> data ! (nat n + 1) \<noteq> LF then Inl ErrIssue
                  else Inr (take (nat n) data, rest))"

type_synonym slot = "string option"

text \<open>\<open>append([]byte(nil), b...)\<close> is nil for an empty \<open>b\<close>.\<close>

definition copied :: "string \<Rightarrow> slot" where
  "copied b = (if b = [] then None else Some b)"

text \<open>A bulk string as the callers of \<open>readBulk\<close> take it: the miss sentinel is a nil slot.\<close>

definition bulk_slot :: "io_err \<Rightarrow> string \<Rightarrow> string \<Rightarrow> redis_err + slot \<times> string" where
  "bulk_slot t head s =
     (case readBulk t head s of
        Inl e \<Rightarrow> if e = ErrMiss then Inr (None, s) else Inl e
      | Inr (data, rest) \<Rightarrow> Inr (Some data, rest))"

text \<open>One element of an array, and the element loop.\<close>

definition read_element :: "io_err \<Rightarrow> string \<Rightarrow> redis_err + slot \<times> string" where
  "read_element t s =
     (case readLine t s of
        Inl e \<Rightarrow> Inl e
      | Inr (head, rest) \<Rightarrow>
          (case head of
             [] \<Rightarrow> Inl ErrIssue
           | c # b \<Rightarrow>
               if c = CHR ''$'' then bulk_slot t head rest
               else if c = CHR '':'' \<or> c = CHR ''+'' then Inr (copied b, rest)
               else Inl ErrUnsupportedReply))"

fun read_elements :: "io_err \<Rightarrow> nat \<Rightarrow> string \<Rightarrow> redis_err + slot list \<times> string" where
  "read_elements t 0 s = Inr ([], s)"
| "read_elements t (Suc n) s =
     (case read_element t s of
        Inl e \<Rightarrow> Inl e
      | Inr (v, rest) \<Rightarrow> map_sum id (apfst (Cons v)) (read_elements t n rest))"

text \<open>The three results of \<open>readReply\<close>.\<close>

record reply =
  rep_values :: "slot list"
  rep_clean :: bool
  rep_err :: "redis_err option"

abbreviation dirty :: "redis_err \<Rightarrow> reply" where
  "dirty e \<equiv> \<lparr>rep_values = [], rep_clean = False, rep_err = Some e\<rparr>"

abbreviation ok_reply :: "slot list \<Rightarrow> reply" where
  "ok_reply vs \<equiv> \<lparr>rep_values = vs, rep_clean = True, rep_err = None\<rparr>"

definition array_reply :: "io_err \<Rightarrow> string \<Rightarrow> string \<Rightarrow> redis_err + slot list \<times> string" where
  "array_reply t digits s =
     (case parseLen digits of
        None \<Rightarrow> Inl ErrIssue
      | Some count \<Rightarrow>
          if count < 0 then Inl ErrIssue
          else if count > maxArrayCount then Inl ErrIssue
          else read_elements t (nat count) s)"

definition readReply :: "io_err \<Rightarrow> string \<Rightarrow> reply \<times> string" where
  "readReply t s =
     (case readLine t s of
        Inl e \<Rightarrow> (dirty e, s)
      | Inr (line, rest) \<Rightarrow>
          (case line of
             [] \<Rightarrow> (dirty ErrIssue, s)
           | c # b \<Rightarrow>
               if c = CHR ''+'' \<or> c = CHR '':'' then (ok_reply [copied b], rest)
               else if c = CHR ''-'' then (\<lparr>rep_values = [], rep_clean = True, rep_err = Some (replyError b)\<rparr>, rest)
               else if c = CHR ''$'' then
                 (case bulk_slot t line rest of
                    Inl e \<Rightarrow> (dirty e, s)
                  | Inr (v, rest') \<Rightarrow> (ok_reply [v], rest'))
               else if c = CHR ''*'' then
                 (case array_reply t b rest of
                    Inl e \<Rightarrow> (dirty e, s)
                  | Inr (vs, rest') \<Rightarrow> (ok_reply vs, rest'))
               else (dirty ErrUnsupportedReply, s)))"

section \<open>Framing\<close>

text \<open>
  A reading function is framed when a success depends only on the bytes it consumes: the same bytes
  followed by anything else give the same value and leave exactly what follows, and any proper prefix
  of them gives an error of the connection, never a value and never a protocol error.
\<close>

type_synonym 'a reading = "io_err \<Rightarrow> string \<Rightarrow> redis_err + 'a \<times> string"

definition consumes :: "'a reading \<Rightarrow> 'a \<Rightarrow> string \<Rightarrow> bool" where
  "consumes f v u \<longleftrightarrow>
     (\<forall>t x. f t (u @ x) = Inr (v, x)) \<and> (\<forall>t p q. u = p @ q \<and> q \<noteq> [] \<longrightarrow> (\<exists>e. f t p = Inl (IoErr e)))"

definition framed :: "'a reading \<Rightarrow> bool" where
  "framed f \<longleftrightarrow> (\<forall>t s v r. f t s = Inr (v, r) \<longrightarrow> (\<exists>u. s = u @ r \<and> consumes f v u))"

definition bind_read :: "'a reading \<Rightarrow> ('a \<Rightarrow> 'b reading) \<Rightarrow> 'b reading" where
  "bind_read f g t s = (case f t s of Inl e \<Rightarrow> Inl e | Inr (v, r) \<Rightarrow> g v t r)"

named_theorems framing

lemma consumesD:
  assumes "consumes f v u"
  shows "f t (u @ x) = Inr (v, x)" and "u = p @ q \<Longrightarrow> q \<noteq> [] \<Longrightarrow> \<exists>e. f t p = Inl (IoErr e)"
  using assms by (auto simp: consumes_def)

lemma framedD: "framed f \<Longrightarrow> f t s = Inr (v, r) \<Longrightarrow> \<exists>u. s = u @ r \<and> consumes f v u"
  by (simp add: framed_def)

lemma framed_return [framing]: "framed (\<lambda>t s. Inr (v, s))"
  by (simp add: framed_def consumes_def)

lemma framed_fail [framing]: "framed (\<lambda>t s. Inl e)"
  by (simp add: framed_def)

lemma framed_if [framing]: "framed f \<Longrightarrow> framed g \<Longrightarrow> framed (\<lambda>t s. if b then f t s else g t s)"
  by (cases b) simp_all

lemma bind_consumes:
  assumes "consumes f v u" and "consumes (g v) w u'"
  shows "consumes (bind_read f g) w (u @ u')"
  unfolding consumes_def
proof (intro conjI allI impI)
  fix t x
  show "bind_read f g t ((u @ u') @ x) = Inr (w, x)"
    using consumesD(1) [OF assms(1), of t "u' @ x"] consumesD(1) [OF assms(2), of t x] by (simp add: bind_read_def)
next
  fix t p q
  assume pq: "u @ u' = p @ q \<and> q \<noteq> []"
  show "\<exists>e. bind_read f g t p = Inl (IoErr e)"
  proof (cases "length p < length u")
    case True
    then have "u = p @ drop (length p) u" using pq
      by (metis append_eq_append_conv_if append_take_drop_id less_imp_le_nat)
    moreover have "drop (length p) u \<noteq> []" using True by simp
    ultimately obtain e where "f t p = Inl (IoErr e)" using consumesD(2) [OF assms(1), of p _ t] by blast
    then show ?thesis by (simp add: bind_read_def)
  next
    case False
    then obtain p' where p: "p = u @ p'" and u': "u' = p' @ q"
      using pq by (auto simp: append_eq_append_conv2)
    show ?thesis
      using consumesD(2) [OF assms(2) u', of t] pq consumesD(1) [OF assms(1), of t p'] by (simp add: p bind_read_def)
  qed
qed

lemma framed_bind [framing]:
  assumes "framed f" and "\<And>v. framed (g v)"
  shows "framed (bind_read f g)"
  unfolding framed_def
proof (intro allI impI)
  fix t s w r
  assume "bind_read f g t s = Inr (w, r)"
  then obtain v m where f: "f t s = Inr (v, m)" and g: "g v t m = Inr (w, r)"
    by (auto simp: bind_read_def split: sum.splits)
  obtain u where u: "s = u @ m" "consumes f v u" using framedD [OF assms(1) f] by blast
  obtain u' where u': "m = u' @ r" "consumes (g v) w u'" using framedD [OF assms(2) g] by blast
  show "\<exists>u. s = u @ r \<and> consumes (bind_read f g) w u"
    using bind_consumes [where g = g, OF u(2) u'(2)] u(1) u'(1) by (intro exI [of _ "u @ u'"]) simp
qed

lemma split_line_Some:
  "split_line s = Some (l, r) \<longleftrightarrow> (\<exists>b. l = b @ [LF] \<and> s = l @ r \<and> LF \<notin> set b)"
proof (induction s arbitrary: l)
  case (Cons c s)
  show ?case
  proof (cases "c = LF")
    case False
    then have "split_line (c # s) = Some (l, r) \<longleftrightarrow> (\<exists>k. l = c # k \<and> split_line s = Some (k, r))"
      by auto
    also have "\<dots> \<longleftrightarrow> (\<exists>b. l = b @ [LF] \<and> c # s = l @ r \<and> LF \<notin> set b)"
      unfolding Cons.IH using False by (auto simp: Cons_eq_append_conv)
    finally show ?thesis .
  qed (auto simp: Cons_eq_append_conv)
qed simp

lemma split_line_None: "split_line s = None \<longleftrightarrow> LF \<notin> set s"
  by (induction s) (auto split: if_splits)

lemma ReadSlice_line:
  assumes "LF \<notin> set b" and "length b < bufSize"
  shows "ReadSlice t (b @ LF # x) = Inr (b @ [LF], x)"
proof -
  have "take bufSize (b @ LF # x) = b @ LF # take (bufSize - Suc (length b)) x"
    using assms(2) by (simp add: take_Cons')
  moreover have "split_line (b @ LF # y) = Some (b @ [LF], y)" for y
    using assms(1) by (subst split_line_Some) auto
  ultimately show ?thesis by (simp add: ReadSlice_def)
qed

lemma ReadSlice_Inr:
  assumes "ReadSlice t s = Inr (l, r)"
  obtains b where "l = b @ [LF]" "s = b @ LF # r" "LF \<notin> set b" "length b < bufSize"
proof -
  obtain q where q: "split_line (take bufSize s) = Some (l, q)" and r: "r = drop (length l) s"
    using assms by (auto simp: ReadSlice_def split: option.splits)
  obtain b where b: "l = b @ [LF]" "take bufSize s = l @ q" "LF \<notin> set b"
    using q by (auto simp: split_line_Some)
  have "length (l @ q) \<le> bufSize" by (metis b(2) length_take min.cobounded2)
  moreover have "s = l @ q @ drop bufSize s" using b(2) by (metis append.assoc append_take_drop_id)
  moreover from this have "r = q @ drop bufSize s" using r by (metis append_eq_conv_conj)
  ultimately show thesis using that [of b] b by simp
qed

text \<open>The line a reader returns, as the bytes it consumed.\<close>

lemma readLine_consumes:
  assumes "LF \<notin> set b" and "length b < bufSize - 1"
  shows "consumes readLine b (b @ CRLF)"
  unfolding consumes_def
proof (intro conjI allI impI)
  fix t x
  have "ReadSlice t (b @ CRLF @ x) = Inr (b @ CRLF, x)"
    using ReadSlice_line [of "b @ [CR]" t x] assms by simp
  then show "readLine t ((b @ CRLF) @ x) = Inr (b, x)" by (simp add: readLine_def nth_append)
next
  fix t p q
  assume pq: "b @ CRLF = p @ q \<and> q \<noteq> []"
  then obtain q' where "q = q' @ [LF]" "b @ [CR] = p @ q'"
    by (metis (no_types, lifting) append.assoc append_Cons append_Nil append_butlast_last_id append_is_Nil_conv
        butlast_append last.simps last_appendR list.distinct(1) butlast_snoc)
  then have "set (b @ [CR]) = set (p @ q')" and "length (b @ [CR]) = length (p @ q')" by simp_all
  then have "LF \<notin> set p" and len: "length p < bufSize" using assms by (auto simp: bufSize_def)
  then have "split_line (take bufSize p) = None" by (simp add: split_line_None)
  then show "\<exists>e. readLine t p = Inl (IoErr e)" using len by (simp add: readLine_def ReadSlice_def)
qed

lemma readLine_Inr:
  assumes "readLine t s = Inr (l, r)"
  shows "s = l @ CRLF @ r \<and> LF \<notin> set l \<and> length l < bufSize - 1"
proof -
  obtain k where k: "ReadSlice t s = Inr (k, r)" "\<not> length k < 2" "k ! (length k - 2) = CR" "l = take (length k - 2) k"
    using assms by (auto simp: readLine_def split: sum.splits option.splits if_splits)
  obtain b where b: "k = b @ [LF]" "s = b @ LF # r" "LF \<notin> set b" "length b < bufSize"
    using ReadSlice_Inr [OF k(1)] by blast
  obtain c d where "b = c @ [d]" using k(2) b(1) by (cases b rule: rev_cases) auto
  then show ?thesis using k b by (auto simp: nth_append bufSize_def)
qed

lemma framed_readLine [framing]: "framed readLine"
  unfolding framed_def using readLine_Inr readLine_consumes by (metis append.assoc)

lemma ReadFull_consumes:
  assumes "length d = n"
  shows "consumes (\<lambda>t s. map_sum IoErr id (ReadFull t n s)) d d"
  using assms by (auto simp: consumes_def ReadFull_def)

lemma framed_ReadFull [framing]: "framed (\<lambda>t s. map_sum IoErr id (ReadFull t n s))"
proof -
  have "\<exists>u. s = u @ r \<and> consumes (\<lambda>t s. map_sum IoErr id (ReadFull t n s)) v u"
    if "map_sum IoErr id (ReadFull t n s) = Inr (v, r)" for t s v r
    using that ReadFull_consumes [of v n] by (intro exI [of _ v]) (auto simp: ReadFull_def split: if_splits)
  then show ?thesis by (simp add: framed_def)
qed

section \<open>Lengths\<close>

definition decimal :: "int \<Rightarrow> string \<Rightarrow> int" where
  "decimal n ds = foldl (\<lambda>n c. n * 10 + int (digit_val c)) n ds"

lemma decimal_simps [simp]: "decimal n [] = n" "decimal n (c # cs) = decimal (n * 10 + int (digit_val c)) cs"
  by (simp_all add: decimal_def)

lemma decimal_mono: "0 \<le> n \<Longrightarrow> n \<le> decimal n ds"
proof (induction ds arbitrary: n)
  case (Cons c ds)
  have "n * 10 + int (digit_val c) \<le> decimal (n * 10 + int (digit_val c)) ds" using Cons by (intro Cons.IH) simp
  then show ?case using Cons.prems unfolding decimal_simps by linarith
qed simp

lemma decimal_digits_val: "decimal 0 ds = int (digits_val ds)"
  by (induction ds rule: rev_induct) (simp_all add: decimal_def digits_val_def)

text \<open>The overflow guard refuses exactly the digit that would leave the range of an int.\<close>

lemma parseLen_guard:
  assumes "0 \<le> n" and "d < 10"
  shows "n > (maxParseLen - int d) sdiv 10 \<longleftrightarrow> n * 10 + int d > maxParseLen"
proof -
  have "(maxParseLen - int d) sdiv 10 = (maxParseLen - int d) div 10"
    using assms(2) by (simp add: signed_divide_int_def maxParseLen_def max_int64_def)
  then show ?thesis using assms by linarith
qed

lemma is_digit_val: "is_digit c \<Longrightarrow> digit_val c < 10"
  by (auto simp: is_digit_def digit_val_def)

lemma parseLen_loop_eq:
  assumes "0 \<le> n" and "n \<le> maxParseLen"
  shows "parseLen_loop n ds = (if list_all is_digit ds \<and> decimal n ds \<le> maxParseLen then Some (decimal n ds) else None)"
  using assms
proof (induction ds arbitrary: n)
  case (Cons c ds)
  let ?m = "n * 10 + int (digit_val c)"
  have step: "parseLen_loop n (c # ds) = (if is_digit c \<and> ?m \<le> maxParseLen then parseLen_loop (wrap64 ?m) ds else None)"
  proof (cases "is_digit c")
    case True
    show ?thesis
      by (simp only: parseLen_loop.simps parseLen_guard [OF Cons.prems(1) is_digit_val [OF True]]) (simp add: True)
  qed simp
  have "is_digit c \<and> ?m \<le> maxParseLen \<Longrightarrow> wrap64 ?m = ?m"
    using Cons.prems by (intro wrap64_id) (simp add: is_int64_def maxParseLen_def max_int64_def)
  then show ?case
    using Cons.IH [of ?m] Cons.prems decimal_mono [of ?m ds] by (auto simp: step simp del: parseLen_loop.simps)
qed simp

lemma parseLen_format_nat [simp]:
  assumes "int n \<le> maxParseLen"
  shows "parseLen (format_nat n) = Some (int n)"
proof (cases "format_nat n")
  case (Cons c cs)
  then have "c \<noteq> CHR ''-''" using is_digit_no_sign [OF format_nat_Cons [OF Cons]] by simp
  then have "parseLen (format_nat n) = parseLen_loop 0 (format_nat n)" by (simp add: parseLen_def Cons)
  then show ?thesis
    using assms by (simp add: parseLen_loop_eq format_nat_digits decimal_digits_val maxParseLen_def max_int64_def)
qed simp

section \<open>The decoder is framed\<close>

lemma framed_parse [framing]:
  assumes "\<And>n. framed (f n)"
  shows "framed (\<lambda>t s. case p of None \<Rightarrow> Inl e | Some n \<Rightarrow> f n t s)"
  using assms by (cases p) (simp_all add: framed_fail)

lemma framed_line [framing]:
  assumes "\<And>c b. framed (f c b)"
  shows "framed (\<lambda>t s. case l of [] \<Rightarrow> Inl e | c # b \<Rightarrow> f c b t s)"
  using assms by (cases l) (simp_all add: framed_fail)

definition payload :: "nat \<Rightarrow> slot reading" where
  "payload n = bind_read (\<lambda>t s. map_sum IoErr id (ReadFull t (n + 2) s))
     (\<lambda>d t s. if d ! n \<noteq> CR \<or> d ! (n + 1) \<noteq> LF then Inl ErrIssue else Inr (Some (take n d), s))"

lemma bulk_slot_eq:
  "bulk_slot t head s =
     (case head of
        [] \<Rightarrow> Inl ErrIssue
      | c # ds \<Rightarrow>
          if c \<noteq> CHR ''$'' then Inl ErrIssue
          else case parseLen ds of
            None \<Rightarrow> Inl ErrIssue
          | Some n \<Rightarrow>
              if n < 0 then Inr (None, s) else if n > maxBulkLength then Inl ErrIssue else payload (nat n) t s)"
  by (auto simp: bulk_slot_def readBulk_def payload_def bind_read_def split: list.split option.split sum.split)

lemma framed_bulk_slot [framing]: "framed (\<lambda>t s. bulk_slot t head s)"
  unfolding bulk_slot_eq payload_def by (intro framing)

definition element_body :: "string \<Rightarrow> slot reading" where
  "element_body head t s =
     (case head of [] \<Rightarrow> Inl ErrIssue
      | c # b \<Rightarrow> if c = CHR ''$'' then bulk_slot t head s
                 else if c = CHR '':'' \<or> c = CHR ''+'' then Inr (copied b, s)
                 else Inl ErrUnsupportedReply)"

lemma framed_element_body [framing]: "framed (element_body head)"
  unfolding element_body_def by (intro framing)

lemma read_element_eq: "read_element = bind_read readLine element_body"
  by (intro ext) (simp add: read_element_def bind_read_def element_body_def split: sum.split)

lemma framed_read_element [framing]: "framed read_element"
  unfolding read_element_eq by (intro framing)

lemma read_elements_Suc:
  "(\<lambda>t. read_elements t (Suc n)) =
     bind_read read_element (\<lambda>v. bind_read (\<lambda>t. read_elements t n) (\<lambda>vs t s. Inr (v # vs, s)))"
  by (intro ext) (auto simp: bind_read_def split: sum.split)

lemma framed_read_elements [framing]: "framed (\<lambda>t. read_elements t n)"
proof (induction n)
  case 0
  show ?case by (simp add: framed_def consumes_def)
next
  case (Suc n)
  then show ?case unfolding read_elements_Suc by (intro framing)
qed

lemma framed_array_reply [framing]: "framed (\<lambda>t s. array_reply t ds s)"
  unfolding array_reply_def using framed_read_elements by (intro framing)

text \<open>\<open>readReply\<close> as a reading of the values and the error of a clean reply.\<close>

definition one_value :: "slot \<Rightarrow> (slot list \<times> redis_err option) reading" where
  "one_value v t s = Inr (([v], None), s)"

definition reply_body :: "string \<Rightarrow> (slot list \<times> redis_err option) reading" where
  "reply_body line t s =
     (case line of [] \<Rightarrow> Inl ErrIssue
      | c # b \<Rightarrow>
          if c = CHR ''-'' then Inr (([], Some (replyError b)), s)
          else if c = CHR ''*'' then bind_read (\<lambda>t s. array_reply t b s) (\<lambda>vs t s. Inr ((vs, None), s)) t s
          else bind_read (element_body line) one_value t s)"

definition read_reply :: "(slot list \<times> redis_err option) reading" where
  "read_reply = bind_read readLine reply_body"

lemma framed_one_value [framing]: "framed (one_value v)"
  unfolding one_value_def by (intro framing)

lemma framed_read_reply: "framed read_reply"
  unfolding read_reply_def reply_body_def by (intro framing)

lemma readReply_eq:
  "readReply t s =
     (case read_reply t s of
        Inl e \<Rightarrow> (dirty e, s)
      | Inr ((vs, e), r) \<Rightarrow> (\<lparr>rep_values = vs, rep_clean = True, rep_err = e\<rparr>, r))"
  by (auto simp: readReply_def read_reply_def reply_body_def element_body_def bind_read_def one_value_def split: sum.split list.split)

lemma readReply_clean:
  assumes "readReply t s = (rep, r)" and "rep_clean rep"
  shows "read_reply t s = Inr ((rep_values rep, rep_err rep), r)"
  using assms by (auto simp: readReply_eq split: sum.splits prod.splits)

lemma consumes_readReply:
  assumes "consumes read_reply (vs, e) u"
  shows "readReply t (u @ x) = (\<lparr>rep_values = vs, rep_clean = True, rep_err = e\<rparr>, x)"
    and "u = p @ q \<Longrightarrow> q \<noteq> [] \<Longrightarrow> \<exists>e. readReply t p = (dirty (IoErr e), p)"
  using consumesD(1) [OF assms] consumesD(2) [OF assms, of p q t] by (auto simp: readReply_eq)

section \<open>What the decoder accepts\<close>

text \<open>The replies of the protocol that this client decodes, as a server writes them: arrays are flat.\<close>

datatype resp_item = Status string | Number int | BulkItem string | NullBulk

datatype resp_value = Item resp_item | Failure string | Flat "resp_item list"

fun encode_item :: "resp_item \<Rightarrow> string" where
  "encode_item (Status s) = CHR ''+'' # s @ CRLF"
| "encode_item (Number n) = CHR '':'' # format_int n @ CRLF"
| "encode_item (BulkItem b) = encode_bulk b"
| "encode_item NullBulk = ''$-1'' @ CRLF"

fun encode_value :: "resp_value \<Rightarrow> string" where
  "encode_value (Item i) = encode_item i"
| "encode_value (Failure s) = CHR ''-'' # s @ CRLF"
| "encode_value (Flat is) = CHR ''*'' # format_nat (length is) @ CRLF @ concat (map encode_item is)"

text \<open>A text line has no newline and fits the reader's buffer with its type byte and CRLF; a number fits
  an int64, and bulk strings and arrays are within the caps.\<close>

definition text_ok :: "string \<Rightarrow> bool" where
  "text_ok s \<longleftrightarrow> LF \<notin> set s \<and> length s + 3 \<le> bufSize"

fun item_ok :: "resp_item \<Rightarrow> bool" where
  "item_ok (Status s) = text_ok s"
| "item_ok (Number n) = is_int64 n"
| "item_ok (BulkItem b) = (int (length b) \<le> maxBulkLength)"
| "item_ok NullBulk = True"

fun value_ok :: "resp_value \<Rightarrow> bool" where
  "value_ok (Item i) = item_ok i"
| "value_ok (Failure s) = text_ok s"
| "value_ok (Flat is) = (int (length is) \<le> maxArrayCount \<and> list_all item_ok is)"

fun item_slot :: "resp_item \<Rightarrow> slot" where
  "item_slot (Status s) = copied s"
| "item_slot (Number n) = Some (format_int n)"
| "item_slot (BulkItem b) = Some b"
| "item_slot NullBulk = None"

fun value_reply :: "resp_value \<Rightarrow> slot list \<times> redis_err option" where
  "value_reply (Item i) = ([item_slot i], None)"
| "value_reply (Failure s) = ([], Some (replyError s))"
| "value_reply (Flat is) = (map item_slot is, None)"

lemma digits_text:
  assumes "n < 10 ^ 20"
  shows "LF \<notin> set (format_nat n)" and "length (format_nat n) \<le> 20"
proof -
  show "LF \<notin> set (format_nat n)"
    using format_nat_digits [of n] by (auto simp: list_all_iff is_digit_def)
  have "n < 10 ^ k \<Longrightarrow> 0 < k \<Longrightarrow> length (format_nat n) \<le> k" for k
  proof (induction n arbitrary: k rule: format_nat.induct)
    case (1 n)
    show ?case
    proof (cases "n < 10")
      case True
      then show ?thesis using 1 by (subst format_nat.simps) simp
    next
      case False
      then obtain j where j: "k = Suc j" "0 < j" using 1(2,3) by (cases k; cases "k - 1") auto
      then have "n div 10 < 10 ^ j" using 1(2) by (simp add: div_less_iff_less_mult mult.commute)
      then show ?thesis using 1(1) [OF False, of j] j False by (subst format_nat.simps) simp
    qed
  qed
  then show "length (format_nat n) \<le> 20" using assms by auto
qed

lemma int_text:
  assumes "is_int64 n"
  shows "LF \<notin> set (format_int n)" and "length (format_int n) \<le> 21" and "format_int n \<noteq> []"
proof -
  have "nat (- n) \<le> nat (2 ^ 63)" and "nat n \<le> nat (2 ^ 63)" using assms by (auto simp: is_int64_def)
  then have "nat (- n) < 10 ^ 20" and "nat n < 10 ^ 20" by (auto elim: le_less_trans)
  note d = digits_text [OF this(1)] digits_text [OF this(2)]
  show "LF \<notin> set (format_int n)" "length (format_int n) \<le> 21" "format_int n \<noteq> []"
    using d by (auto simp: format_int_def)
qed

text \<open>A line with its type byte, then the reading that follows it.\<close>

lemma line_then:
  assumes "consumes (g (c # b)) v u" and "LF \<notin> set b" and "length b + 3 \<le> bufSize" and "c \<noteq> LF"
  shows "consumes (bind_read readLine g) v (c # b @ CRLF @ u)"
proof -
  have "consumes readLine (c # b) ((c # b) @ CRLF)" using assms(2-4) by (intro readLine_consumes) (auto simp: bufSize_def)
  from bind_consumes [where g = g, OF this assms(1)] show ?thesis by simp
qed

lemma consumes_return [simp]: "consumes (\<lambda>t s. Inr (v, s)) w [] \<longleftrightarrow> v = w"
  by (auto simp: consumes_def)

lemma consumes_bind_return: "consumes f v u \<Longrightarrow> consumes (bind_read f (\<lambda>v t s. Inr (h v, s))) (h v) u"
  using bind_consumes [of f v u "\<lambda>v t s. Inr (h v, s)" "h v" "[]"] by simp

lemma payload_consumes: "consumes (payload (length b)) (Some b) (b @ CRLF)"
proof -
  let ?g = "\<lambda>d t s. if d ! length b \<noteq> CR \<or> d ! (length b + 1) \<noteq> LF then Inl ErrIssue else Inr (Some (take (length b) d), s)"
  have "consumes (?g (b @ CRLF)) (Some b) []" by (simp add: nth_append)
  from bind_consumes [where g = ?g, OF ReadFull_consumes [of "b @ CRLF" "length b + 2"] this]
  show ?thesis by (simp add: payload_def)
qed

lemma bulk_slot_consumes:
  assumes "int (length b) \<le> maxBulkLength"
  shows "consumes (\<lambda>t s. bulk_slot t (CHR ''$'' # format_nat (length b)) s) (Some b) (b @ CRLF)"
  using assms payload_consumes [of b]
  by (simp add: bulk_slot_eq maxBulkLength_def maxParseLen_def max_int64_def)

lemma null_slot_consumes: "consumes (\<lambda>t s. bulk_slot t ''$-1'' s) None []"
proof -
  have "parseLen ''-1'' = Some (- 1)" by code_simp
  then show ?thesis by (simp add: bulk_slot_eq)
qed

lemma length_text:
  "int n \<le> maxBulkLength \<Longrightarrow> LF \<notin> set (format_nat n)" "int n \<le> maxBulkLength \<Longrightarrow> length (format_nat n) + 3 \<le> bufSize"
  using digits_text [of n] by (simp_all add: maxBulkLength_def bufSize_def)

text \<open>Every item is a type byte, a line and what follows the line.\<close>

lemma item_head:
  assumes "item_ok i"
  obtains c b u where "encode_item i = c # b @ CRLF @ u" "consumes (element_body (c # b)) (item_slot i) u"
    "LF \<notin> set b" "length b + 3 \<le> bufSize" "c \<in> {CHR ''+'', CHR '':'', CHR ''$''}"
proof (cases i)
  case (Status s)
  then show thesis using that [of "CHR ''+''" s "[]"] assms by (simp add: element_body_def [abs_def] text_ok_def)
next
  case (Number n)
  then show thesis
    using that [of "CHR '':''" "format_int n" "[]"] assms int_text [of n]
    by (simp add: element_body_def [abs_def] copied_def bufSize_def)
next
  case (BulkItem b)
  then show thesis
    using that [of "CHR ''$''" "format_nat (length b)" "b @ CRLF"] assms length_text [of "length b"] bulk_slot_consumes [of b]
    by (simp add: element_body_def [abs_def] encode_bulk_def)
next
  case NullBulk
  then show thesis
    using that [of "CHR ''$''" "''-1''" "[]"] null_slot_consumes by (simp add: element_body_def [abs_def] bufSize_def)
qed

lemma read_element_consumes:
  assumes "item_ok i"
  shows "consumes read_element (item_slot i) (encode_item i)"
proof -
  obtain c b u where i: "encode_item i = c # b @ CRLF @ u" "consumes (element_body (c # b)) (item_slot i) u"
      "LF \<notin> set b" "length b + 3 \<le> bufSize" "c \<in> {CHR ''+'', CHR '':'', CHR ''$''}"
    using item_head [OF assms] .
  then have "c \<noteq> LF" by auto
  from line_then [of element_body, OF i(2-4) this] show ?thesis by (simp add: read_element_eq i(1))
qed

lemma read_elements_consumes:
  assumes "list_all item_ok is"
  shows "consumes (\<lambda>t. read_elements t (length is)) (map item_slot is) (concat (map encode_item is))"
  using assms
proof (induction "is")
  case Nil
  show ?case by (simp add: consumes_def)
next
  case (Cons i "is")
  let ?g = "\<lambda>v. bind_read (\<lambda>t. read_elements t (length is)) (\<lambda>vs t s. Inr (v # vs, s))"
  have "consumes (?g (item_slot i)) (item_slot i # map item_slot is) (concat (map encode_item is))"
    using Cons consumes_bind_return [of "\<lambda>t. read_elements t (length is)" _ _ "Cons (item_slot i)"] by simp
  moreover have "consumes read_element (item_slot i) (encode_item i)" using Cons by (simp add: read_element_consumes)
  ultimately have "consumes (bind_read read_element ?g) (item_slot i # map item_slot is) (encode_item i @ concat (map encode_item is))"
    by (rule bind_consumes [rotated])
  then show ?case by (simp only: read_elements_Suc [symmetric] list.map list.size(4) add_Suc_right add_0_right concat.simps)
qed

lemma read_reply_consumes:
  assumes "value_ok v"
  shows "consumes read_reply (value_reply v) (encode_value v)"
proof (cases v)
  case (Item i)
  then obtain c b u where i: "encode_item i = c # b @ CRLF @ u" "consumes (element_body (c # b)) (item_slot i) u"
      "LF \<notin> set b" "length b + 3 \<le> bufSize" "c \<in> {CHR ''+'', CHR '':'', CHR ''$''}"
    using item_head [of i] assms by auto
  have "reply_body (c # b) = bind_read (element_body (c # b)) one_value"
    using i(5) by (intro ext) (auto simp: reply_body_def)
  then have "consumes (reply_body (c # b)) ([item_slot i], None) u"
    using consumes_bind_return [OF i(2), of "\<lambda>v. ([v], None)"] by (simp add: one_value_def [abs_def])
  then show ?thesis unfolding read_reply_def using Item i line_then [of reply_body c b _ u] by auto
next
  case (Failure s)
  then show ?thesis
    unfolding read_reply_def using assms line_then [of reply_body "CHR ''-''" s _ "[]"]
    by (simp add: text_ok_def reply_body_def [abs_def])
next
  case (Flat "is")
  have "nat (int (length is)) = length is" by simp
  moreover have len: "parseLen (format_nat (length is)) = Some (int (length is))" "int (length is) \<le> maxBulkLength"
    using Flat assms by (simp_all add: maxArrayCount_def maxParseLen_def max_int64_def maxBulkLength_def)
  ultimately have "consumes (\<lambda>t s. array_reply t (format_nat (length is)) s) (map item_slot is) (concat (map encode_item is))"
    using read_elements_consumes [of "is"] Flat assms by (simp add: array_reply_def)
  note consumes_bind_return [OF this, of "\<lambda>vs. (vs, None :: redis_err option)"]
  then have "consumes (reply_body (CHR ''*'' # format_nat (length is))) (map item_slot is, None) (concat (map encode_item is))"
    by (simp add: reply_body_def [abs_def])
  then show ?thesis
    unfolding read_reply_def using Flat length_text [OF len(2)] line_then [of reply_body "CHR ''*''" "format_nat (length is)"] by simp
qed

section \<open>Properties of the codec\<close>



text \<open>
  C23: A reply is taken only when it is complete. When \<open>readReply\<close> accepts a value, what it returns
  depends only on the bytes it consumed, whatever arrives after them; and had the connection failed
  inside those bytes, at any point, the result would have been an I/O error that the client treats as a
  lost connection, never a shorter value and never a protocol error.
\<close>

theorem reply_complete:
  assumes "readReply t s = (rep, r)" and "rep_clean rep"
  shows "\<exists>u. s = u @ r \<and> (\<forall>t' x. readReply t' (u @ x) = (rep, x))
    \<and> (\<forall>t' p q. u = p @ q \<and> q \<noteq> [] \<longrightarrow> (\<exists>e. readReply t' p = (dirty (IoErr e), p)))"
proof -
  obtain u where u: "s = u @ r" "consumes read_reply (rep_values rep, rep_err rep) u"
    using framedD [OF framed_read_reply readReply_clean [OF assms]] by blast
  have rep: "\<lparr>rep_values = rep_values rep, rep_clean = True, rep_err = rep_err rep\<rparr> = rep" using assms(2) by (cases rep) simp
  show ?thesis
    using u(1) consumes_readReply [OF u(2)] unfolding rep by (intro exI [of _ u] conjI allI impI) blast+
qed

theorem reply_complete_witness:
  "\<exists>u. ''$2'' @ CRLF @ ''ab'' @ CRLF @ ''!'' = u @ ''!'' \<and> (\<exists>e. readReply EOF (butlast u) = (dirty (IoErr e), butlast u))"
proof -
  have "readReply EOF (''$2'' @ CRLF @ ''ab'' @ CRLF @ ''!'') = (ok_reply [Some ''ab''], ''!'')" by code_simp
  from reply_complete [OF this] obtain u where u: "''$2'' @ CRLF @ ''ab'' @ CRLF @ ''!'' = u @ ''!''"
      "\<forall>t' p q. u = p @ q \<and> q \<noteq> [] \<longrightarrow> (\<exists>e. readReply t' p = (dirty (IoErr e), p))"
    by auto
  then have "u \<noteq> []" by auto
  then have "u = butlast u @ [last u]" by simp
  then show ?thesis using u by blast
qed

definition command_ok :: "string list \<Rightarrow> bool" where
  "command_ok args \<longleftrightarrow> int (length args) \<le> maxArrayCount \<and> list_all (\<lambda>a. int (length a) \<le> maxBulkLength) args"

lemma readReply_encode_command:
  assumes "command_ok args"
  shows "readReply t (encode_command args @ x) = (ok_reply (map Some args), x)"
proof -
  let ?v = "Flat (map BulkItem args)"
  have "value_ok ?v" using assms by (simp add: command_ok_def list_all_iff)
  moreover have "encode_value ?v = encode_command args" by (simp add: encode_command_def comp_def)
  ultimately show ?thesis
    using consumes_readReply(1) [OF read_reply_consumes [of ?v, unfolded value_reply.simps]] by (simp add: comp_def)
qed

text \<open>
  Commands are unambiguous on the wire. The bytes of \<open>writeCommand\<close> for arguments within the caps
  decode to exactly those arguments, whatever bytes the arguments hold (CRLF, type bytes or nothing at
  all), and two commands followed by anything agree only if they are the same.
\<close>

theorem command_unambiguous:
  assumes "command_ok args" and "command_ok args'" and "writeCommand None args = Inr w" and "writeCommand None args' = Inr w'"
  shows "readReply t (w @ x) = (ok_reply (map Some args), x) \<and> (w @ x = w' @ y \<longrightarrow> args = args' \<and> x = y)"
proof (intro conjI impI)
  have w: "w = encode_command args" "w' = encode_command args'" using assms(3,4) by (simp_all add: writeCommand_def)
  show "readReply t (w @ x) = (ok_reply (map Some args), x)" using readReply_encode_command [OF assms(1)] by (simp add: w)
  show "args = args'" and "x = y" if "w @ x = w' @ y"
  proof -
    have "readReply t (w @ x) = readReply t (w' @ y)" using that by (rule arg_cong)
    then have "(ok_reply (map Some args), x) = (ok_reply (map Some args'), y)"
      unfolding w readReply_encode_command [OF assms(1)] readReply_encode_command [OF assms(2)] .
    then show "args = args'" and "x = y" by (simp_all add: inj_map_eq_map)
  qed
qed

theorem command_unambiguous_witness:
  "readReply EOF (''*2'' @ CRLF @ ''$3'' @ CRLF @ ''GET'' @ CRLF @ ''$2'' @ CRLF @ CRLF @ CRLF)
    = (ok_reply [Some ''GET'', Some CRLF], [])"
proof -
  have e: "encode_command [''GET'', CRLF] = ''*2'' @ CRLF @ ''$3'' @ CRLF @ ''GET'' @ CRLF @ ''$2'' @ CRLF @ CRLF @ CRLF"
    by code_simp
  have "command_ok [''GET'', CRLF]" by (simp add: command_ok_def maxArrayCount_def maxBulkLength_def)
  from command_unambiguous [OF this this, of _ _ EOF "[]"] show ?thesis by (simp add: writeCommand_def e)
qed

lemma copied_length: "copied b = Some d \<Longrightarrow> d = b"
  by (auto simp: copied_def split: if_splits)

definition slot_ok :: "slot \<Rightarrow> bool" where
  "slot_ok v \<longleftrightarrow> (case v of None \<Rightarrow> True | Some b \<Rightarrow> int (length b) \<le> maxBulkLength)"

definition dirty_err :: "redis_err \<Rightarrow> bool" where
  "dirty_err e \<longleftrightarrow> e = ErrIssue \<or> e = ErrUnsupportedReply \<or> (\<exists>i. e = IoErr i)"

lemma readLine_result:
  "case readLine t s of Inl e \<Rightarrow> e = ErrIssue \<or> (\<exists>i. e = IoErr i) | Inr (l, r) \<Rightarrow> length l < 4095"
  using readLine_Inr [of t s] by (auto simp: readLine_def bufSize_def split: sum.split option.splits if_splits)

lemma bulk_slot_result:
  "case bulk_slot t head s of Inl e \<Rightarrow> dirty_err e | Inr (v, r) \<Rightarrow> slot_ok v"
  by (auto simp: bulk_slot_eq payload_def bind_read_def ReadFull_def slot_ok_def dirty_err_def
      split: list.splits option.splits sum.splits if_splits)

lemma copied_ok: "length b < 4095 \<Longrightarrow> slot_ok (copied b)"
  by (simp add: slot_ok_def copied_def maxBulkLength_def)

lemma read_element_result:
  "case read_element t s of Inl e \<Rightarrow> dirty_err e | Inr (v, r) \<Rightarrow> slot_ok v"
  using readLine_result [of t s] bulk_slot_result
  by (fastforce simp: read_element_def dirty_err_def copied_ok split: sum.splits list.splits)

lemma read_elements_result:
  "case read_elements t n s of Inl e \<Rightarrow> dirty_err e | Inr (vs, r) \<Rightarrow> length vs = n \<and> list_all slot_ok vs"
proof (induction n arbitrary: s)
  case (Suc n)
  show ?case
  proof (cases "read_element t s")
    case (Inr vr)
    then show ?thesis using Suc [of "snd vr"] read_element_result [of t s] by (auto split: sum.splits prod.splits)
  qed (use read_element_result [of t s] in simp)
qed simp

lemma read_elements_Inl: "read_elements t n s = Inl e \<Longrightarrow> dirty_err e"
  and read_elements_Inr: "read_elements t n s = Inr (vs, r) \<Longrightarrow> length vs = n \<and> list_all slot_ok vs"
  using read_elements_result [where t = t and n = n and s = s] by simp_all

lemma readReply_result:
  assumes "readReply t s = (rep, r)"
  shows "int (length (rep_values rep)) \<le> maxArrayCount" and "list_all slot_ok (rep_values rep)"
    and "\<not> rep_clean rep \<Longrightarrow> rep_values rep = [] \<and> (\<exists>e. rep_err rep = Some e \<and> dirty_err e)"
    and "rep_clean rep \<Longrightarrow> rep_err rep = None \<or> rep_values rep = [] \<and> (rep_err rep = Some ErrNoAuth \<or> (\<exists>m. rep_err rep = Some (ReplyErr m)))"
proof -
  have array: "case array_reply t b x of Inl e \<Rightarrow> dirty_err e | Inr (vs, _) \<Rightarrow> int (length vs) \<le> maxArrayCount \<and> list_all slot_ok vs" for b x
    using read_elements_Inl read_elements_Inr
    by (fastforce simp: array_reply_def dirty_err_def split: option.split sum.splits)
  note facts = readLine_result [of t s] array bulk_slot_result
  show "\<not> rep_clean rep \<Longrightarrow> rep_values rep = [] \<and> (\<exists>e. rep_err rep = Some e \<and> dirty_err e)"
    using assms facts by (fastforce simp: readReply_def dirty_err_def split: sum.splits list.splits if_splits)
  show "rep_clean rep \<Longrightarrow> rep_err rep = None \<or> rep_values rep = [] \<and> (rep_err rep = Some ErrNoAuth \<or> (\<exists>m. rep_err rep = Some (ReplyErr m)))"
    using assms by (auto simp: readReply_def replyError_def split: sum.splits list.splits if_splits)
  show "int (length (rep_values rep)) \<le> maxArrayCount"
    using assms facts by (fastforce simp: readReply_def maxArrayCount_def split: sum.splits list.splits if_splits)
  show "list_all slot_ok (rep_values rep)"
    using assms facts by (fastforce simp: readReply_def copied_ok split: sum.splits list.splits if_splits)
qed

text \<open>
  C24: Whatever the peer sends, the decoder stays within its caps and classifies it. A reply has at most
  \<open>2 ^ 20\<close> slots of at most 64 MiB each; a stream that is no longer usable carries no values and is a
  framing error, an unsupported reply or an I/O error; and a usable stream with an error carries no values
  and the error is the peer's own text or the authentication sentinel.
\<close>

theorem reply_bounded_and_classified:
  assumes "readReply t s = (rep, r)"
  shows "int (length (rep_values rep)) \<le> maxArrayCount \<and> list_all slot_ok (rep_values rep)
    \<and> (if rep_clean rep
       then rep_err rep = None \<or> rep_values rep = [] \<and> (rep_err rep = Some ErrNoAuth \<or> (\<exists>m. rep_err rep = Some (ReplyErr m)))
       else rep_values rep = [] \<and> (\<exists>e. rep_err rep = Some e \<and> (isDirtyProtocolError e \<or> (\<exists>i. e = IoErr i))))"
  using readReply_result [OF assms] by (auto simp: dirty_err_def isDirtyProtocolError_def)

theorem reply_bounded_and_classified_witness:
  "readReply EOF (''$67108865'' @ CRLF) = (dirty ErrIssue, ''$67108865'' @ CRLF) \<and> isDirtyProtocolError ErrIssue"
proof -
  have r: "readReply EOF (''$67108865'' @ CRLF) = (dirty ErrIssue, ''$67108865'' @ CRLF)" by code_simp
  from reply_bounded_and_classified [OF r] r show ?thesis by simp
qed

text \<open>
  \<open>parseLen\<close> is \<open>strconv.ParseInt\<close> without an explicit plus sign. On every input it gives the same
  number or refusal as \<open>ParseInt(s, 10, 64)\<close>, leading zeros and overflow included, except that it refuses
  a leading plus and the least int64.
\<close>

theorem parseLen_is_ParseInt:
  "parseLen s =
     (case parse_int64 s of
        None \<Rightarrow> None
      | Some n \<Rightarrow> if hd s = CHR ''+'' \<or> n = min_int64 then None else Some n)"
proof (cases s)
  case (Cons c cs)
  have loop: "parseLen_loop 0 d = (if list_all is_digit d \<and> int (digits_val d) \<le> maxParseLen then Some (int (digits_val d)) else None)" for d
    by (simp add: parseLen_loop_eq decimal_digits_val maxParseLen_def max_int64_def)
  consider "c = CHR ''-''" | "c = CHR ''+''" | "c \<noteq> CHR ''-''" "c \<noteq> CHR ''+''" by blast
  then show ?thesis
  proof cases
    case 1
    then show ?thesis
      by (auto simp: Cons parseLen_def loop parse_int64_def parse_digits_def Let_def is_int64_def maxParseLen_def
          max_int64_def min_int64_def simp del: parseLen_loop.simps)
  next
    case 2
    then show ?thesis
      by (auto simp: Cons parseLen_def loop is_digit_def split: option.split simp del: parseLen_loop.simps)
  next
    case 3
    then show ?thesis
      by (auto simp: Cons parseLen_def loop parse_int64_def parse_digits_def Let_def is_int64_def maxParseLen_def
          max_int64_def min_int64_def simp del: parseLen_loop.simps)
  qed
qed (simp add: parseLen_def parse_int64_def)

end
