(* ===== verification/Client.thy ===== *)
theory Client
  imports Resp "HOL-Library.Multiset"
begin

text \<open>
  The client of \<open>src/simpleredis\<close>: its configuration with defaults (\<open>config.go\<close>), the struct and its
  constructor and accessors (\<open>simpleredis.go\<close>), and the atomic operations on the socket pool
  (\<open>pool.go\<close>): the in-use turns, the idle list and Close. Each operation on the idle list runs under
  its mutex and each operation on the channel of turns is one send or receive, so each is one function
  on the client's state. Logging is left out.
\<close>

section \<open>Configuration\<close>

definition defaultMaxIdleConns :: int where "defaultMaxIdleConns = 8"
definition defaultPoolSize :: int where "defaultPoolSize = 8"
definition defaultIdleTimeout :: duration where "defaultIdleTimeout = 30 * Second"
definition defaultDialTimeout :: duration where "defaultDialTimeout = 200 * Millisecond"
definition defaultCommandTimeout :: duration where "defaultCommandTimeout = 900 * Millisecond"
definition defaultPoolTimeout :: duration where "defaultPoolTimeout = 200 * Millisecond"
definition defaultMaxRetries :: int where "defaultMaxRetries = 1"

record RedisConfig =
  cf_Host :: string
  cf_Pass :: string
  cf_Database :: string
  cf_PoolSize :: int
  cf_MaxIdleConns :: int
  cf_PoolTimeout :: duration
  cf_IdleTimeout :: duration
  cf_DialTimeout :: duration
  cf_CommandTimeout :: duration
  cf_MaxRetries :: int
  cf_MinRetryBackoff :: duration
  cf_MaxRetryBackoff :: duration

text \<open>\<open>ErrMaxIdleConnsAbovePoolSize\<close>, wrapped with the two numbers.\<close>

datatype config_err = ErrMaxIdleConnsAbovePoolSize int int

definition or_default :: "int \<Rightarrow> int \<Rightarrow> int" where
  "or_default v d = (if v \<le> 0 then d else v)"

definition applyDefaults :: "RedisConfig \<Rightarrow> config_err + RedisConfig" where
  "applyDefaults cfg =
     (let pool = or_default (cf_PoolSize cfg) defaultPoolSize;
          idle = (if cf_MaxIdleConns cfg \<le> 0
                  then (if defaultMaxIdleConns > pool then pool else defaultMaxIdleConns)
                  else cf_MaxIdleConns cfg)
      in if \<not> cf_MaxIdleConns cfg \<le> 0 \<and> cf_MaxIdleConns cfg > pool
         then Inl (ErrMaxIdleConnsAbovePoolSize (cf_MaxIdleConns cfg) pool)
         else Inr (cfg\<lparr>cf_PoolSize := pool, cf_MaxIdleConns := idle,
                cf_PoolTimeout := or_default (cf_PoolTimeout cfg) defaultPoolTimeout,
                cf_IdleTimeout := or_default (cf_IdleTimeout cfg) defaultIdleTimeout,
                cf_DialTimeout := or_default (cf_DialTimeout cfg) defaultDialTimeout,
                cf_CommandTimeout := or_default (cf_CommandTimeout cfg) defaultCommandTimeout,
                cf_MaxRetries := (if cf_MaxRetries cfg = 0 then defaultMaxRetries else cf_MaxRetries cfg)\<rparr>))"

section \<open>The client\<close>

text \<open>
  A socket is the bytes already in its \<open>bufio.Reader\<close>, the bytes the peer has sent that no read has
  fetched yet, and the time of its last release. The number stands for the pointer.
\<close>

record pooledConn =
  pc_id :: nat
  pc_reader :: string
  pc_wire :: string
  pc_lastUsed :: instant

datatype groupWritePath = groupWriteUnknown | groupWriteNative | groupWriteLua

text \<open>The channel of turns is nil, or has a capacity and a number of tokens in it.\<close>

record SimpleRedis =
  sr_host :: string
  sr_pass :: string
  sr_database :: string
  sr_maxRetries :: int
  sr_minRetryBackoff :: duration
  sr_maxRetryBackoff :: duration
  sr_poolSize :: int
  sr_maxIdleConns :: int
  sr_poolTimeout :: duration
  sr_idleTimeout :: duration
  sr_dialTimeout :: duration
  sr_commandTimeout :: duration
  sr_idleConns :: "pooledConn list"
  sr_closed :: bool
  sr_inUseTurns :: "(nat \<times> nat) option"
  sr_overFrees :: int
  sr_groupWrite :: groupWritePath

definition liveCap :: "SimpleRedis \<Rightarrow> int" where
  "liveCap sr =
     (case sr_inUseTurns sr of
        Some (cap, _) \<Rightarrow> int cap
      | None \<Rightarrow> if sr_poolSize sr > 0 then sr_poolSize sr else defaultPoolSize)"

definition inUseTurnWait :: "SimpleRedis \<Rightarrow> duration" where
  "inUseTurnWait sr = (if sr_poolTimeout sr > 0 then sr_poolTimeout sr else defaultPoolTimeout)"

definition ensureInUseTurns :: "SimpleRedis \<Rightarrow> SimpleRedis" where
  "ensureInUseTurns sr =
     (case sr_inUseTurns sr of
        Some _ \<Rightarrow> sr
      | None \<Rightarrow> sr\<lparr>sr_inUseTurns := Some (nat (liveCap sr), nat (liveCap sr))\<rparr>)"

text \<open>\<open>New\<close>, before the turns exist and with them.\<close>

definition unpooled :: "RedisConfig \<Rightarrow> SimpleRedis" where
  "unpooled cfg = \<lparr>sr_host = cf_Host cfg, sr_pass = cf_Pass cfg, sr_database = cf_Database cfg,
     sr_maxRetries = cf_MaxRetries cfg, sr_minRetryBackoff = cf_MinRetryBackoff cfg,
     sr_maxRetryBackoff = cf_MaxRetryBackoff cfg, sr_poolSize = cf_PoolSize cfg,
     sr_maxIdleConns = cf_MaxIdleConns cfg, sr_poolTimeout = cf_PoolTimeout cfg,
     sr_idleTimeout = cf_IdleTimeout cfg, sr_dialTimeout = cf_DialTimeout cfg,
     sr_commandTimeout = cf_CommandTimeout cfg, sr_idleConns = [], sr_closed = False,
     sr_inUseTurns = None, sr_overFrees = 0, sr_groupWrite = groupWriteUnknown\<rparr>"

definition Redis_New :: "RedisConfig \<Rightarrow> config_err + SimpleRedis" where
  "Redis_New cfg = map_sum id (\<lambda>cfg. ensureInUseTurns (unpooled cfg)) (applyDefaults cfg)"

definition isClosed :: "SimpleRedis \<Rightarrow> bool" where
  "isClosed sr = sr_closed sr"

definition PoolSize :: "SimpleRedis \<Rightarrow> int" where
  "PoolSize sr = liveCap sr"

definition MaxIdleConns :: "SimpleRedis \<Rightarrow> int" where
  "MaxIdleConns sr = sr_maxIdleConns sr"

definition OverFrees :: "SimpleRedis \<Rightarrow> int" where
  "OverFrees sr = sr_overFrees sr"

definition PoolTimeout :: "SimpleRedis \<Rightarrow> duration" where
  "PoolTimeout sr = inUseTurnWait sr"

definition IdleTimeout :: "SimpleRedis \<Rightarrow> duration" where
  "IdleTimeout sr = (if sr_idleTimeout sr > 0 then sr_idleTimeout sr else defaultIdleTimeout)"

definition DialTimeout :: "SimpleRedis \<Rightarrow> duration" where
  "DialTimeout sr = (if sr_dialTimeout sr > 0 then sr_dialTimeout sr else defaultDialTimeout)"

definition CommandTimeout :: "SimpleRedis \<Rightarrow> duration" where
  "CommandTimeout sr = (if sr_commandTimeout sr > 0 then sr_commandTimeout sr else defaultCommandTimeout)"

definition MaxRetries :: "SimpleRedis \<Rightarrow> int" where
  "MaxRetries sr = sr_maxRetries sr"

section \<open>The pool\<close>

text \<open>A receive from the channel of turns: \<^const>\<open>None\<close> where it would block.\<close>

definition takeTurn :: "SimpleRedis \<Rightarrow> SimpleRedis option" where
  "takeTurn sr =
     (case sr_inUseTurns sr of
        Some (cap, Suc n) \<Rightarrow> Some (sr\<lparr>sr_inUseTurns := Some (cap, n)\<rparr>)
      | _ \<Rightarrow> None)"

definition freeInUseTurn :: "SimpleRedis \<Rightarrow> SimpleRedis" where
  "freeInUseTurn sr =
     (case sr_inUseTurns sr of
        None \<Rightarrow> sr
      | Some (cap, n) \<Rightarrow>
          if n < cap then sr\<lparr>sr_inUseTurns := Some (cap, Suc n)\<rparr>
          else sr\<lparr>sr_overFrees := sr_overFrees sr + 1\<rparr>)"

definition young :: "SimpleRedis \<Rightarrow> instant \<Rightarrow> pooledConn \<Rightarrow> bool" where
  "young sr now conn \<longleftrightarrow> time_sub now (pc_lastUsed conn) < sr_idleTimeout sr"

record taken =
  tk_reused :: "pooledConn option"
  tk_stale :: "pooledConn list"
  tk_closed :: bool

definition takeIdleConn :: "instant \<Rightarrow> SimpleRedis \<Rightarrow> taken \<times> SimpleRedis" where
  "takeIdleConn now sr =
     (if sr_closed sr then (\<lparr>tk_reused = None, tk_stale = [], tk_closed = True\<rparr>, sr)
      else
        let survivors = filter (young sr now) (sr_idleConns sr);
            stale = filter (\<lambda>c. \<not> young sr now c) (sr_idleConns sr)
        in if survivors = [] then (\<lparr>tk_reused = None, tk_stale = stale, tk_closed = False\<rparr>, sr\<lparr>sr_idleConns := []\<rparr>)
           else (\<lparr>tk_reused = Some (last survivors), tk_stale = stale, tk_closed = False\<rparr>,
                 sr\<lparr>sr_idleConns := butlast survivors\<rparr>))"

definition parkIdleConn :: "pooledConn \<Rightarrow> SimpleRedis \<Rightarrow> bool \<times> SimpleRedis" where
  "parkIdleConn conn sr =
     (if sr_closed sr \<or> int (length (sr_idleConns sr)) \<ge> sr_maxIdleConns sr then (False, sr)
      else (True, sr\<lparr>sr_idleConns := sr_idleConns sr @ [conn]\<rparr>))"

text \<open>\<open>release\<close> returns the sockets it closes.\<close>

definition release :: "instant \<Rightarrow> pooledConn \<Rightarrow> bool \<Rightarrow> SimpleRedis \<Rightarrow> pooledConn list \<times> SimpleRedis" where
  "release now conn reusable sr =
     (let conn' = (if reusable then conn\<lparr>pc_lastUsed := now\<rparr> else conn);
          (parked, sr') = (if reusable then parkIdleConn conn' sr else (False, sr))
      in (if parked then [] else [conn'], freeInUseTurn sr'))"

text \<open>\<open>Close\<close> in its two atomic parts: the swap of the flag, which only the first call wins, and the
  drain of the idle list, whose sockets it closes.\<close>

definition close_swap :: "SimpleRedis \<Rightarrow> bool \<times> SimpleRedis" where
  "close_swap sr = (if sr_closed sr then (False, sr) else (True, sr\<lparr>sr_closed := True\<rparr>))"

definition close_drain :: "SimpleRedis \<Rightarrow> pooledConn list \<times> SimpleRedis" where
  "close_drain sr = (sr_idleConns sr, sr\<lparr>sr_idleConns := []\<rparr>)"

definition Redis_Close :: "SimpleRedis \<Rightarrow> pooledConn list \<times> SimpleRedis" where
  "Redis_Close sr = (case close_swap sr of (won, sr') \<Rightarrow> if won then close_drain sr' else ([], sr'))"

section \<open>The pool's contract\<close>

text \<open>The number of turns in the channel, and what a client from \<open>New\<close> keeps: the settings
  with the state of the pool blanked out.\<close>

definition tokens :: "SimpleRedis \<Rightarrow> nat" where
  "tokens sr = (case sr_inUseTurns sr of None \<Rightarrow> 0 | Some (_, n) \<Rightarrow> n)"

definition capacity :: "SimpleRedis \<Rightarrow> nat" where
  "capacity sr = (case sr_inUseTurns sr of None \<Rightarrow> 0 | Some (cap, _) \<Rightarrow> cap)"

definition frozen :: "SimpleRedis \<Rightarrow> SimpleRedis" where
  "frozen sr = sr\<lparr>sr_idleConns := [], sr_closed := False, sr_overFrees := 0,
     sr_inUseTurns := map_option (\<lambda>(cap, _). (cap, 0)) (sr_inUseTurns sr)\<rparr>"

definition pool_ok :: "SimpleRedis \<Rightarrow> bool" where
  "pool_ok sr \<longleftrightarrow> sr_inUseTurns sr \<noteq> None \<and> 0 < capacity sr \<and> tokens sr \<le> capacity sr
     \<and> int (length (sr_idleConns sr)) \<le> sr_maxIdleConns sr \<and> sr_maxIdleConns sr \<le> int (capacity sr)
     \<and> 0 < sr_maxIdleConns sr \<and> sr_overFrees sr = 0"

lemma frozen_fields:
  assumes "frozen sr' = frozen sr"
  shows "sr_maxIdleConns sr' = sr_maxIdleConns sr" "capacity sr' = capacity sr" "sr_idleTimeout sr' = sr_idleTimeout sr"
    "sr_inUseTurns sr' = None \<longleftrightarrow> sr_inUseTurns sr = None" "sr_commandTimeout sr' = sr_commandTimeout sr"
    "sr_pass sr' = sr_pass sr" "sr_database sr' = sr_database sr" "sr_groupWrite sr' = sr_groupWrite sr"
proof -
  have "sr_maxIdleConns (frozen sr') = sr_maxIdleConns (frozen sr)" "capacity (frozen sr') = capacity (frozen sr)"
    "sr_idleTimeout (frozen sr') = sr_idleTimeout (frozen sr)" "sr_commandTimeout (frozen sr') = sr_commandTimeout (frozen sr)"
    "sr_inUseTurns (frozen sr') = None \<longleftrightarrow> sr_inUseTurns (frozen sr) = None"
    "sr_pass (frozen sr') = sr_pass (frozen sr)" "sr_database (frozen sr') = sr_database (frozen sr)"
    "sr_groupWrite (frozen sr') = sr_groupWrite (frozen sr)"
    using assms by simp_all
  then show "sr_maxIdleConns sr' = sr_maxIdleConns sr" "capacity sr' = capacity sr" "sr_idleTimeout sr' = sr_idleTimeout sr"
    "sr_inUseTurns sr' = None \<longleftrightarrow> sr_inUseTurns sr = None" "sr_commandTimeout sr' = sr_commandTimeout sr"
    "sr_pass sr' = sr_pass sr" "sr_database sr' = sr_database sr" "sr_groupWrite sr' = sr_groupWrite sr"
    by (auto simp: frozen_def capacity_def case_prod_beta split: option.splits)
qed

lemma takeTurn_Some:
  assumes "takeTurn sr = Some sr'"
  shows "tokens sr = Suc (tokens sr')" "capacity sr' = capacity sr" "frozen sr' = frozen sr"
    "sr_idleConns sr' = sr_idleConns sr" "sr_closed sr' = sr_closed sr" "sr_overFrees sr' = sr_overFrees sr"
  using assms by (auto simp: takeTurn_def tokens_def capacity_def frozen_def split: option.splits nat.splits)

lemma takeTurn_None: "takeTurn sr = None \<longleftrightarrow> tokens sr = 0"
  by (auto simp: takeTurn_def tokens_def split: option.splits nat.splits)

lemma freeInUseTurn_keeps:
  "capacity (freeInUseTurn sr) = capacity sr" "frozen (freeInUseTurn sr) = frozen sr"
  "sr_idleConns (freeInUseTurn sr) = sr_idleConns sr" "sr_closed (freeInUseTurn sr) = sr_closed sr"
  by (auto simp: freeInUseTurn_def capacity_def frozen_def split: option.splits)

lemma freeInUseTurn_returns:
  assumes "tokens sr < capacity sr"
  shows "tokens (freeInUseTurn sr) = Suc (tokens sr)" "sr_overFrees (freeInUseTurn sr) = sr_overFrees sr"
  using assms by (auto simp: freeInUseTurn_def capacity_def tokens_def split: option.splits)

lemma takeIdleConn_keeps:
  assumes "takeIdleConn now sr = (tk, sr')"
  shows "tokens sr' = tokens sr" "capacity sr' = capacity sr" "frozen sr' = frozen sr" "sr_closed sr' = sr_closed sr"
    "sr_overFrees sr' = sr_overFrees sr" "tk_closed tk = sr_closed sr"
  using assms
  by (auto simp: takeIdleConn_def Let_def tokens_def capacity_def frozen_def split: if_splits)

text \<open>The sweep and the pop lose no socket: every idle one is kept, closed as stale or handed out.\<close>

lemma takeIdleConn_mset:
  assumes "takeIdleConn now sr = (tk, sr')" and "\<not> sr_closed sr"
  shows "mset (sr_idleConns sr) = mset (sr_idleConns sr') + mset (tk_stale tk) + mset_set (set_option (tk_reused tk))"
proof -
  let ?yes = "filter (young sr now) (sr_idleConns sr)" and ?no = "filter (\<lambda>c. \<not> young sr now c) (sr_idleConns sr)"
  have "mset xs = mset (filter P xs) + mset (filter (\<lambda>c. \<not> P c) xs)" for P and xs :: "pooledConn list"
    by (induction xs) simp_all
  then have all: "mset (sr_idleConns sr) = mset ?yes + mset ?no" .
  show ?thesis
  proof (cases "?yes = []")
    case True
    then have "sr_idleConns sr' = []" "tk_stale tk = ?no" "tk_reused tk = None"
      using assms by (auto simp: takeIdleConn_def Let_def)
    with all True show ?thesis by (simp only: mset.simps(1) add_0 option.set mset_set.empty add_0_right)
  next
    case False
    then have eqs: "sr_idleConns sr' = butlast ?yes" "tk_stale tk = ?no" "tk_reused tk = Some (last ?yes)"
      using assms by (auto simp: takeIdleConn_def Let_def)
    then have one: "mset_set (set_option (tk_reused tk)) = {#last ?yes#}" by simp
    have m: "mset ?yes = mset (butlast ?yes) + {#last ?yes#}"
      using append_butlast_last_id [OF False] mset_append [of "butlast ?yes" "[last ?yes]"] by simp
    show ?thesis unfolding eqs(1,2) one all m by (simp only: ac_simps)
  qed
qed

lemma parkIdleConn_keeps:
  assumes "parkIdleConn conn sr = (parked, sr')"
  shows "tokens sr' = tokens sr" "capacity sr' = capacity sr" "frozen sr' = frozen sr" "sr_closed sr' = sr_closed sr"
    "sr_overFrees sr' = sr_overFrees sr" "sr_idleConns sr' = sr_idleConns sr @ (if parked then [conn] else [])"
    "parked \<longleftrightarrow> \<not> sr_closed sr \<and> int (length (sr_idleConns sr)) < sr_maxIdleConns sr"
  using assms by (auto simp: parkIdleConn_def tokens_def capacity_def frozen_def split: if_splits)

end
