(* ===== verification/Session.thy ===== *)
theory Session
  imports Client
begin

text \<open>
  One command on the client, from \<open>src/simpleredis\<close>: \<open>do\<close> on a socket (\<open>resp.go\<close>), \<open>dial\<close> with its
  handshake and \<open>borrowSocket\<close> (\<open>pool.go\<close>), and \<open>exec\<close> with its deadline and retry loop
  (\<open>commands_exec.go\<close>). What the outside decides is an argument, one record per function: the clock and
  \<open>ctx.Err()\<close> at each point where the code looks at them, the bytes the peer sends, connection errors
  and the random sample of the backoff. A context is its deadline; its error at a moment is part of the
  moment. The functions log what they do to sockets in a list of events. \<open>exec\<close> runs against the pool
  as it finds it; interleavings of commands are the subject of the pool's step relation.
\<close>

section \<open>Contexts\<close>

text \<open>What a check of the context sees: the wall clock, and \<open>ctx.Err()\<close>.\<close>

record moment =
  mo_now :: instant
  mo_err :: "ctx_err option"

type_synonym deadline = "instant option"

definition contextStop :: "deadline \<Rightarrow> moment \<Rightarrow> ctx_err option" where
  "contextStop dl mo =
     (case mo_err mo of
        Some e \<Rightarrow> Some e
      | None \<Rightarrow> (case dl of
          None \<Rightarrow> None
        | Some d \<Rightarrow> if \<not> mo_now mo < d then Some CtxDeadline else None))"

definition ioOrContext :: "deadline \<Rightarrow> moment \<Rightarrow> redis_err \<Rightarrow> redis_err" where
  "ioOrContext dl mo err =
     (case contextStop dl mo of
        Some s \<Rightarrow> CtxErr s
      | None \<Rightarrow> if dl \<noteq> None \<and> err = IoErr DeadlineExceeded then CtxErr CtxDeadline else ioError err)"

definition commandBudgetLeft :: "SimpleRedis \<Rightarrow> deadline \<Rightarrow> instant \<Rightarrow> duration" where
  "commandBudgetLeft sr dl now = (case dl of None \<Rightarrow> CommandTimeout sr | Some d \<Rightarrow> time_sub d now)"

text \<open>The parent's deadline if it is not later than the library's, which then does not own the deadline;
  otherwise a child context with the library's deadline.\<close>

definition bindCommandDeadline :: "SimpleRedis \<Rightarrow> instant \<Rightarrow> deadline \<Rightarrow> deadline \<times> bool" where
  "bindCommandDeadline sr now dl =
     (let library = now + CommandTimeout sr
      in case dl of
           Some parent \<Rightarrow> if \<not> library < parent then (Some parent, False) else (Some library, True)
         | None \<Rightarrow> (Some library, True))"

definition libraryTimeout :: "redis_err \<Rightarrow> bool \<Rightarrow> redis_err" where
  "libraryTimeout err owns = (if owns \<and> err = CtxErr CtxDeadline then ErrTimeout else err)"

text \<open>\<open>waitUntil\<close>: with a positive delay the context or the timer comes first.\<close>

datatype wait_end = WaitDone ctx_err | WaitTimer moment

definition waitUntil :: "deadline \<Rightarrow> duration \<Rightarrow> moment \<Rightarrow> wait_end \<Rightarrow> ctx_err option" where
  "waitUntil dl delay mo w =
     (if delay \<le> 0 then contextStop dl mo
      else case w of WaitDone e \<Rightarrow> Some e | WaitTimer mo' \<Rightarrow> contextStop dl mo')"

section \<open>One command on a socket\<close>

datatype event = Dialed nat | Sent nat "string list" | Closed nat

record do_env =
  de_entry :: moment
  de_budget :: instant
  de_expired :: moment
  de_setDeadlineFails :: bool
  de_write :: "io_err option"
  de_wrote :: moment
  de_bytes :: string
  de_tail :: io_err
  de_seen :: nat
  de_read :: moment
  de_failed :: moment

record do_result =
  dn_values :: "slot list"
  dn_reusable :: bool
  dn_err :: "redis_err option"

abbreviation failed :: "redis_err \<Rightarrow> do_result" where
  "failed e \<equiv> \<lparr>dn_values = [], dn_reusable = False, dn_err = Some e\<rparr>"

text \<open>What \<open>do\<close> makes of the reply once the context has been checked: \<open>left\<close> is what it leaves in the
  reader.\<close>

definition finish_reply :: "deadline \<Rightarrow> do_env \<Rightarrow> reply \<Rightarrow> string \<Rightarrow> do_result" where
  "finish_reply dl env rep left =
     (case rep_err rep of
        Some e \<Rightarrow>
          if \<not> rep_clean rep then
            (if isDirtyProtocolError e then failed e else failed (ioOrContext dl (de_failed env) e))
          else \<lparr>dn_values = rep_values rep, dn_reusable = (left = []), dn_err = Some e\<rparr>
      | None \<Rightarrow> \<lparr>dn_values = rep_values rep, dn_reusable = (left = []), dn_err = None\<rparr>)"

text \<open>The exchange proper. The peer's bytes are those already on the wire, then those it sends; of what
  follows the reply the first \<open>de_seen\<close> bytes had arrived in the reader.\<close>

definition exchange :: "deadline \<Rightarrow> do_env \<Rightarrow> pooledConn \<Rightarrow> string list \<Rightarrow> do_result \<times> pooledConn" where
  "exchange dl env conn args =
     (case writeCommand (de_write env) args of
        Inl e \<Rightarrow> (failed (ioOrContext dl (de_wrote env) e), conn)
      | Inr _ \<Rightarrow>
          (case readReply (de_tail env) (pc_wire conn @ de_bytes env) of
             (rep, rest) \<Rightarrow>
               (let left = take (de_seen env) rest;
                    conn' = conn\<lparr>pc_reader := left, pc_wire := drop (de_seen env) rest\<rparr>
                in case contextStop dl (de_read env) of
                     Some s \<Rightarrow> (failed (CtxErr s), conn')
                   | None \<Rightarrow> (finish_reply dl env rep left, conn'))))"

definition do_cmd :: "SimpleRedis \<Rightarrow> deadline \<Rightarrow> do_env \<Rightarrow> pooledConn \<Rightarrow> string list \<Rightarrow> do_result \<times> pooledConn \<times> event list" where
  "do_cmd sr dl env conn args =
     (case contextStop dl (de_entry env) of
        Some s \<Rightarrow> (failed (CtxErr s), conn, [])
      | None \<Rightarrow>
          if commandBudgetLeft sr dl (de_budget env) \<le> 0 then
            (case contextStop dl (de_expired env) of
               Some s \<Rightarrow> (failed (CtxErr s), conn, [])
             | None \<Rightarrow> (failed ErrTimeout, conn, []))
          else if de_setDeadlineFails env then (failed ErrUnreachable, conn, [])
          else if pc_reader conn \<noteq> [] then (failed ErrUnreachable, conn, [])
          else (case exchange dl env conn args of (d, conn') \<Rightarrow> (d, conn', [Sent (pc_id conn) args])))"

section \<open>Dialing and borrowing\<close>

record dial_env =
  di_entry :: moment
  di_connects :: bool
  di_refused :: moment
  di_id :: nat
  di_auth :: do_env
  di_select :: do_env

definition verbAuth :: string where "verbAuth = ''AUTH''"
definition verbSelect :: string where "verbSelect = ''SELECT''"

text \<open>A step of the handshake: nothing when its setting is empty.\<close>

definition handshake :: "SimpleRedis \<Rightarrow> deadline \<Rightarrow> do_env \<Rightarrow> string \<Rightarrow> string \<Rightarrow> pooledConn \<Rightarrow> redis_err option \<times> pooledConn \<times> event list" where
  "handshake sr dl env verb setting conn =
     (if setting = [] then (None, conn, [])
      else case do_cmd sr dl env conn [verb, setting] of (d, conn', evs) \<Rightarrow> (dn_err d, conn', evs))"

definition dial :: "SimpleRedis \<Rightarrow> deadline \<Rightarrow> dial_env \<Rightarrow> (redis_err \<times> bool + pooledConn) \<times> event list" where
  "dial sr dl env =
     (case contextStop dl (di_entry env) of
        Some s \<Rightarrow> (Inl (CtxErr s, False), [])
      | None \<Rightarrow>
          if \<not> di_connects env then
            (case contextStop dl (di_refused env) of
               Some s \<Rightarrow> (Inl (CtxErr s, False), [])
             | None \<Rightarrow> (Inl (ErrUnreachable, False), []))
          else
            (let conn = \<lparr>pc_id = di_id env, pc_reader = [], pc_wire = [], pc_lastUsed = zero_time\<rparr>
             in case handshake sr dl (di_auth env) verbAuth (sr_pass sr) conn of
                  (Some e, _, evs) \<Rightarrow> (Inl (e, True), Dialed (di_id env) # evs @ [Closed (di_id env)])
                | (None, conn1, evs) \<Rightarrow>
                    (case handshake sr dl (di_select env) verbSelect (sr_database sr) conn1 of
                       (Some e, _, evs') \<Rightarrow> (Inl (e, True), Dialed (di_id env) # evs @ evs' @ [Closed (di_id env)])
                     | (None, conn2, evs') \<Rightarrow> (Inr conn2, Dialed (di_id env) # evs @ evs'))))"

datatype turn_wait = TurnFreed | TurnCtxDone ctx_err | TurnTimer moment

record borrow_env =
  bo_entry :: moment
  bo_wait :: turn_wait
  bo_now :: instant
  bo_dial :: dial_env

datatype borrowed =
  BorrowErr redis_err bool
| Borrowed pooledConn bool

text \<open>The wait for a turn: the turn at once if there is one. A waiter that is handed a turn another
  command just freed leaves the channel as it was.\<close>

definition acquireTurn :: "deadline \<Rightarrow> turn_wait \<Rightarrow> SimpleRedis \<Rightarrow> redis_err + SimpleRedis" where
  "acquireTurn dl w sr =
     (case takeTurn sr of
        Some sr' \<Rightarrow> Inr sr'
      | None \<Rightarrow>
          (case w of
             TurnFreed \<Rightarrow> Inr sr
           | TurnCtxDone e \<Rightarrow> Inl (CtxErr e)
           | TurnTimer mo \<Rightarrow> (case contextStop dl mo of Some s \<Rightarrow> Inl (CtxErr s) | None \<Rightarrow> Inl ErrPoolWait)))"

text \<open>With the turn held: the newest young idle socket, or a dial. The turn goes back on every path
  that does not hand out a socket.\<close>

definition dial_with_turn :: "SimpleRedis \<Rightarrow> deadline \<Rightarrow> dial_env \<Rightarrow> borrowed \<times> SimpleRedis \<times> event list" where
  "dial_with_turn sr dl env =
     (case dial sr dl env of
        (Inl (e, hs), evs) \<Rightarrow> (BorrowErr e hs, freeInUseTurn sr, evs)
      | (Inr conn, evs) \<Rightarrow> (Borrowed conn False, sr, evs))"

definition closes :: "pooledConn list \<Rightarrow> event list" where
  "closes cs = map (\<lambda>c. Closed (pc_id c)) cs"

definition borrow_with_turn :: "deadline \<Rightarrow> borrow_env \<Rightarrow> bool \<Rightarrow> SimpleRedis \<Rightarrow> borrowed \<times> SimpleRedis \<times> event list" where
  "borrow_with_turn dl env skipIdle sr =
     (if \<not> skipIdle then
        (case takeIdleConn (bo_now env) sr of
           (tk, sr') \<Rightarrow>
             if tk_closed tk then (BorrowErr ErrUnreachable False, freeInUseTurn sr', [])
             else (case tk_reused tk of
                     Some conn \<Rightarrow> (Borrowed conn True, sr', closes (tk_stale tk))
                   | None \<Rightarrow>
                       (case dial_with_turn sr' dl (bo_dial env) of (b, sr2, evs) \<Rightarrow> (b, sr2, closes (tk_stale tk) @ evs))))
      else if sr_closed sr then (BorrowErr ErrUnreachable False, freeInUseTurn sr, [])
      else dial_with_turn sr dl (bo_dial env))"

definition borrowSocket :: "deadline \<Rightarrow> borrow_env \<Rightarrow> bool \<Rightarrow> SimpleRedis \<Rightarrow> borrowed \<times> SimpleRedis \<times> event list" where
  "borrowSocket dl env skipIdle sr =
     (if sr_closed sr then (BorrowErr ErrUnreachable False, sr, [])
      else if sr_inUseTurns sr = None then (BorrowErr ErrNotFromNew False, sr, [])
      else case contextStop dl (bo_entry env) of
        Some s \<Rightarrow> (BorrowErr (CtxErr s) False, sr, [])
      | None \<Rightarrow>
          (case acquireTurn dl (bo_wait env) sr of
             Inl e \<Rightarrow> (BorrowErr e False, sr, [])
           | Inr sr' \<Rightarrow> borrow_with_turn dl env skipIdle sr'))"

section \<open>Retries\<close>

definition retryLimits :: "int \<Rightarrow> duration \<Rightarrow> duration \<Rightarrow> int \<times> duration \<times> duration" where
  "retryLimits maxRetries minBackoff maxBackoff =
     (if maxRetries = -1 then 0 else if maxRetries = 0 then 3 else maxRetries,
      if minBackoff = -1 then 0 else if minBackoff = 0 then 8 * Millisecond else minBackoff,
      if maxBackoff = -1 then 0 else if maxBackoff = 0 then 512 * Millisecond else maxBackoff)"

text \<open>\<open>u\<close> is the sample of \<open>rand.Int63n(span)\<close>, reduced to its range. A shift of an int64 wraps, and is 0
  from 64 on.\<close>

definition retryBackoff :: "int \<Rightarrow> int \<Rightarrow> duration \<Rightarrow> duration \<Rightarrow> duration" where
  "retryBackoff u retry minBackoff maxBackoff =
     (if minBackoff = 0 then 0
      else if retry < 0 then maxBackoff
      else
        let backoff = wrap64 (minBackoff * 2 ^ nat retry)
        in if backoff < minBackoff then maxBackoff
           else
             let backoff' = (if backoff > 0 then wrap64 (minBackoff + u mod backoff) else backoff)
             in if backoff' > maxBackoff \<or> backoff' < minBackoff then maxBackoff else backoff')"

definition isCommandTimeout :: "redis_err \<Rightarrow> bool" where
  "isCommandTimeout e \<longleftrightarrow> e = ErrTimeout"

definition isUnreachable :: "redis_err \<Rightarrow> bool" where
  "isUnreachable e \<longleftrightarrow> e = ErrUnreachable"

definition isRetryableRedisReply :: "redis_err \<Rightarrow> bool" where
  "isRetryableRedisReply e \<longleftrightarrow>
     err_text e = ''ERR max number of clients reached''
     \<or> (\<exists>p \<in> set [''LOADING '', ''READONLY '', ''MASTERDOWN '', ''CLUSTERDOWN '', ''TRYAGAIN '']. has_prefix p (err_text e))"

definition shouldRetry :: "redis_err option \<Rightarrow> bool \<Rightarrow> bool" where
  "shouldRetry err handshakeFailed =
     (case err of
        None \<Rightarrow> False
      | Some e \<Rightarrow>
          if e = CtxErr Canceled \<or> e = CtxErr CtxDeadline then False
          else if isCommandTimeout e then False
          else if handshakeFailed then False
          else if isUnreachable e then True
          else isRetryableRedisReply e)"

section \<open>The command loop\<close>

record attempt_env =
  at_entry :: moment
  at_sample :: int
  at_delay :: moment
  at_timer :: wait_end
  at_borrow :: borrow_env
  at_do :: do_env
  at_after :: moment
  at_release :: instant

record exec_env =
  ee_entry :: "ctx_err option"
  ee_now :: instant
  ee_attempt :: "nat \<Rightarrow> attempt_env"

text \<open>\<open>runOnConn\<close>: the command on a borrowed socket, and its release.\<close>

definition runOnConn :: "deadline \<Rightarrow> attempt_env \<Rightarrow> pooledConn \<Rightarrow> string list \<Rightarrow> SimpleRedis
    \<Rightarrow> (slot list \<times> redis_err option) \<times> SimpleRedis \<times> event list" where
  "runOnConn dl env conn args sr =
     (case do_cmd sr dl (at_do env) conn args of
        (d, conn', evs) \<Rightarrow>
          (case contextStop dl (at_after env) of
             Some s \<Rightarrow>
               (case release (at_release env) conn' False sr of
                  (cl, sr') \<Rightarrow> (([], Some (CtxErr s)), sr', evs @ closes cl))
           | None \<Rightarrow>
               (case release (at_release env) conn' (dn_reusable d) sr of
                  (cl, sr') \<Rightarrow> ((dn_values d, dn_err d), sr', evs @ closes cl))))"

text \<open>One pass of the loop: the command is over, or the next pass runs with what it remembers.\<close>

datatype pass = Over "slot list" "redis_err option" | Again redis_err bool

definition attempt_pass :: "deadline \<Rightarrow> bool \<Rightarrow> duration \<Rightarrow> attempt_env \<Rightarrow> nat \<Rightarrow> bool \<Rightarrow> string list \<Rightarrow> SimpleRedis
    \<Rightarrow> pass \<times> SimpleRedis \<times> event list" where
  "attempt_pass dl owns delay env attempt skipIdle args sr =
     (case contextStop dl (at_entry env) of
        Some s \<Rightarrow> (Over [] (Some (libraryTimeout (CtxErr s) owns)), sr, [])
      | None \<Rightarrow>
          (case (if attempt > 0 then waitUntil dl delay (at_delay env) (at_timer env) else None) of
             Some s \<Rightarrow> (Over [] (Some (libraryTimeout (CtxErr s) owns)), sr, [])
           | None \<Rightarrow>
               (case borrowSocket dl (at_borrow env) skipIdle sr of
                  (BorrowErr e hs, sr', evs) \<Rightarrow>
                    (if isClosed sr' \<or> \<not> shouldRetry (Some e) hs then Over [] (Some (libraryTimeout e owns))
                     else Again e skipIdle, sr', evs)
                | (Borrowed conn fromIdle, sr', evs) \<Rightarrow>
                    (case runOnConn dl env conn args sr' of
                       ((vs, err), sr2, evs') \<Rightarrow>
                         (case err of
                            None \<Rightarrow> Over vs None
                          | Some e \<Rightarrow>
                              if \<not> shouldRetry err False then Over vs (Some (libraryTimeout e owns))
                              else Again e (skipIdle \<or> fromIdle \<and> isUnreachable e),
                          sr2, evs @ evs')))))"

text \<open>The loop with \<open>n\<close> passes left; the error after the last pass is the last one seen, or the timeout
  sentinel when there was no pass at all.\<close>

fun exec_loop :: "deadline \<Rightarrow> bool \<Rightarrow> duration \<times> duration \<Rightarrow> (nat \<Rightarrow> attempt_env) \<Rightarrow> string list \<Rightarrow> nat \<Rightarrow> nat \<Rightarrow> bool
    \<Rightarrow> redis_err option \<Rightarrow> SimpleRedis \<Rightarrow> (slot list \<times> redis_err option) \<times> SimpleRedis \<times> event list" where
  "exec_loop dl owns lim env args 0 attempt skipIdle prev sr =
     (case prev of
        Some e \<Rightarrow> (([], Some (libraryTimeout e owns)), sr, [])
      | None \<Rightarrow> (([], Some ErrTimeout), sr, []))"
| "exec_loop dl owns lim env args (Suc n) attempt skipIdle prev sr =
     (let delay = retryBackoff (at_sample (env attempt)) (int attempt) (fst lim) (snd lim)
      in case attempt_pass dl owns delay (env attempt) attempt skipIdle args sr of
           (Over vs err, sr', evs) \<Rightarrow> ((vs, err), sr', evs)
         | (Again e skip', sr', evs) \<Rightarrow>
             (case exec_loop dl owns lim env args n (Suc attempt) skip' (Some e) sr' of
                (res, sr2, evs') \<Rightarrow> (res, sr2, evs @ evs')))"

text \<open>The context a command is called with: nil, or one with an optional deadline.\<close>

datatype go_ctx = NilCtx | Ctx deadline

definition exec :: "exec_env \<Rightarrow> go_ctx \<Rightarrow> string list \<Rightarrow> SimpleRedis \<Rightarrow> (slot list \<times> redis_err option) \<times> SimpleRedis \<times> event list" where
  "exec env ctx args sr =
     (let parent = (case ctx of NilCtx \<Rightarrow> None | Ctx dl \<Rightarrow> dl);
          entry = (case ctx of NilCtx \<Rightarrow> None | Ctx _ \<Rightarrow> ee_entry env)
      in case entry of
           Some e \<Rightarrow> (([], Some (CtxErr e)), sr, [])
         | None \<Rightarrow>
             (case retryLimits (sr_maxRetries sr) (sr_minRetryBackoff sr) (sr_maxRetryBackoff sr) of
                (retries, minB, maxB) \<Rightarrow>
                  (case bindCommandDeadline sr (ee_now env) parent of
                     (dl, owns) \<Rightarrow> exec_loop dl owns (minB, maxB) (ee_attempt env) args (nat (retries + 1)) 0 False None sr)))"

section \<open>Turns and sockets are conserved\<close>

text \<open>The sockets a list of events opened and closed.\<close>

fun dialed :: "event list \<Rightarrow> nat multiset" where
  "dialed [] = {#}"
| "dialed (Dialed c # evs) = {#c#} + dialed evs"
| "dialed (_ # evs) = dialed evs"

fun shut :: "event list \<Rightarrow> nat multiset" where
  "shut [] = {#}"
| "shut (Closed c # evs) = {#c#} + shut evs"
| "shut (_ # evs) = shut evs"

definition idle_ids :: "SimpleRedis \<Rightarrow> nat multiset" where
  "idle_ids sr = mset (map pc_id (sr_idleConns sr))"

lemma dialed_append [simp]: "dialed (xs @ ys) = dialed xs + dialed ys"
  by (induction xs rule: dialed.induct) (auto simp: ac_simps)

lemma shut_append [simp]: "shut (xs @ ys) = shut xs + shut ys"
  by (induction xs rule: shut.induct) (auto simp: ac_simps)

lemma closes_events [simp]: "dialed (closes cs) = {#}" "shut (closes cs) = mset (map pc_id cs)"
  by (induction cs) (simp_all add: closes_def)

lemma exchange_id: "exchange dl env conn args = (d, conn') \<Longrightarrow> pc_id conn' = pc_id conn"
  by (auto simp: exchange_def Let_def split: sum.splits prod.splits option.splits)

lemma do_cmd_events:
  assumes "do_cmd sr dl env conn args = (d, conn', evs)"
  shows "pc_id conn' = pc_id conn" "evs = [] \<or> evs = [Sent (pc_id conn) args]"
  using assms exchange_id by (auto simp: do_cmd_def split: option.splits prod.splits if_splits)

lemma handshake_events:
  assumes "handshake sr dl env verb setting conn = (e, conn', evs)"
  shows "pc_id conn' = pc_id conn" "evs = [] \<or> evs = [Sent (pc_id conn) [verb, setting]]"
  using assms do_cmd_events by (auto simp: handshake_def split: prod.splits if_splits)

lemma sent_events [simp]: "evs = [] \<or> evs = [Sent c args] \<Longrightarrow> dialed evs = {#} \<and> shut evs = {#}"
  by auto

lemma dial_events:
  assumes "dial sr dl env = (r, evs)"
  shows "dialed evs = shut evs + (case r of Inl _ \<Rightarrow> {#} | Inr conn \<Rightarrow> {#pc_id conn#})"
proof -
  let ?conn = "\<lparr>pc_id = di_id env, pc_reader = [], pc_wire = [], pc_lastUsed = zero_time\<rparr>"
  obtain e1 c1 v1 where h1: "handshake sr dl (di_auth env) verbAuth (sr_pass sr) ?conn = (e1, c1, v1)"
    using prod_cases3 by blast
  obtain e2 c2 v2 where h2: "handshake sr dl (di_select env) verbSelect (sr_database sr) c1 = (e2, c2, v2)"
    using prod_cases3 by blast
  have "dialed v1 = {#} \<and> shut v1 = {#}" "dialed v2 = {#} \<and> shut v2 = {#}" "pc_id c2 = di_id env"
    using handshake_events [OF h1] handshake_events [OF h2] by (auto dest: sent_events)
  then show ?thesis
    using assms by (cases e1; cases e2) (auto simp: dial_def Let_def h1 h2 split: option.splits if_splits)
qed

text \<open>What a step on the pool keeps, with the sockets that came in and went out.\<close>

definition pool_step :: "SimpleRedis \<Rightarrow> nat multiset \<Rightarrow> SimpleRedis \<Rightarrow> nat multiset \<Rightarrow> bool" where
  "pool_step sr came sr' went \<longleftrightarrow> frozen sr' = frozen sr \<and> sr_closed sr' = sr_closed sr \<and> sr_overFrees sr' = sr_overFrees sr
     \<and> (int (length (sr_idleConns sr)) \<le> sr_maxIdleConns sr \<longrightarrow> int (length (sr_idleConns sr')) \<le> sr_maxIdleConns sr)
     \<and> idle_ids sr + came = idle_ids sr' + went"

lemma pool_step_refl: "pool_step sr m sr m"
  by (simp add: pool_step_def)

lemma pool_step_trans:
  assumes "pool_step sr a sr1 b" and "pool_step sr1 c sr2 d"
  shows "pool_step sr (a + c) sr2 (b + d)"
proof -
  have "sr_maxIdleConns sr1 = sr_maxIdleConns sr" using assms(1) frozen_fields(1) [of sr1 sr] by (simp add: pool_step_def)
  moreover have "idle_ids sr + a = idle_ids sr1 + b" "idle_ids sr1 + c = idle_ids sr2 + d"
    using assms by (simp_all add: pool_step_def)
  then have "idle_ids sr + (a + c) = idle_ids sr2 + (b + d)"
    by (metis (no_types, lifting) union_assoc union_commute)
  ultimately show ?thesis using assms by (simp add: pool_step_def)
qed

lemma pool_step_frame: "pool_step sr a sr' b \<Longrightarrow> a' = a + x \<Longrightarrow> b' = b + x \<Longrightarrow> pool_step sr a' sr' b'"
  by (simp add: pool_step_def union_assoc [symmetric])

lemma takeIdleConn_step:
  assumes "takeIdleConn now sr = (tk, sr')" and "\<not> sr_closed sr"
  shows "pool_step sr {#} sr' (mset (map pc_id (tk_stale tk)) + image_mset pc_id (mset_set (set_option (tk_reused tk))))"
proof -
  have "length (sr_idleConns sr') \<le> length (sr_idleConns sr)"
    using arg_cong [OF takeIdleConn_mset [OF assms], of size] by simp
  then show ?thesis
    using takeIdleConn_keeps [OF assms(1)] arg_cong [OF takeIdleConn_mset [OF assms], of "image_mset pc_id"]
    by (simp add: pool_step_def idle_ids_def ac_simps)
qed

lemma freeInUseTurn_step:
  assumes "tokens sr < capacity sr"
  shows "pool_step sr {#} (freeInUseTurn sr) {#}"
  using freeInUseTurn_keeps [of sr] freeInUseTurn_returns [OF assms] by (simp add: pool_step_def idle_ids_def)

lemma acquireTurn_cases: "acquireTurn dl w sr = Inr sr' \<Longrightarrow> takeTurn sr = Some sr' \<or> tokens sr = 0 \<and> sr' = sr"
  using takeTurn_None [of sr] by (auto simp: acquireTurn_def split: option.splits turn_wait.splits)

lemma acquireTurn_frozen: "acquireTurn dl w sr = Inr sr' \<Longrightarrow> frozen sr' = frozen sr"
  using acquireTurn_cases takeTurn_Some(3) by blast

lemma acquireTurn_step:
  assumes "acquireTurn dl w sr = Inr sr'" and "0 < capacity sr" and "tokens sr \<le> capacity sr"
  shows "pool_step sr {#} sr' {#}" "tokens sr' = tokens sr - 1" "tokens sr' < capacity sr'"
  using acquireTurn_cases [OF assms(1)] assms(2,3) takeTurn_Some [of sr sr'] by (auto simp: pool_step_def idle_ids_def)

definition held :: "borrowed \<Rightarrow> nat multiset" where
  "held b = (case b of BorrowErr _ _ \<Rightarrow> {#} | Borrowed conn _ \<Rightarrow> {#pc_id conn#})"

definition turn_back :: "borrowed \<Rightarrow> nat" where
  "turn_back b = (case b of BorrowErr _ _ \<Rightarrow> 1 | Borrowed _ _ \<Rightarrow> 0)"

lemma dial_with_turn_step:
  assumes "dial_with_turn sr dl env = (b, sr', evs)" and "tokens sr < capacity sr"
  shows "pool_step sr (dialed evs) sr' (shut evs + held b)" "tokens sr' = tokens sr + turn_back b"
proof -
  obtain r where r: "dial sr dl env = (r, evs)"
      "(b, sr') = (case r of Inl (e, hs) \<Rightarrow> (BorrowErr e hs, freeInUseTurn sr) | Inr conn \<Rightarrow> (Borrowed conn False, sr))"
    using assms(1) by (cases "dial sr dl env") (auto simp: dial_with_turn_def split: sum.splits prod.splits)
  show "tokens sr' = tokens sr + turn_back b"
    using r(2) freeInUseTurn_returns [OF assms(2)] by (auto simp: turn_back_def split: sum.splits)
  show "pool_step sr (dialed evs) sr' (shut evs + held b)"
  proof (cases r)
    case (Inl a)
    then show ?thesis
      using r(2) dial_events [OF r(1)] pool_step_frame [OF freeInUseTurn_step [OF assms(2)]] by (auto simp: held_def split: prod.splits)
  next
    case (Inr conn)
    then show ?thesis using r(2) dial_events [OF r(1)] by (auto simp: held_def pool_step_refl)
  qed
qed

lemma borrow_with_turn_step:
  assumes "borrow_with_turn dl env skip sr = (b, sr', evs)" and "tokens sr < capacity sr"
  shows "pool_step sr (dialed evs) sr' (shut evs + held b) \<and> tokens sr' = tokens sr + turn_back b"
proof -
  obtain tk s1 where tk: "takeIdleConn (bo_now env) sr = (tk, s1)" by (cases "takeIdleConn (bo_now env) sr")
  note keep = takeIdleConn_keeps [OF tk]
  have free: "pool_step sr {#} (freeInUseTurn sr) {#}" "tokens (freeInUseTurn sr) = tokens sr + 1"
    using freeInUseTurn_step [OF assms(2)] freeInUseTurn_returns [OF assms(2)] by simp_all
  consider "sr_closed sr" | "\<not> sr_closed sr" "skip" | "\<not> sr_closed sr" "\<not> skip" by blast
  then show ?thesis
  proof cases
    case 1
    then have "b = BorrowErr ErrUnreachable False" "sr' = freeInUseTurn sr" "evs = []"
      using assms(1) tk keep(6) by (auto simp: borrow_with_turn_def takeIdleConn_def split: if_splits)
    then show ?thesis using free by (simp add: held_def turn_back_def)
  next
    case 2
    then show ?thesis using assms dial_with_turn_step by (simp add: borrow_with_turn_def)
  next
    case 3
    note step = takeIdleConn_step [OF tk 3(1)]
    show ?thesis
    proof (cases "tk_reused tk")
      case (Some conn)
      then have "b = Borrowed conn True" "sr' = s1" "evs = closes (tk_stale tk)"
        using assms(1) 3 tk keep(6) by (auto simp: borrow_with_turn_def)
      then show ?thesis using step keep(1) Some by (simp add: held_def turn_back_def)
    next
      case None
      obtain v where v: "dial_with_turn s1 dl (bo_dial env) = (b, sr', v)" "evs = closes (tk_stale tk) @ v"
        using assms(1) 3 tk keep(6) None by (auto simp: borrow_with_turn_def split: prod.splits)
      have "tokens s1 < capacity s1" using assms(2) keep by simp
      from dial_with_turn_step [OF v(1) this] step show ?thesis
        using keep(1) None v(2) pool_step_trans [OF step] by (simp add: add.assoc)
    qed
  qed
qed

lemma borrowSocket_step:
  assumes "borrowSocket dl env skip sr = (b, sr', evs)" and "0 < capacity sr" and "tokens sr \<le> capacity sr"
  shows "pool_step sr (dialed evs) sr' (shut evs + held b)"
    and "case b of BorrowErr _ _ \<Rightarrow> tokens sr' \<le> capacity sr \<and> (0 < tokens sr \<longrightarrow> tokens sr' = tokens sr)
       | Borrowed _ _ \<Rightarrow> tokens sr' = tokens sr - 1"
proof -
  consider s where "acquireTurn dl (bo_wait env) sr = Inr s" "borrow_with_turn dl env skip s = (b, sr', evs)"
    | e hs where "b = BorrowErr e hs" "sr' = sr" "evs = []"
    using assms(1) by (auto simp: borrowSocket_def split: if_splits option.splits sum.splits)
  then have "pool_step sr (dialed evs) sr' (shut evs + held b)
      \<and> (case b of BorrowErr _ _ \<Rightarrow> tokens sr' \<le> capacity sr \<and> (0 < tokens sr \<longrightarrow> tokens sr' = tokens sr)
         | Borrowed _ _ \<Rightarrow> tokens sr' = tokens sr - 1)"
  proof cases
    case (1 s)
    note a = acquireTurn_step [OF 1(1) assms(2,3)]
    have cap: "capacity s = capacity sr" using a(1) frozen_fields(2) [of s sr] by (simp add: pool_step_def)
    from borrow_with_turn_step [OF 1(2) a(3)] pool_step_trans [OF a(1), of "dialed evs" sr' "shut evs + held b"]
    show ?thesis using a(2,3) assms(2) cap by (auto simp: turn_back_def split: borrowed.splits)
  next
    case (2 e hs)
    then show ?thesis using assms(3) by (simp add: held_def pool_step_refl)
  qed
  then show "pool_step sr (dialed evs) sr' (shut evs + held b)"
    and "case b of BorrowErr _ _ \<Rightarrow> tokens sr' \<le> capacity sr \<and> (0 < tokens sr \<longrightarrow> tokens sr' = tokens sr)
       | Borrowed _ _ \<Rightarrow> tokens sr' = tokens sr - 1" by auto
qed

lemma release_step:
  assumes "release now conn reusable sr = (cl, sr')" and "tokens sr < capacity sr"
  shows "pool_step sr {#pc_id conn#} sr' (mset (map pc_id cl))" "tokens sr' = Suc (tokens sr)"
proof -
  let ?c = "if reusable then conn\<lparr>pc_lastUsed := now\<rparr> else conn"
  obtain parked s where p: "(if reusable then parkIdleConn ?c sr else (False, sr)) = (parked, s)" using prod.exhaust by blast
  then have q: "cl = (if parked then [] else [?c])" "sr' = freeInUseTurn s" using assms(1) by (auto simp: release_def Let_def)
  have step: "pool_step sr {#pc_id conn#} s (mset (map pc_id cl))" "tokens s = tokens sr" "capacity s = capacity sr"
    using p q(1) parkIdleConn_keeps [of ?c sr parked s] by (auto simp: pool_step_def idle_ids_def split: if_splits)
  show "pool_step sr {#pc_id conn#} sr' (mset (map pc_id cl))" "tokens sr' = Suc (tokens sr)"
    using pool_step_trans [OF step(1) freeInUseTurn_step [of s]] freeInUseTurn_returns [of s] step assms(2) q(2) by simp_all
qed

lemma runOnConn_step:
  assumes "runOnConn dl env conn args sr = (res, sr', evs)" and "tokens sr < capacity sr"
  shows "pool_step sr {#pc_id conn#} sr' (shut evs)" "dialed evs = {#}" "tokens sr' = Suc (tokens sr)"
proof -
  obtain d conn' evs1 where d: "do_cmd sr dl (at_do env) conn args = (d, conn', evs1)" using prod_cases3 by blast
  obtain reusable cl where r: "release (at_release env) conn' reusable sr = (cl, sr')" "evs = evs1 @ closes cl"
    using assms(1) d by (auto simp: runOnConn_def split: option.splits prod.splits)
  note do_cmd_events [OF d]
  then show "pool_step sr {#pc_id conn#} sr' (shut evs)" "dialed evs = {#}" "tokens sr' = Suc (tokens sr)"
    using release_step [OF r(1) assms(2)] r(2) by (auto simp: sent_events)
qed

lemma attempt_pass_step:
  assumes "attempt_pass dl owns delay env k skip args sr = (p, sr', evs)" and "0 < capacity sr" and "tokens sr \<le> capacity sr"
  shows "pool_step sr (dialed evs) sr' (shut evs)" and "tokens sr' \<le> capacity sr \<and> (0 < tokens sr \<longrightarrow> tokens sr' = tokens sr)"
proof -
  consider "sr' = sr" "evs = []"
    | e hs where "borrowSocket dl (at_borrow env) skip sr = (BorrowErr e hs, sr', evs)"
    | conn idle s evs1 res evs2 where "borrowSocket dl (at_borrow env) skip sr = (Borrowed conn idle, s, evs1)"
        "runOnConn dl env conn args s = (res, sr', evs2)" "evs = evs1 @ evs2"
    using assms(1) unfolding attempt_pass_def
    by (auto split: option.splits prod.splits borrowed.splits)
  then have "pool_step sr (dialed evs) sr' (shut evs) \<and> tokens sr' \<le> capacity sr \<and> (0 < tokens sr \<longrightarrow> tokens sr' = tokens sr)"
  proof cases
    case 1
    then show ?thesis using assms(3) by (simp add: pool_step_refl)
  next
    case 2
    then show ?thesis using borrowSocket_step [OF 2 assms(2,3)] by (simp add: held_def)
  next
    case (3 conn idle s evs1 res evs2)
    note b = borrowSocket_step [OF 3(1) assms(2,3)]
    have cap: "capacity s = capacity sr" using b(1) frozen_fields(2) [of s sr] by (simp add: pool_step_def)
    have t: "tokens s = tokens sr - 1" "tokens s < capacity s" using b(2) assms(2,3) cap by auto
    note r = runOnConn_step [OF 3(2) t(2)]
    have "pool_step sr (dialed evs1 + {#pc_id conn#}) sr' (shut evs1 + {#pc_id conn#} + shut evs2)"
      using pool_step_trans [OF b(1) r(1)] by (simp add: held_def)
    then have "pool_step sr (dialed evs) sr' (shut evs)" using r(2) 3(3) by (simp add: pool_step_def)
    then show ?thesis using r(3) t cap by auto
  qed
  then show "pool_step sr (dialed evs) sr' (shut evs)" and "tokens sr' \<le> capacity sr \<and> (0 < tokens sr \<longrightarrow> tokens sr' = tokens sr)"
    by auto
qed

lemma exec_loop_step:
  assumes "exec_loop dl owns lim env args n k skip prev sr = (res, sr', evs)" and "0 < capacity sr" and "tokens sr \<le> capacity sr"
  shows "pool_step sr (dialed evs) sr' (shut evs) \<and> tokens sr' \<le> capacity sr \<and> (0 < tokens sr \<longrightarrow> tokens sr' = tokens sr)"
  using assms
proof (induction n arbitrary: k skip prev sr evs)
  case 0
  then show ?case by (auto simp: pool_step_refl split: option.splits)
next
  case (Suc n)
  let ?pass = "attempt_pass dl owns (retryBackoff (at_sample (env k)) (int k) (fst lim) (snd lim)) (env k) k skip args sr"
  obtain p s evs1 where p: "?pass = (p, s, evs1)" using prod_cases3 by blast
  note a = attempt_pass_step [OF p Suc.prems(2,3)]
  show ?case
  proof (cases p)
    case (Over vs err)
    then show ?thesis using a Suc.prems(1) p by (simp add: Let_def)
  next
    case (Again e skip')
    obtain evs2 where l: "exec_loop dl owns lim env args n (Suc k) skip' (Some e) s = (res, sr', evs2)" "evs = evs1 @ evs2"
      using Suc.prems(1) p Again by (auto simp: Let_def split: prod.splits)
    have "capacity s = capacity sr" using a(1) frozen_fields(2) [of s sr] by (simp add: pool_step_def)
    with Suc.IH [OF l(1)] a Suc.prems(2) show ?thesis
      using pool_step_trans [OF a(1), of "dialed evs2" sr' "shut evs2"] l(2) by auto
  qed
qed

lemma exec_cases:
  assumes "exec env ctx args sr = (res, sr', evs)"
  obtains e where "res = ([], Some (CtxErr e))" "sr' = sr" "evs = []"
  | dl owns lim where "exec_loop dl owns lim (ee_attempt env) args (nat (fst (retryLimits (sr_maxRetries sr) (sr_minRetryBackoff sr) (sr_maxRetryBackoff sr)) + 1))
        0 False None sr = (res, sr', evs)" "bindCommandDeadline sr (ee_now env) (case ctx of NilCtx \<Rightarrow> None | Ctx dl \<Rightarrow> dl) = (dl, owns)"
  using assms by (auto simp: exec_def Let_def split: option.splits prod.splits)

text \<open>
  C9: A command gives back what it took. Whatever the peer, the network, the clock and the context do
  during a command, and whether it succeeds, fails or is retried: the pool invariant holds afterwards,
  the number of free turns is what it was (when one was free), no turn was returned twice, the client's
  settings are untouched, and every socket that was idle before or dialed during the command is now idle
  or was closed, exactly once.
\<close>

theorem exec_conserves_pool:
  assumes "exec env ctx args sr = (res, sr', evs)" and "pool_ok sr"
  shows "pool_ok sr' \<and> frozen sr' = frozen sr \<and> sr_closed sr' = sr_closed sr \<and> (0 < tokens sr \<longrightarrow> tokens sr' = tokens sr)
    \<and> idle_ids sr + dialed evs = idle_ids sr' + shut evs"
proof -
  have pre: "0 < capacity sr" "tokens sr \<le> capacity sr" using assms(2) by (simp_all add: pool_ok_def)
  have "pool_step sr (dialed evs) sr' (shut evs) \<and> tokens sr' \<le> capacity sr \<and> (0 < tokens sr \<longrightarrow> tokens sr' = tokens sr)"
    by (rule exec_cases [OF assms(1)]) (use pre exec_loop_step in \<open>auto simp: pool_step_refl\<close>)
  then show ?thesis
    using assms(2) frozen_fields [of sr' sr] by (auto simp: pool_ok_def pool_step_def)
qed

text \<open>A quiet environment at one instant: nothing fails, no context ends, the peer sends the given bytes.\<close>

definition quiet :: "instant \<Rightarrow> moment" where
  "quiet now = \<lparr>mo_now = now, mo_err = None\<rparr>"

definition quiet_do :: "instant \<Rightarrow> string \<Rightarrow> do_env" where
  "quiet_do now bytes = \<lparr>de_entry = quiet now, de_budget = now, de_expired = quiet now, de_setDeadlineFails = False,
     de_write = None, de_wrote = quiet now, de_bytes = bytes, de_tail = EOF, de_seen = length bytes,
     de_read = quiet now, de_failed = quiet now\<rparr>"

definition quiet_attempt :: "instant \<Rightarrow> nat \<Rightarrow> string \<Rightarrow> attempt_env" where
  "quiet_attempt now c bytes = \<lparr>at_entry = quiet now, at_sample = 0, at_delay = quiet now, at_timer = WaitTimer (quiet now),
     at_borrow = \<lparr>bo_entry = quiet now, bo_wait = TurnTimer (quiet now), bo_now = now,
       bo_dial = \<lparr>di_entry = quiet now, di_connects = True, di_refused = quiet now, di_id = c,
         di_auth = quiet_do now (''+OK'' @ CRLF), di_select = quiet_do now (''+OK'' @ CRLF)\<rparr>\<rparr>,
     at_do = quiet_do now bytes, at_after = quiet now, at_release = now\<rparr>"

definition plain_config :: RedisConfig where
  "plain_config = \<lparr>cf_Host = ''redis:6379'', cf_Pass = [], cf_Database = [], cf_PoolSize = 0, cf_MaxIdleConns = 0,
     cf_PoolTimeout = 0, cf_IdleTimeout = 0, cf_DialTimeout = 0, cf_CommandTimeout = 0, cf_MaxRetries = 0,
     cf_MinRetryBackoff = 0, cf_MaxRetryBackoff = 0\<rparr>"

text \<open>A client from \<open>New\<close> satisfies the pool invariant with every turn free.\<close>

lemma Redis_New_pool_ok:
  assumes "Redis_New cfg = Inr sr"
  shows "pool_ok sr" "sr_idleConns sr = []" "\<not> sr_closed sr" "tokens sr = capacity sr" "0 < CommandTimeout sr"
proof -
  obtain cfg' where c: "applyDefaults cfg = Inr cfg'" "sr = ensureInUseTurns (unpooled cfg')"
    using assms by (cases "applyDefaults cfg") (auto simp: Redis_New_def)
  let ?size = "\<lambda>cfg. (cf_PoolSize cfg, cf_MaxIdleConns cfg)"
  have "map_sum id ?size (applyDefaults cfg) = Inr (?size cfg')" by (simp add: c(1))
  then have "0 < cf_PoolSize cfg'" "0 < cf_MaxIdleConns cfg'" "cf_MaxIdleConns cfg' \<le> cf_PoolSize cfg'"
    by (simp_all add: applyDefaults_def Let_def if_distrib [of "map_sum id ?size"] or_default_def
        defaultPoolSize_def defaultMaxIdleConns_def split: if_splits)
  then show "pool_ok sr" "sr_idleConns sr = []" "\<not> sr_closed sr" "tokens sr = capacity sr" "0 < CommandTimeout sr"
    by (auto simp: c(2) ensureInUseTurns_def unpooled_def pool_ok_def capacity_def tokens_def liveCap_def
        CommandTimeout_def defaultCommandTimeout_def Millisecond_def)
qed

lemma Redis_New_maxRetries:
  assumes "Redis_New cfg = Inr sr"
  shows "sr_maxRetries sr = (if cf_MaxRetries cfg = 0 then 1 else cf_MaxRetries cfg)"
proof -
  obtain cfg' where c: "applyDefaults cfg = Inr cfg'" "sr = ensureInUseTurns (unpooled cfg')"
    using assms by (cases "applyDefaults cfg") (auto simp: Redis_New_def)
  have "map_sum id cf_MaxRetries (applyDefaults cfg) = Inr (cf_MaxRetries cfg')" by (simp add: c(1))
  then have "cf_MaxRetries cfg' = (if cf_MaxRetries cfg = 0 then 1 else cf_MaxRetries cfg)"
    by (simp add: applyDefaults_def Let_def if_distrib [of "map_sum id cf_MaxRetries"] defaultMaxRetries_def split: if_splits)
  then show ?thesis by (simp add: c(2) ensureInUseTurns_def unpooled_def)
qed

definition plain_client :: SimpleRedis where
  "plain_client = projr (Redis_New plain_config)"

lemma plain_client_New: "Redis_New plain_config = Inr plain_client"
  unfolding plain_client_def by code_simp

theorem exec_conserves_pool_witness:
  "tokens (fst (snd (exec \<lparr>ee_entry = None, ee_now = 0, ee_attempt = \<lambda>_. quiet_attempt 0 7 (''+OK'' @ CRLF)\<rparr> NilCtx [''PING''] plain_client))) = 8"
proof -
  let ?run = "exec \<lparr>ee_entry = None, ee_now = 0, ee_attempt = \<lambda>_. quiet_attempt 0 7 (''+OK'' @ CRLF)\<rparr> NilCtx [''PING''] plain_client"
  have "tokens plain_client = 8" by code_simp
  moreover obtain res sr' evs where "?run = (res, sr', evs)" using prod_cases3 by blast
  ultimately show ?thesis
    using exec_conserves_pool [of _ _ _ plain_client res sr' evs] Redis_New_pool_ok(1) [OF plain_client_New] by simp
qed

section \<open>Retries are bounded\<close>

definition sends :: "string list \<Rightarrow> event list \<Rightarrow> nat" where
  "sends args evs = length (filter (\<lambda>e. case e of Sent _ a \<Rightarrow> a = args | _ \<Rightarrow> False) evs)"

lemma sends_simps [simp]:
  "sends args [] = 0" "sends args (xs @ ys) = sends args xs + sends args ys" "sends args (closes cs) = 0"
  "sends args (Dialed c # evs) = sends args evs" "sends args (Closed c # evs) = sends args evs"
  "sends args [Sent c a] = (if a = args then 1 else 0)"
  by (auto simp: sends_def closes_def filter_empty_conv)

definition not_handshake :: "SimpleRedis \<Rightarrow> string list \<Rightarrow> bool" where
  "not_handshake sr args \<longleftrightarrow> args \<noteq> [verbAuth, sr_pass sr] \<and> args \<noteq> [verbSelect, sr_database sr]"

lemma dial_sends:
  assumes "dial sr dl env = (r, evs)" and "not_handshake sr args"
  shows "sends args evs = 0 \<and> size (dialed evs) \<le> 1"
proof -
  let ?conn = "\<lparr>pc_id = di_id env, pc_reader = [], pc_wire = [], pc_lastUsed = zero_time\<rparr>"
  obtain e1 c1 v1 where h1: "handshake sr dl (di_auth env) verbAuth (sr_pass sr) ?conn = (e1, c1, v1)"
    using prod_cases3 by blast
  obtain e2 c2 v2 where h2: "handshake sr dl (di_select env) verbSelect (sr_database sr) c1 = (e2, c2, v2)"
    using prod_cases3 by blast
  have "sends args v1 = 0" "sends args v2 = 0" "dialed v1 = {#}" "dialed v2 = {#}"
    using handshake_events(2) [OF h1] handshake_events(2) [OF h2] assms(2) by (auto simp: not_handshake_def)
  then show ?thesis
    using assms(1) by (cases e1; cases e2) (auto simp: dial_def Let_def h1 h2 split: option.splits if_splits)
qed

lemma dial_with_turn_sends:
  "dial_with_turn sr dl env = (b, sr', evs) \<Longrightarrow> not_handshake sr args \<Longrightarrow> sends args evs = 0 \<and> size (dialed evs) \<le> 1"
  using dial_sends [of sr dl env] by (auto simp: dial_with_turn_def split: prod.splits sum.splits)

lemma not_handshake_frozen: "frozen sr' = frozen sr \<Longrightarrow> not_handshake sr' args = not_handshake sr args"
  using frozen_fields(6,7) [of sr' sr] by (simp add: not_handshake_def)

lemma borrow_with_turn_sends:
  assumes "borrow_with_turn dl env skip sr = (b, sr', evs)" and "not_handshake sr args"
  shows "sends args evs = 0 \<and> size (dialed evs) \<le> 1"
proof -
  obtain tk s where tk: "takeIdleConn (bo_now env) sr = (tk, s)" by (cases "takeIdleConn (bo_now env) sr")
  have s: "not_handshake s args" using assms(2) not_handshake_frozen [OF takeIdleConn_keeps(3) [OF tk]] by simp
  obtain d s2 evs2 where d: "dial_with_turn s dl (bo_dial env) = (d, s2, evs2)" using prod_cases3 by blast
  show ?thesis
    using assms(1) dial_with_turn_sends [OF d s] dial_with_turn_sends [of sr dl "bo_dial env" b sr' evs] assms(2)
    by (auto simp: borrow_with_turn_def tk d split: if_splits option.splits)
qed

lemma borrowSocket_sends:
  assumes "borrowSocket dl env skip sr = (b, sr', evs)" and "not_handshake sr args"
  shows "sends args evs = 0 \<and> size (dialed evs) \<le> 1"
proof (cases "acquireTurn dl (bo_wait env) sr")
  case (Inr s)
  have "not_handshake s args" using assms(2) not_handshake_frozen [OF acquireTurn_frozen [OF Inr]] by simp
  then show ?thesis
    using assms(1) borrow_with_turn_sends [of dl env skip s] by (auto simp: borrowSocket_def Inr split: if_splits option.splits)
qed (use assms(1) in \<open>auto simp: borrowSocket_def split: if_splits option.splits\<close>)

lemma attempt_pass_sends:
  assumes "attempt_pass dl owns delay env k skip args sr = (p, sr', evs)" and "not_handshake sr args"
  shows "sends args evs \<le> 1 \<and> size (dialed evs) \<le> 1"
proof -
  have run: "sends args evs2 \<le> 1 \<and> dialed evs2 = {#}" if r: "runOnConn dl env conn args s = (res, s', evs2)" for conn s res s' evs2
  proof -
    obtain d conn' evs1 where d: "do_cmd s dl (at_do env) conn args = (d, conn', evs1)" using prod_cases3 by blast
    then obtain cl where "evs2 = evs1 @ closes cl"
      using r by (auto simp: runOnConn_def split: prod.splits option.splits)
    then show ?thesis using do_cmd_events(2) [OF d] by auto
  qed
  consider "evs = []"
    | b s where "borrowSocket dl (at_borrow env) skip sr = (b, s, evs)"
    | b s evs1 conn res evs2 where "borrowSocket dl (at_borrow env) skip sr = (b, s, evs1)"
        "runOnConn dl env conn args s = (res, sr', evs2)" "evs = evs1 @ evs2"
    using assms(1) unfolding attempt_pass_def by (auto split: option.splits prod.splits borrowed.splits)
  then show ?thesis
    using borrowSocket_sends [OF _ assms(2)] run by cases fastforce+
qed

lemma exec_loop_sends:
  assumes "exec_loop dl owns lim env args n k skip prev sr = (res, sr', evs)" and "pool_ok sr" and "not_handshake sr args"
  shows "sends args evs \<le> n \<and> size (dialed evs) \<le> n"
  using assms
proof (induction n arbitrary: k skip prev sr evs)
  case 0
  then show ?case by (auto split: option.splits)
next
  case (Suc n)
  let ?pass = "attempt_pass dl owns (retryBackoff (at_sample (env k)) (int k) (fst lim) (snd lim)) (env k) k skip args sr"
  obtain p s evs1 where p: "?pass = (p, s, evs1)" using prod_cases3 by blast
  have pre: "0 < capacity sr" "tokens sr \<le> capacity sr" using Suc.prems(2) by (simp_all add: pool_ok_def)
  note a = attempt_pass_sends [OF p Suc.prems(3)] and st = attempt_pass_step [OF p pre]
  have s: "pool_ok s" "not_handshake s args"
    using st Suc.prems(2,3) frozen_fields [of s sr] not_handshake_frozen [of s sr] by (auto simp: pool_step_def pool_ok_def)
  show ?case
  proof (cases p)
    case (Over vs err)
    then show ?thesis using a Suc.prems(1) p by (simp add: Let_def)
  next
    case (Again e skip')
    obtain evs2 where l: "exec_loop dl owns lim env args n (Suc k) skip' (Some e) s = (res, sr', evs2)" "evs = evs1 @ evs2"
      using Suc.prems(1) p Again by (auto simp: Let_def split: prod.splits)
    from Suc.IH [OF l(1) s] a show ?thesis using l(2) by auto
  qed
qed

text \<open>
  C25: The retry budget is a hard bound. A client from \<open>New\<close> with \<open>MaxRetries\<close> of \<open>r > 0\<close> sends a command
  at most \<open>r + 1\<close> times and dials at most \<open>r + 1\<close> times for it, with \<open>MaxRetries\<close> 0 at most twice, and with
  -1 at most once, whatever happens on the network: the handshakes of new sockets are not counted.
\<close>

theorem sends_bounded:
  assumes "Redis_New cfg = Inr sr" and "not_handshake sr args" and "exec env ctx args sr = (res, sr', evs)"
    and "limit = (if cf_MaxRetries cfg = 0 then 2 else if cf_MaxRetries cfg = -1 then 1 else nat (cf_MaxRetries cfg + 1))"
  shows "sends args evs \<le> limit \<and> size (dialed evs) \<le> limit"
proof -
  have lim: "nat (fst (retryLimits (sr_maxRetries sr) (sr_minRetryBackoff sr) (sr_maxRetryBackoff sr)) + 1) = limit"
    unfolding assms(4) by (simp add: retryLimits_def Redis_New_maxRetries [OF assms(1)])
  show ?thesis
    by (rule exec_cases [OF assms(3)])
      (use exec_loop_sends [OF _ Redis_New_pool_ok(1) [OF assms(1)] assms(2)] lim in auto)
qed

theorem sends_bounded_witness:
  "sends [''PING''] (snd (snd (exec \<lparr>ee_entry = None, ee_now = 0, ee_attempt = \<lambda>n. quiet_attempt 0 n []\<rparr> NilCtx [''PING''] plain_client))) \<le> 2"
proof -
  let ?run = "exec \<lparr>ee_entry = None, ee_now = 0, ee_attempt = \<lambda>n. quiet_attempt 0 n []\<rparr> NilCtx [''PING''] plain_client"
  obtain res sr' evs where r: "?run = (res, sr', evs)" using prod_cases3 by blast
  have "not_handshake plain_client [''PING'']" by (simp add: not_handshake_def)
  from sends_bounded [OF plain_client_New this r refl] show ?thesis by (simp add: r plain_config_def)
qed

section \<open>Which errors a command returns\<close>

text \<open>The clock does not run backwards between the two looks \<open>do\<close> takes at an exhausted budget.\<close>

definition do_ordered :: "do_env \<Rightarrow> bool" where
  "do_ordered env \<longleftrightarrow> de_budget env \<le> mo_now (de_expired env)"

definition attempt_ordered :: "attempt_env \<Rightarrow> bool" where
  "attempt_ordered env \<longleftrightarrow> do_ordered (at_do env) \<and> do_ordered (di_auth (bo_dial (at_borrow env)))
     \<and> do_ordered (di_select (bo_dial (at_borrow env)))"

text \<open>The errors that come out of an attempt: no raw I/O error, no miss, and no library timeout.\<close>

definition attempt_err :: "redis_err \<Rightarrow> bool" where
  "attempt_err e \<longleftrightarrow> (\<forall>i. e \<noteq> IoErr i) \<and> e \<noteq> ErrMiss \<and> e \<noteq> ErrTimeout"

lemma attempt_err_simps [simp]:
  "attempt_err (CtxErr s)" "attempt_err ErrUnreachable" "attempt_err ErrPoolWait" "attempt_err ErrNotFromNew"
  by (simp_all add: attempt_err_def)

text \<open>Such an error as the loop returns it.\<close>

definition final_err :: "bool \<Rightarrow> redis_err \<Rightarrow> bool" where
  "final_err owns e \<longleftrightarrow> (\<exists>a. e = libraryTimeout a owns \<and> attempt_err a)"

lemma final_errI [simp]: "attempt_err a \<Longrightarrow> final_err owns (libraryTimeout a owns)"
  by (auto simp: final_err_def)

lemma ioOrContext_err: "attempt_err (ioOrContext (Some d) mo e)"
  by (auto simp: ioOrContext_def ioError_def attempt_err_def split: option.splits)

lemma finish_reply_err:
  assumes "readReply t s = (rep, rest)" and "dn_err (finish_reply (Some d) env rep left) = Some e"
  shows "attempt_err e \<and> dn_values (finish_reply (Some d) env rep left) = []"
  using assms(2) readReply_result(3,4) [OF assms(1)] ioOrContext_err [of d]
  by (auto simp: finish_reply_def attempt_err_def dirty_err_def isDirtyProtocolError_def split: option.splits if_splits)

lemma exchange_err:
  assumes "exchange (Some d) env conn args = (r, conn')" and "dn_err r = Some e"
  shows "attempt_err e \<and> dn_values r = []"
  using assms finish_reply_err [of "de_tail env" "pc_wire conn @ de_bytes env"] ioOrContext_err
  by (auto simp: exchange_def Let_def split: sum.splits prod.splits option.splits)

lemma do_cmd_err:
  assumes "do_cmd sr (Some d) env conn args = (r, conn', evs)" and "do_ordered env" and "dn_err r = Some e"
  shows "attempt_err e \<and> dn_values r = []"
proof -
  have "contextStop (Some d) (de_expired env) \<noteq> None" if "commandBudgetLeft sr (Some d) (de_budget env) \<le> 0"
  proof -
    have "d \<le> de_budget env" using that time_sub_pos [of "de_budget env" d] by (force simp: commandBudgetLeft_def)
    then show ?thesis using assms(2) by (auto simp: contextStop_def do_ordered_def split: option.splits)
  qed
  then show ?thesis
    using assms(1,3) exchange_err [of d env conn args]
    by (auto simp: do_cmd_def split: option.splits if_splits prod.splits)
qed

lemma handshake_err:
  assumes "handshake sr (Some d) env verb setting conn = (Some e, conn', evs)" and "do_ordered env"
  shows "attempt_err e"
  using assms do_cmd_err by (auto simp: handshake_def split: if_splits prod.splits)

lemma dial_err:
  assumes "dial sr (Some d) env = (Inl (e, hs), evs)" and "do_ordered (di_auth env)" and "do_ordered (di_select env)"
  shows "attempt_err e"
  using assms handshake_err
  by (auto simp: dial_def Let_def split: option.splits if_splits prod.splits)

lemma dial_with_turn_err:
  assumes "dial_with_turn sr (Some d) env = (BorrowErr e hs, sr', evs)" and "do_ordered (di_auth env)" and "do_ordered (di_select env)"
  shows "attempt_err e"
  using assms dial_err by (auto simp: dial_with_turn_def split: prod.splits sum.splits)

lemma borrowSocket_err:
  assumes "borrowSocket (Some d) env skip sr = (BorrowErr e hs, sr', evs)"
    and "do_ordered (di_auth (bo_dial env))" and "do_ordered (di_select (bo_dial env))"
  shows "attempt_err e"
proof -
  have turn: "attempt_err e" if "acquireTurn (Some d) w s = Inl e" for w s e
    using that by (auto simp: acquireTurn_def split: option.splits turn_wait.splits)
  have "attempt_err e" if "borrow_with_turn (Some d) env skip s = (BorrowErr e hs, sr', evs)" for s
  proof (cases "takeIdleConn (bo_now env) s")
    case (Pair tk s')
    then show ?thesis
      using that dial_with_turn_err [OF _ assms(2,3)]
      by (auto simp: borrow_with_turn_def split: if_splits option.splits prod.splits)
  qed
  then show ?thesis
    using assms(1) turn by (auto simp: borrowSocket_def split: if_splits option.splits sum.splits)
qed

lemma runOnConn_err:
  assumes "runOnConn (Some d) env conn args sr = ((vs, Some e), sr', evs)" and "do_ordered (at_do env)"
  shows "attempt_err e \<and> vs = []"
  using assms(1) do_cmd_err [OF _ assms(2)]
  by (auto simp: runOnConn_def split: prod.splits option.splits)

lemma attempt_pass_err:
  assumes "attempt_pass (Some d) owns delay env k skip args sr = (p, sr', evs)" and "attempt_ordered env"
  shows "case p of Over vs (Some e) \<Rightarrow> vs = [] \<and> final_err owns e
     | Over vs None \<Rightarrow> True | Again e skip' \<Rightarrow> attempt_err e"
proof -
  obtain b s ev where b: "borrowSocket (Some d) (at_borrow env) skip sr = (b, s, ev)" using prod_cases3 by blast
  show ?thesis
  proof (cases b)
    case (BorrowErr e hs)
    then have "attempt_err e" using borrowSocket_err b assms(2) by (auto simp: attempt_ordered_def)
    then show ?thesis using assms(1) b BorrowErr by (auto simp: attempt_pass_def split: option.splits)
  next
    case (Borrowed conn idle)
    obtain vs err s2 ev2 where r: "runOnConn (Some d) env conn args s = ((vs, err), s2, ev2)" using prod_cases3 by (metis surj_pair)
    have "attempt_err e \<and> vs = []" if "err = Some e" for e
      using runOnConn_err r that assms(2) by (auto simp: attempt_ordered_def)
    then show ?thesis using assms(1) b Borrowed r by (auto simp: attempt_pass_def split: option.splits)
  qed
qed

lemma exec_loop_err:
  assumes "exec_loop (Some d) owns lim env args n k skip prev sr = ((vs, Some e), sr', evs)" and "\<forall>i. attempt_ordered (env i)"
    and "0 < n \<or> prev \<noteq> None" and "\<forall>a. prev = Some a \<longrightarrow> attempt_err a"
  shows "vs = [] \<and> final_err owns e"
  using assms
proof (induction n arbitrary: k skip prev sr evs)
  case (Suc n)
  let ?pass = "attempt_pass (Some d) owns (retryBackoff (at_sample (env k)) (int k) (fst lim) (snd lim)) (env k) k skip args sr"
  obtain p s evs1 where p: "?pass = (p, s, evs1)" using prod_cases3 by blast
  note a = attempt_pass_err [OF p Suc.prems(2) [rule_format]]
  show ?case
  proof (cases p)
    case (Again x skip')
    then obtain evs2 where "exec_loop (Some d) owns lim env args n (Suc k) skip' (Some x) s = ((vs, Some e), sr', evs2)"
      using Suc.prems(1) p by (auto simp: Let_def split: prod.splits)
    from Suc.IH [OF this Suc.prems(2)] a Again show ?thesis by auto
  qed (use a Suc.prems(1) p in \<open>auto simp: Let_def\<close>)
qed (auto split: option.splits)



section \<open>Sockets, closing and recovery\<close>

lemma quiet_attempt_sel:
  "at_entry (quiet_attempt now c b) = quiet now" "at_delay (quiet_attempt now c b) = quiet now"
  "at_timer (quiet_attempt now c b) = WaitTimer (quiet now)" "at_do (quiet_attempt now c b) = quiet_do now b"
  "at_after (quiet_attempt now c b) = quiet now" "at_release (quiet_attempt now c b) = now"
  by (simp_all add: quiet_attempt_def)

text \<open>
  A socket goes back to the pool only at a reply boundary. When \<open>do\<close> calls a socket reusable, a
  complete reply was read and nothing is left in its reader; and on a socket with nothing pending, a peer
  that answers with one protocol value gets that value to the caller, with the socket reusable and
  again with nothing pending.
\<close>

theorem reusable_at_boundary:
  assumes "do_cmd sr dl env conn args = (d, conn', evs)"
  shows "(dn_reusable d \<longrightarrow> pc_reader conn' = [] \<and> evs = [Sent (pc_id conn) args]
      \<and> (\<exists>rep rest. readReply (de_tail env) (pc_wire conn @ de_bytes env) = (rep, rest) \<and> rep_clean rep
           \<and> dn_values d = rep_values rep \<and> dn_err d = rep_err rep))
    \<and> (contextStop dl (de_entry env) = None \<and> 0 < commandBudgetLeft sr dl (de_budget env) \<and> \<not> de_setDeadlineFails env
       \<and> pc_reader conn = [] \<and> pc_wire conn = [] \<and> de_write env = None \<and> de_bytes env = encode_value v \<and> value_ok v
       \<and> contextStop dl (de_read env) = None \<longrightarrow>
         d = \<lparr>dn_values = fst (value_reply v), dn_reusable = True, dn_err = snd (value_reply v)\<rparr>
         \<and> pc_reader conn' = [] \<and> pc_wire conn' = [])"
proof (intro conjI impI)
  assume "dn_reusable d"
  moreover obtain rep rest where r: "readReply (de_tail env) (pc_wire conn @ de_bytes env) = (rep, rest)" using prod.exhaust by blast
  ultimately have x: "exchange dl env conn args = (d, conn')" "evs = [Sent (pc_id conn) args]"
      "contextStop dl (de_read env) = None" "d = finish_reply dl env rep (take (de_seen env) rest)"
      "pc_reader conn' = take (de_seen env) rest"
    using assms by (auto simp: do_cmd_def exchange_def Let_def split: option.splits if_splits prod.splits sum.splits)
  moreover have "rep_clean rep" using readReply_result(3) [OF r] x(4) \<open>dn_reusable d\<close>
    by (auto simp: finish_reply_def split: option.splits if_splits)
  ultimately show "pc_reader conn' = []" "evs = [Sent (pc_id conn) args]"
    "\<exists>rep rest. readReply (de_tail env) (pc_wire conn @ de_bytes env) = (rep, rest) \<and> rep_clean rep
       \<and> dn_values d = rep_values rep \<and> dn_err d = rep_err rep"
    using \<open>dn_reusable d\<close> r by (auto simp: finish_reply_def split: option.splits if_splits)
next
  assume a: "contextStop dl (de_entry env) = None \<and> 0 < commandBudgetLeft sr dl (de_budget env) \<and> \<not> de_setDeadlineFails env
       \<and> pc_reader conn = [] \<and> pc_wire conn = [] \<and> de_write env = None \<and> de_bytes env = encode_value v \<and> value_ok v
       \<and> contextStop dl (de_read env) = None"
  have "readReply (de_tail env) (encode_value v)
      = (\<lparr>rep_values = fst (value_reply v), rep_clean = True, rep_err = snd (value_reply v)\<rparr>, [])"
    using consumes_readReply(1) [of "fst (value_reply v)" "snd (value_reply v)" "encode_value v" _ "[]"] a read_reply_consumes by simp
  then show "d = \<lparr>dn_values = fst (value_reply v), dn_reusable = True, dn_err = snd (value_reply v)\<rparr>"
    and "pc_reader conn' = []" and "pc_wire conn' = []"
    using assms a by (auto simp: do_cmd_def exchange_def writeCommand_def finish_reply_def Let_def split: option.splits)
qed

theorem reusable_at_boundary_witness:
  "fst (do_cmd plain_client None (quiet_do 0 (''+OK'' @ CRLF)) \<lparr>pc_id = 1, pc_reader = [], pc_wire = [], pc_lastUsed = 0\<rparr> [''PING''])
    = \<lparr>dn_values = [Some ''OK''], dn_reusable = True, dn_err = None\<rparr>"
proof -
  let ?conn = "\<lparr>pc_id = 1, pc_reader = [], pc_wire = [], pc_lastUsed = 0\<rparr>"
  obtain d conn' evs where r: "do_cmd plain_client None (quiet_do 0 (''+OK'' @ CRLF)) ?conn [''PING''] = (d, conn', evs)"
    using prod_cases3 by blast
  have "0 < commandBudgetLeft plain_client None 0" by code_simp
  then show ?thesis
    using reusable_at_boundary [OF r, of "Item (Status ''OK'')"] r
    by (simp add: quiet_do_def quiet_def contextStop_def text_ok_def bufSize_def copied_def)
qed

text \<open>
  A closed client does nothing. After \<open>Close\<close> the idle list is empty and every socket it held was
  closed; a further \<open>Close\<close> changes nothing; and a command on the closed client neither dials nor sends nor
  changes the client, and with a live context it fails as unreachable at once, without a retry.
\<close>

theorem closed_client_is_inert:
  assumes "Redis_Close sr = (cs, sr')" and "\<not> sr_closed sr" and "exec env ctx args sr' = ((vs, err), sr2, evs)"
  shows "cs = sr_idleConns sr \<and> sr_idleConns sr' = [] \<and> Redis_Close sr' = ([], sr') \<and> sr2 = sr' \<and> evs = [] \<and> vs = [] \<and> err \<noteq> None
    \<and> ((ctx = NilCtx \<or> ee_entry env = None) \<and> -1 \<le> sr_maxRetries sr
        \<and> contextStop (fst (bindCommandDeadline sr' (ee_now env) (case ctx of NilCtx \<Rightarrow> None | Ctx dl \<Rightarrow> dl))) (at_entry (ee_attempt env 0)) = None
       \<longrightarrow> err = Some ErrUnreachable)"
proof -
  have s: "sr' = sr\<lparr>sr_closed := True, sr_idleConns := []\<rparr>" "cs = sr_idleConns sr"
    using assms(1,2) by (simp_all add: Redis_Close_def close_swap_def close_drain_def)
  have pass: "\<exists>e. attempt_pass dl owns delay a 0 False args sr' = (Over [] (Some e), sr', [])
      \<and> (contextStop dl (at_entry a) = None \<longrightarrow> e = libraryTimeout ErrUnreachable owns)" for dl owns delay a
    by (auto simp: s attempt_pass_def borrowSocket_def isClosed_def split: option.splits)
  have loop: "\<exists>e. exec_loop dl owns lim (ee_attempt env) args n 0 False None sr' = (([], Some e), sr', [])
      \<and> (contextStop dl (at_entry (ee_attempt env 0)) = None \<and> 0 < n \<longrightarrow> e = ErrUnreachable)" for dl owns lim n
    using pass [of dl owns "retryBackoff (at_sample (ee_attempt env 0)) 0 (fst lim) (snd lim)" "ee_attempt env 0"] by (cases n) (auto simp: Let_def libraryTimeout_def)
  obtain dl owns where b: "bindCommandDeadline sr' (ee_now env) (case ctx of NilCtx \<Rightarrow> None | Ctx dl \<Rightarrow> dl) = (dl, owns)"
    using prod.exhaust by blast
  obtain r minB maxB where r: "retryLimits (sr_maxRetries sr') (sr_minRetryBackoff sr') (sr_maxRetryBackoff sr') = (r, minB, maxB)"
    using prod_cases3 by blast
  then have n: "-1 \<le> sr_maxRetries sr \<Longrightarrow> 0 < nat (r + 1)" by (auto simp: retryLimits_def s split: if_splits)
  obtain e where e: "exec_loop dl owns (minB, maxB) (ee_attempt env) args (nat (r + 1)) 0 False None sr' = (([], Some e), sr', [])"
      "contextStop dl (at_entry (ee_attempt env 0)) = None \<and> 0 < nat (r + 1) \<longrightarrow> e = ErrUnreachable"
    using loop by blast
  have "sr2 = sr' \<and> evs = [] \<and> vs = [] \<and> err \<noteq> None \<and> ((ctx = NilCtx \<or> ee_entry env = None) \<longrightarrow> err = Some e)"
    using assms(3) b r e(1) by (cases ctx) (auto simp: exec_def Let_def split: option.splits)
  then show ?thesis using s e(2) n b by (auto simp: Redis_Close_def close_swap_def)
qed

theorem closed_client_is_inert_witness:
  "snd (fst (exec \<lparr>ee_entry = None, ee_now = 0, ee_attempt = \<lambda>n. quiet_attempt 0 n []\<rparr> NilCtx [''PING''] (snd (Redis_Close plain_client)))) = Some ErrUnreachable"
proof -
  let ?env = "\<lparr>ee_entry = None, ee_now = 0, ee_attempt = \<lambda>n. quiet_attempt 0 n []\<rparr>"
  obtain cs sr' where c: "Redis_Close plain_client = (cs, sr')" using prod.exhaust by blast
  obtain vs err sr2 evs where r: "exec ?env NilCtx [''PING''] sr' = ((vs, err), sr2, evs)" using prod_cases3 by (metis surj_pair)
  have "\<not> sr_closed plain_client" using Redis_New_pool_ok(3) [OF plain_client_New] .
  moreover have "-1 \<le> sr_maxRetries plain_client" by code_simp
  moreover have "contextStop (fst (bindCommandDeadline (snd (Redis_Close plain_client)) 0 None)) (quiet 0) = None" by code_simp
  ultimately show ?thesis
    using closed_client_is_inert [OF c _ r] by (simp add: c r quiet_attempt_sel)
qed

text \<open>
  C28: A \<open>MaxRetries\<close> below -1 turns every command into a timeout. \<open>New\<close> accepts such a value; the loop
  then makes no attempt, and every command called with a live context returns \<open>redis:timeout\<close> at once without
  dialing or sending anything, whatever the peer does.
\<close>

theorem negative_retries_time_out:
  assumes "Redis_New cfg = Inr sr" and "cf_MaxRetries cfg < -1" and "ctx = NilCtx \<or> ee_entry env = None"
  shows "exec env ctx args sr = (([], Some ErrTimeout), sr, [])"
proof -
  have "nat (fst (retryLimits (sr_maxRetries sr) a b) + 1) = 0" for a b
    using assms(2) by (simp add: retryLimits_def Redis_New_maxRetries [OF assms(1)])
  then show ?thesis
    using assms(3) by (auto simp: exec_def Let_def case_prod_beta split: go_ctx.splits)
qed

theorem negative_retries_time_out_witness:
  "\<exists>sr. Redis_New (plain_config\<lparr>cf_MaxRetries := -2\<rparr>) = Inr sr
     \<and> exec \<lparr>ee_entry = None, ee_now = 0, ee_attempt = \<lambda>n. quiet_attempt 0 n (''+OK'' @ CRLF)\<rparr> NilCtx [''PING''] sr = (([], Some ErrTimeout), sr, [])"
proof -
  have "\<exists>sr. Redis_New (plain_config\<lparr>cf_MaxRetries := -2\<rparr>) = Inr sr"
    by (simp add: Redis_New_def applyDefaults_def plain_config_def Let_def)
  then show ?thesis using negative_retries_time_out [of "plain_config\<lparr>cf_MaxRetries := -2\<rparr>"] by fastforce
qed

text \<open>
  The backoff stays between its limits. With a positive base not above the cap, the pause before any
  retry is at least the base and at most the cap, for every sample and every attempt number: the shift
  that overflows or the sum that wraps is replaced by the cap. With the defaults that is 8 to 512
  milliseconds.
\<close>

theorem backoff_between_limits:
  assumes "0 < minB" and "minB \<le> maxB"
  shows "minB \<le> retryBackoff u retry minB maxB \<and> retryBackoff u retry minB maxB \<le> maxB"
  using assms by (auto simp: retryBackoff_def Let_def)

theorem backoff_between_limits_witness:
  "8000000 \<le> retryBackoff 5 70 8000000 512000000 \<and> retryBackoff 5 70 8000000 512000000 \<le> 512000000
    \<and> retryLimits 1 0 0 = (1, 8000000, 512000000)"
  using backoff_between_limits [of 8000000 512000000 5 70] by (simp add: retryLimits_def Millisecond_def)

lemma quiet_do_ok:
  assumes "contextStop dl (quiet now) = None" and "0 < commandBudgetLeft sr dl now" and "pc_reader conn = []" and "pc_wire conn = []"
    and "value_ok v"
  shows "do_cmd sr dl (quiet_do now (encode_value v)) conn args
    = (\<lparr>dn_values = fst (value_reply v), dn_reusable = True, dn_err = snd (value_reply v)\<rparr>, conn, [Sent (pc_id conn) args])"
proof -
  have "readReply EOF (encode_value v)
      = (\<lparr>rep_values = fst (value_reply v), rep_clean = True, rep_err = snd (value_reply v)\<rparr>, [])"
    using consumes_readReply(1) [of "fst (value_reply v)" "snd (value_reply v)" "encode_value v" _ "[]"] assms(5) read_reply_consumes by simp
  moreover have "conn\<lparr>pc_reader := [], pc_wire := []\<rparr> = conn" using assms(3,4) by (cases conn) simp
  ultimately show ?thesis
    using assms by (simp add: do_cmd_def exchange_def writeCommand_def finish_reply_def quiet_do_def Let_def split: option.split)
qed

lemma quiet_do_dead:
  assumes "contextStop dl (quiet now) = None" and "0 < commandBudgetLeft sr dl now" and "pc_reader conn = []" and "pc_wire conn = []"
  shows "do_cmd sr dl (quiet_do now []) conn args = (failed ErrUnreachable, conn, [Sent (pc_id conn) args])"
proof -
  have "readReply EOF [] = (dirty (IoErr EOF), [])" by code_simp
  moreover have "conn\<lparr>pc_reader := [], pc_wire := []\<rparr> = conn" using assms(3,4) by (cases conn) simp
  ultimately show ?thesis
    using assms by (simp add: do_cmd_def exchange_def writeCommand_def finish_reply_def quiet_do_def Let_def
        isDirtyProtocolError_def ioOrContext_def ioError_def)
qed

lemma quiet_handshake:
  assumes "contextStop dl (quiet now) = None" and "0 < commandBudgetLeft sr dl now" and "pc_reader conn = []" and "pc_wire conn = []"
  shows "\<exists>evs. handshake sr dl (quiet_do now (''+OK'' @ CRLF)) verb setting conn = (None, conn, evs)"
  using quiet_do_ok [OF assms, of "Item (Status ''OK'')"] by (simp add: handshake_def text_ok_def bufSize_def)

text \<open>A dial to a healthy peer gives a socket with nothing pending.\<close>

lemma quiet_dial:
  assumes "contextStop dl (quiet now) = None" and "0 < commandBudgetLeft sr dl now"
  shows "\<exists>evs. dial sr dl (bo_dial (at_borrow (quiet_attempt now c b)))
    = (Inr \<lparr>pc_id = c, pc_reader = [], pc_wire = [], pc_lastUsed = zero_time\<rparr>, evs)"
proof -
  let ?conn = "\<lparr>pc_id = c, pc_reader = [], pc_wire = [], pc_lastUsed = zero_time\<rparr>"
  obtain e1 e2 where "handshake sr dl (quiet_do now (''+OK'' @ CRLF)) verbAuth (sr_pass sr) ?conn = (None, ?conn, e1)"
    "handshake sr dl (quiet_do now (''+OK'' @ CRLF)) verbSelect (sr_database sr) ?conn = (None, ?conn, e2)"
    using quiet_handshake [OF assms, of ?conn] by fastforce
  then show ?thesis using assms(1) by (simp add: dial_def quiet_attempt_def Let_def)
qed

lemma in_time:
  assumes "now < d"
  shows "contextStop (Some d) (quiet now) = None" "0 < commandBudgetLeft sr (Some d) now"
  using assms time_sub_pos [OF assms] by (simp_all add: contextStop_def quiet_def commandBudgetLeft_def)

lemma takeTurn_ex: "0 < tokens sr \<Longrightarrow> \<exists>s. takeTurn sr = Some s"
  using takeTurn_None [of sr] by (cases "takeTurn sr") auto

text \<open>An attempt on a pool of young dead sockets fails on the newest one and asks for a dial.\<close>

lemma dead_pass:
  assumes "pool_ok sr" and "0 < tokens sr" and "\<not> sr_closed sr" and "now < d"
    and "sr_idleConns sr \<noteq> []" and "\<forall>c \<in> set (sr_idleConns sr). young sr now c \<and> pc_reader c = [] \<and> pc_wire c = []"
  shows "\<exists>s evs. attempt_pass (Some d) owns delay (quiet_attempt now c0 []) 0 False args sr = (Again ErrUnreachable True, s, evs)
    \<and> 0 < tokens s \<and> \<not> sr_closed s \<and> sr_inUseTurns s \<noteq> None"
proof -
  note stop = in_time(1) [OF assms(4)] and budget = in_time(2) [OF assms(4)]
  obtain s where s: "takeTurn sr = Some s" using takeTurn_ex [OF assms(2)] by blast
  note keep = takeTurn_Some [OF s]
  let ?dead = "last (sr_idleConns sr)" and ?s1 = "s\<lparr>sr_idleConns := butlast (sr_idleConns sr)\<rparr>"
  have idle: "filter (young s now) (sr_idleConns s) = sr_idleConns sr"
    using assms(6) frozen_fields(3) [OF keep(3)] keep(4) by (simp add: young_def)
  have tk: "\<exists>st. takeIdleConn now s = (\<lparr>tk_reused = Some ?dead, tk_stale = st, tk_closed = False\<rparr>, ?s1)"
    using idle assms(3,5) keep by (auto simp: takeIdleConn_def Let_def)
  have borrow: "\<exists>evs. borrowSocket (Some d) (at_borrow (quiet_attempt now c0 [])) False sr = (Borrowed ?dead True, ?s1, evs)"
    using tk stop assms(1,3) keep(5) s
    by (auto simp: borrowSocket_def borrow_with_turn_def acquireTurn_def quiet_attempt_def pool_ok_def)
  have run: "\<exists>evs. runOnConn (Some d) (quiet_attempt now c0 []) ?dead args ?s1 = (([], Some ErrUnreachable), freeInUseTurn ?s1, evs)"
    using quiet_do_dead [OF stop budget, of ?dead ?s1 args] stop assms(5,6)
    by (auto simp: runOnConn_def quiet_attempt_sel release_def Let_def)
  have s1: "tokens ?s1 < capacity ?s1" "\<not> sr_closed ?s1" "sr_inUseTurns ?s1 \<noteq> None"
    using keep assms(1,3) frozen_fields(4) [OF keep(3)] by (auto simp: tokens_def capacity_def pool_ok_def split: option.splits)
  have "0 < tokens (freeInUseTurn ?s1)" "\<not> sr_closed (freeInUseTurn ?s1)" "sr_inUseTurns (freeInUseTurn ?s1) \<noteq> None"
    using freeInUseTurn_returns [OF s1(1)] freeInUseTurn_keeps [of ?s1] s1 frozen_fields(4) [of "freeInUseTurn ?s1" ?s1] by simp_all
  then show ?thesis
    using stop borrow run
    by (auto simp: attempt_pass_def quiet_attempt_sel shouldRetry_def isCommandTimeout_def isUnreachable_def)
qed

text \<open>An attempt that skips the idle list and reaches a healthy peer returns its answer.\<close>

lemma fresh_pass:
  assumes "0 < tokens sr" and "\<not> sr_closed sr" and "sr_inUseTurns sr \<noteq> None" and "now < d"
    and "value_ok v" and "snd (value_reply v) = None"
  shows "\<exists>s evs. attempt_pass (Some d) owns delay (quiet_attempt now c (encode_value v)) k True args sr
    = (Over (fst (value_reply v)) None, s, evs)"
proof -
  note stop = in_time(1) [OF assms(4)] and budget = in_time(2) [OF assms(4)]
  obtain s where s: "takeTurn sr = Some s" using takeTurn_ex [OF assms(1)] by blast
  let ?new = "\<lparr>pc_id = c, pc_reader = [], pc_wire = [], pc_lastUsed = zero_time\<rparr>"
  have "\<exists>evs. borrowSocket (Some d) (at_borrow (quiet_attempt now c b)) True sr = (Borrowed ?new False, s, evs)" for b
    using quiet_dial [OF stop budget, of s c b] stop assms(2,3) s takeTurn_Some(5) [OF s]
    by (auto simp: borrowSocket_def borrow_with_turn_def acquireTurn_def dial_with_turn_def quiet_attempt_def)
  then obtain ev where borrow: "borrowSocket (Some d) (at_borrow (quiet_attempt now c (encode_value v))) True sr = (Borrowed ?new False, s, ev)"
    by blast
  have "\<exists>s' evs. runOnConn (Some d) (quiet_attempt now c (encode_value v)) ?new args s = ((fst (value_reply v), None), s', evs)"
    using quiet_do_ok [OF stop budget _ _ assms(5), of ?new s args] stop assms(6)
    by (auto simp: runOnConn_def quiet_attempt_sel split: prod.split)
  then show ?thesis
    using stop borrow by (auto simp: attempt_pass_def quiet_attempt_sel waitUntil_def)
qed



end
