(* ===== verification/Commands.thy ===== *)
theory Commands
  imports Session "HOL-Library.Word"
begin

unbundle bit_operations_syntax

text \<open>
  The commands of \<open>src/simpleredis\<close>: \<open>commands.go\<close>, \<open>commands_eval.go\<close> and \<open>commands_msetex.go\<close>. Each
  calls \<open>exec\<close> with its arguments and checks the shape of the reply. A world is the client, what the
  outside does in each call of \<open>exec\<close>, the arguments of the calls made so far and the events on sockets.
  SHA-1 is the one of the standard library.
\<close>

section \<open>Calls\<close>

record world =
  w_sr :: SimpleRedis
  w_env :: "nat \<Rightarrow> exec_env"
  w_calls :: "string list list"
  w_events :: "event list"

type_synonym 'a command = "world \<Rightarrow> (redis_err + 'a) \<times> world"

definition run_exec :: "go_ctx \<Rightarrow> string list \<Rightarrow> world \<Rightarrow> (slot list \<times> redis_err option) \<times> world" where
  "run_exec ctx args w =
     (case exec (w_env w (length (w_calls w))) ctx args (w_sr w) of
        (res, sr', evs) \<Rightarrow> (res, w\<lparr>w_sr := sr', w_calls := w_calls w @ [args], w_events := w_events w @ evs\<rparr>))"

text \<open>The error of a call, or what a function makes of its values.\<close>

definition on_values :: "(slot list \<Rightarrow> redis_err + 'a) \<Rightarrow> slot list \<times> redis_err option \<Rightarrow> redis_err + 'a" where
  "on_values f res = (case snd res of Some e \<Rightarrow> Inl e | None \<Rightarrow> f (fst res))"

section \<open>Keys and counters\<close>

definition get_value :: "slot list \<Rightarrow> redis_err + string" where
  "get_value vs =
     (if length vs \<noteq> 1 then Inl ErrIssue else case hd vs of None \<Rightarrow> Inl ErrMiss | Some b \<Rightarrow> Inr b)"

definition Get :: "go_ctx \<Rightarrow> string \<Rightarrow> string command" where
  "Get ctx name w = apfst (on_values get_value) (run_exec ctx [''GET'', name] w)"

definition MGet :: "go_ctx \<Rightarrow> string list \<Rightarrow> slot list command" where
  "MGet ctx names w =
     (if names = [] then (Inr [], w)
      else apfst (on_values (\<lambda>vs. if length vs \<noteq> length names then Inl ErrIssue else Inr vs))
             (run_exec ctx (''MGET'' # names) w))"

definition Set :: "go_ctx \<Rightarrow> string \<Rightarrow> string \<Rightarrow> int \<Rightarrow> unit command" where
  "Set ctx name data duration w =
     apfst (on_values (\<lambda>_. Inr ())) (run_exec ctx [''SET'', name, data, ''EX'', format_int duration] w)"

definition Del :: "go_ctx \<Rightarrow> string \<Rightarrow> unit command" where
  "Del ctx name w = apfst (on_values (\<lambda>_. Inr ())) (run_exec ctx [''DEL'', name] w)"

text \<open>The text of a nil slot is the empty string.\<close>

definition slot_text :: "slot \<Rightarrow> string" where
  "slot_text v = (case v of None \<Rightarrow> [] | Some b \<Rightarrow> b)"

definition integer_value :: "slot list \<Rightarrow> redis_err + int" where
  "integer_value vs =
     (if length vs \<noteq> 1 then Inl ErrIssue
      else case parse_int64 (slot_text (hd vs)) of None \<Rightarrow> Inl ErrIssue | Some n \<Rightarrow> Inr n)"

definition parseIntegerReply :: "slot list \<times> redis_err option \<Rightarrow> redis_err + int" where
  "parseIntegerReply res = on_values integer_value res"

definition Incr :: "go_ctx \<Rightarrow> string \<Rightarrow> int command" where
  "Incr ctx name w = apfst parseIntegerReply (run_exec ctx [''INCR'', name] w)"

definition IncrBy :: "go_ctx \<Rightarrow> string \<Rightarrow> int \<Rightarrow> int command" where
  "IncrBy ctx name delta w = apfst parseIntegerReply (run_exec ctx [''INCRBY'', name, format_int delta] w)"

definition Expire :: "go_ctx \<Rightarrow> string \<Rightarrow> int \<Rightarrow> unit command" where
  "Expire ctx name seconds w = apfst (on_values (\<lambda>_. Inr ())) (run_exec ctx [''EXPIRE'', name, format_int seconds] w)"

definition ExpireAt :: "go_ctx \<Rightarrow> string \<Rightarrow> int \<Rightarrow> unit command" where
  "ExpireAt ctx name unixSeconds w = apfst (on_values (\<lambda>_. Inr ())) (run_exec ctx [''EXPIREAT'', name, format_int unixSeconds] w)"

section \<open>Scripts\<close>

text \<open>\<open>crypto/sha1\<close>: padding to blocks of sixteen 32-bit words, eighty rounds per block.\<close>

type_synonym w32 = "32 word"

definition rotl :: "nat \<Rightarrow> w32 \<Rightarrow> w32" where
  "rotl n x = push_bit n x OR drop_bit (32 - n) x"

definition be_bytes :: "nat \<Rightarrow> nat \<Rightarrow> nat list" where
  "be_bytes k n = map (\<lambda>i. (n div 256 ^ i) mod 256) (rev [0..<k])"

definition sha1_pad :: "nat list \<Rightarrow> nat list" where
  "sha1_pad m = m @ [128] @ replicate ((119 - length m mod 64) mod 64) 0 @ be_bytes 8 (8 * length m)"

fun be_words :: "nat list \<Rightarrow> w32 list" where
  "be_words (a # b # c # d # m) = of_nat (((a * 256 + b) * 256 + c) * 256 + d) # be_words m"
| "be_words _ = []"

type_synonym sha1_state = "w32 \<times> w32 \<times> w32 \<times> w32 \<times> w32"

definition sha1_f :: "nat \<Rightarrow> w32 \<Rightarrow> w32 \<Rightarrow> w32 \<Rightarrow> w32" where
  "sha1_f t b c d =
     (if t < 20 then (b AND c) OR (NOT b AND d)
      else if t < 40 then b XOR c XOR d
      else if t < 60 then ((b OR c) AND d) OR (b AND c)
      else b XOR c XOR d)"

definition sha1_k :: "nat \<Rightarrow> w32" where
  "sha1_k t = (if t < 20 then 0x5A827999 else if t < 40 then 0x6ED9EBA1 else if t < 60 then 0x8F1BBCDC else 0xCA62C1D6)"

fun sha1_schedule :: "nat \<Rightarrow> w32 list \<Rightarrow> w32 list" where
  "sha1_schedule 0 ws = ws"
| "sha1_schedule (Suc n) ws =
     (let t = length ws
      in sha1_schedule n (ws @ [rotl 1 (ws ! (t - 3) XOR ws ! (t - 8) XOR ws ! (t - 14) XOR ws ! (t - 16))]))"

fun sha1_rounds :: "nat \<Rightarrow> w32 list \<Rightarrow> sha1_state \<Rightarrow> sha1_state" where
  "sha1_rounds t [] st = st"
| "sha1_rounds t (w # ws) (a, b, c, d, e) =
     sha1_rounds (Suc t) ws (rotl 5 a + sha1_f t b c d + e + w + sha1_k t, a, rotl 30 b, c, d)"

definition sha1_block :: "w32 list \<Rightarrow> sha1_state \<Rightarrow> sha1_state" where
  "sha1_block ws st =
     (case (st, sha1_rounds 0 (sha1_schedule 64 ws) st) of
        ((h0, h1, h2, h3, h4), (a, b, c, d, e)) \<Rightarrow> (h0 + a, h1 + b, h2 + c, h3 + d, h4 + e))"

fun sha1_blocks :: "nat \<Rightarrow> w32 list \<Rightarrow> sha1_state \<Rightarrow> sha1_state" where
  "sha1_blocks 0 ws st = st"
| "sha1_blocks (Suc n) ws st = sha1_blocks n (drop 16 ws) (sha1_block (take 16 ws) st)"

definition sha1_sum :: "string \<Rightarrow> nat list" where
  "sha1_sum s =
     (let ws = be_words (sha1_pad (map of_char s))
      in case sha1_blocks (length ws div 16) ws (0x67452301, 0xEFCDAB89, 0x98BADCFE, 0x10325476, 0xC3D2E1F0) of
           (a, b, c, d, e) \<Rightarrow> concat (map (\<lambda>h. be_bytes 4 (unat h)) [a, b, c, d, e]))"

text \<open>\<open>hex.EncodeToString\<close>.\<close>

definition hex_digit :: "nat \<Rightarrow> char" where
  "hex_digit n = (if n < 10 then char_of (48 + n) else char_of (87 + n))"

definition ScriptSHA1Hex :: "string \<Rightarrow> string" where
  "ScriptSHA1Hex script = concat (map (\<lambda>b. [hex_digit (b div 16), hex_digit (b mod 16)]) (sha1_sum script))"

definition evalVerb :: string where "evalVerb = ''EVAL''"
definition evalShaVerb :: string where "evalShaVerb = ''EVALSHA''"
definition noScriptPrefix :: string where "noScriptPrefix = ''NOSCRIPT''"

definition evalArgv :: "string \<Rightarrow> string \<Rightarrow> string list \<Rightarrow> string list \<Rightarrow> string list" where
  "evalArgv verb scriptOrDigest keys args = [verb, scriptOrDigest, format_nat (length keys)] @ keys @ args"

definition Eval :: "go_ctx \<Rightarrow> string \<Rightarrow> string \<Rightarrow> string list \<Rightarrow> string list \<Rightarrow> world \<Rightarrow> (slot list \<times> redis_err option) \<times> world" where
  "Eval ctx script digest keys args w =
     (case run_exec ctx (evalArgv evalShaVerb digest keys args) w of
        ((vs, err), w') \<Rightarrow>
          (case err of
             Some e \<Rightarrow> if has_prefix noScriptPrefix (err_text e) then run_exec ctx (evalArgv evalVerb script keys args) w'
                       else ((vs, err), w')
           | None \<Rightarrow> ((vs, err), w')))"

section \<open>Group writes\<close>

definition maxMSetEXPairs :: nat where "maxMSetEXPairs = 1024"

definition msetexFallbackScript :: string where
  "msetexFallbackScript =
     ''local token = ARGV[#ARGV - 1]'' @ [LF] @
     ''local ttl = ARGV[#ARGV]'' @ [LF] @
     ''for i = 1, #KEYS do'' @ [LF] @
     ''  redis.call('' @ [CHR 0x27] @ ''SET'' @ [CHR 0x27] @ '', KEYS[i], ARGV[i], token, ttl)'' @ [LF] @
     ''end'' @ [LF] @
     ''return 1''"

definition msetexFallbackDigest :: string where
  "msetexFallbackDigest = ScriptSHA1Hex msetexFallbackScript"

definition msetexSuccess :: "redis_err + int \<Rightarrow> redis_err + unit" where
  "msetexSuccess r = (case r of Inl e \<Rightarrow> Inl e | Inr n \<Rightarrow> if n \<noteq> 1 then Inl ErrIssue else Inr ())"

definition unknownCommand :: "redis_err + 'a \<Rightarrow> bool" where
  "unknownCommand r = (case r of Inl e \<Rightarrow> has_prefix ''ERR unknown command'' (err_text e) | Inr _ \<Rightarrow> False)"

definition msetexArgs :: "string list \<Rightarrow> string list \<Rightarrow> string \<Rightarrow> int \<Rightarrow> string list" where
  "msetexArgs names vals token ttl =
     [''MSETEX'', format_nat (length names)] @ concat (map2 (\<lambda>n v. [n, v]) names vals) @ [token, format_int ttl]"

definition cachedGroupWrite :: "world \<Rightarrow> groupWritePath" where
  "cachedGroupWrite w = sr_groupWrite (w_sr w)"

definition storeGroupWrite :: "groupWritePath \<Rightarrow> world \<Rightarrow> world" where
  "storeGroupWrite path w = w\<lparr>w_sr := (w_sr w)\<lparr>sr_groupWrite := path\<rparr>\<rparr>"

definition msetexEval :: "go_ctx \<Rightarrow> string list \<Rightarrow> string list \<Rightarrow> string \<Rightarrow> int \<Rightarrow> unit command" where
  "msetexEval ctx names vals token ttl w =
     apfst (\<lambda>res. msetexSuccess (parseIntegerReply res))
       (Eval ctx msetexFallbackScript msetexFallbackDigest names (vals @ [token, format_int ttl]) w)"

definition msetex :: "go_ctx \<Rightarrow> string list \<Rightarrow> string list \<Rightarrow> string \<Rightarrow> int \<Rightarrow> unit command" where
  "msetex ctx names vals token ttl w =
     (if names = [] \<or> length names \<noteq> length vals \<or> length names > maxMSetEXPairs then (Inl ErrIssue, w)
      else if cachedGroupWrite w = groupWriteLua then msetexEval ctx names vals token ttl w
      else case run_exec ctx (msetexArgs names vals token ttl) w of
        (res, w') \<Rightarrow>
          (let n = parseIntegerReply res
           in if unknownCommand n then msetexEval ctx names vals token ttl (storeGroupWrite groupWriteLua w')
              else (msetexSuccess n, if isl n then w' else storeGroupWrite groupWriteNative w')))"

definition MSetEX :: "go_ctx \<Rightarrow> string list \<Rightarrow> string list \<Rightarrow> int \<Rightarrow> unit command" where
  "MSetEX ctx names vals seconds w = msetex ctx names vals ''EX'' seconds w"

definition MSetEXAt :: "go_ctx \<Rightarrow> string list \<Rightarrow> string list \<Rightarrow> int \<Rightarrow> unit command" where
  "MSetEXAt ctx names vals unixSeconds w = msetex ctx names vals ''EXAT'' unixSeconds w"

section \<open>Properties\<close>

text \<open>What a call of \<open>exec\<close> leaves of the world: the client but for its pool, and the outside.\<close>

lemma run_exec_calls:
  assumes "run_exec ctx args w = (res, w')"
  shows "w_calls w' = w_calls w @ [args]" "w_env w' = w_env w"
  using assms by (auto simp: run_exec_def split: prod.splits)

lemma Eval_cases:
  assumes "Eval ctx script digest keys args w = (res, w')"
  obtains "run_exec ctx (evalArgv evalShaVerb digest keys args) w = (res, w')"
    "\<forall>e. snd res = Some e \<longrightarrow> \<not> has_prefix noScriptPrefix (err_text e)"
  | vs e w1 where "run_exec ctx (evalArgv evalShaVerb digest keys args) w = ((vs, Some e), w1)"
    "has_prefix noScriptPrefix (err_text e)" "run_exec ctx (evalArgv evalVerb script keys args) w1 = (res, w')"
proof -
  obtain vs err w1 where r: "run_exec ctx (evalArgv evalShaVerb digest keys args) w = ((vs, err), w1)"
    using prod_cases3 by (metis surj_pair)
  show thesis
    using assms r that by (cases err) (auto simp: Eval_def split: if_splits)
qed


definition demo_world :: "string \<Rightarrow> string \<Rightarrow> world" where
  "demo_world first second = \<lparr>w_sr = plain_client,
     w_env = (\<lambda>k. \<lparr>ee_entry = None, ee_now = 0, ee_attempt = (\<lambda>n. quiet_attempt 0 n (if k = 0 then first else second))\<rparr>),
     w_calls = [], w_events = []\<rparr>"


text \<open>The pairs and the expiry a server reads from the arguments of MSETEX, and those the fallback
  script reads from its KEYS and ARGV.\<close>

definition native_pairs :: "string list \<Rightarrow> (string \<times> string) list \<times> string list" where
  "native_pairs argv =
     (case parse_digits (argv ! 1) of
        None \<Rightarrow> ([], [])
      | Some n \<Rightarrow> (map (\<lambda>i. (argv ! (2 + 2 * i), argv ! (3 + 2 * i))) [0..<n], drop (2 + 2 * n) argv))"

definition script_pairs :: "string list \<Rightarrow> (string \<times> string) list \<times> string list" where
  "script_pairs argv =
     (case parse_digits (argv ! 2) of
        None \<Rightarrow> ([], [])
      | Some n \<Rightarrow>
          (let keys = take n (drop 3 argv); args = drop (3 + n) argv
           in (map (\<lambda>i. (keys ! i, args ! i)) [0..<n], [args ! (length args - 2), args ! (length args - 1)])))"

lemma concat_pairs_nth:
  "length ns = length vs \<Longrightarrow> i < length ns \<Longrightarrow>
     (concat (map2 (\<lambda>n v. [n, v]) ns vs) @ t) ! (2 * i) = ns ! i \<and> (concat (map2 (\<lambda>n v. [n, v]) ns vs) @ t) ! Suc (2 * i) = vs ! i"
proof (induction ns vs arbitrary: i rule: list_induct2)
  case (Cons n ns v vs)
  then show ?case by (cases i) auto
qed simp

lemma length_concat_pairs: "length ns = length vs \<Longrightarrow> length (concat (map2 (\<lambda>n v. [n, v]) ns vs)) = 2 * length ns"
  by (induction ns vs rule: list_induct2) simp_all

text \<open>
  Both ways of a group write write the same. For names and values of equal number, the server that
  executes the native MSETEX and the server that executes the fallback script set exactly the
  pairs of the caller, in order, with the caller's expiry option and number.
\<close>

theorem group_write_same_pairs:
  assumes "length names = length vals"
  shows "native_pairs (msetexArgs names vals token ttl) = (zip names vals, [token, format_int ttl])
    \<and> script_pairs (evalArgv verb script names (vals @ [token, format_int ttl])) = (zip names vals, [token, format_int ttl])"
proof -
  let ?body = "concat (map2 (\<lambda>n v. [n, v]) names vals)"
  have z: "map (\<lambda>i. (names ! i, vals ! i)) [0..<length names] = zip names vals"
    using assms by (intro nth_equalityI) auto
  have "map (\<lambda>i. (msetexArgs names vals token ttl ! (2 + 2 * i), msetexArgs names vals token ttl ! (3 + 2 * i))) [0..<length names]
      = map (\<lambda>i. (names ! i, vals ! i)) [0..<length names]"
    using concat_pairs_nth [OF assms, of _ "[token, format_int ttl]"] by (intro map_cong) (auto simp: msetexArgs_def numeral_3_eq_3)
  moreover have "drop (2 * length names) (?body @ [token, format_int ttl]) = [token, format_int ttl]"
    using length_concat_pairs [OF assms] by simp
  ultimately have "native_pairs (msetexArgs names vals token ttl) = (zip names vals, [token, format_int ttl])"
    using z by (simp add: native_pairs_def msetexArgs_def)
  moreover have "map (\<lambda>i. (names ! i, (vals @ [token, format_int ttl]) ! i)) [0..<length names] = zip names vals"
    unfolding z [symmetric] using assms by (intro map_cong) (auto simp: nth_append)
  ultimately show ?thesis
    using assms by (simp add: script_pairs_def evalArgv_def Let_def nth_append eval_nat_numeral)
qed

theorem group_write_same_pairs_witness:
  "native_pairs (msetexArgs [''a'', ''b''] [''1'', ''2''] ''EX'' 60) = ([(''a'', ''1''), (''b'', ''2'')], [''EX'', ''60''])"
proof -
  have "format_int 60 = ''60''" by code_simp
  with group_write_same_pairs [of "[''a'', ''b'']" "[''1'', ''2'']" "''EX''" 60] show ?thesis by simp
qed

lemma run_exec_keeps:
  assumes "run_exec ctx args w = (res, w')" and "pool_ok (w_sr w)"
  shows "pool_ok (w_sr w')" "cachedGroupWrite w' = cachedGroupWrite w"
proof -
  obtain sr' evs where e: "exec (w_env w (length (w_calls w))) ctx args (w_sr w) = (res, sr', evs)" "w_sr w' = sr'"
    using assms(1) by (auto simp: run_exec_def split: prod.splits)
  have pre: "0 < capacity (w_sr w)" "tokens (w_sr w) \<le> capacity (w_sr w)" using assms(2) by (simp_all add: pool_ok_def)
  have "pool_step (w_sr w) (dialed evs) sr' (shut evs) \<and> tokens sr' \<le> capacity (w_sr w)"
    by (rule exec_cases [OF e(1)]) (use pre exec_loop_step in \<open>auto simp: pool_step_refl\<close>)
  then show "pool_ok (w_sr w')" "cachedGroupWrite w' = cachedGroupWrite w"
    using assms(2) frozen_fields [of sr' "w_sr w"] by (auto simp: pool_ok_def pool_step_def cachedGroupWrite_def e(2))
qed

lemma parse_success:
  assumes "msetexSuccess (parseIntegerReply res) = Inr ()"
  shows "\<exists>v. res = ([v], None) \<and> parse_int64 (slot_text v) = Some 1"
proof -
  have "integer_value (fst res) = Inr 1" "snd res = None"
    using assms by (auto simp: msetexSuccess_def parseIntegerReply_def on_values_def split: sum.splits option.splits if_splits)
  then show ?thesis
    by (cases "fst res") (auto simp: integer_value_def prod_eq_iff split: if_splits option.splits)
qed

text \<open>The last call of a run ended in the integer reply 1.\<close>

definition ended_in_one :: "go_ctx \<Rightarrow> world \<Rightarrow> bool" where
  "ended_in_one ctx w \<longleftrightarrow>
     (\<exists>argv w1 w2 v. run_exec ctx argv w1 = (([v], None), w2) \<and> parse_int64 (slot_text v) = Some 1 \<and> w_calls w = w_calls w1 @ [argv])"

lemma msetexEval_run:
  assumes "msetexEval ctx names vals token ttl w = (r, w')" and "pool_ok (w_sr w)"
  shows "cachedGroupWrite w' = cachedGroupWrite w" "r = Inr () \<longrightarrow> ended_in_one ctx w'"
    "\<exists>calls. w_calls w' = w_calls w @ calls \<and> length calls \<le> 2 \<and> (\<forall>argv \<in> set calls. hd argv \<noteq> ''MSETEX'')"
proof -
  let ?args = "vals @ [token, format_int ttl]"
  obtain res where e: "Eval ctx msetexFallbackScript msetexFallbackDigest names ?args w = (res, w')"
      "r = msetexSuccess (parseIntegerReply res)"
    using assms(1) by (auto simp: msetexEval_def apfst_def map_prod_def split: prod.splits)
  have verbs: "hd (evalArgv evalShaVerb msetexFallbackDigest names ?args) \<noteq> ''MSETEX''"
      "hd (evalArgv evalVerb msetexFallbackScript names ?args) \<noteq> ''MSETEX''"
    by (simp_all add: evalArgv_def evalShaVerb_def evalVerb_def)
  have one: "r = Inr () \<longrightarrow> ended_in_one ctx w'" if "run_exec ctx argv w1 = (res, w')" for argv w1
    using that parse_success [of res] run_exec_calls [OF that] unfolding e(2) ended_in_one_def by blast
  have "cachedGroupWrite w' = cachedGroupWrite w \<and> (r = Inr () \<longrightarrow> ended_in_one ctx w')
    \<and> (\<exists>calls. w_calls w' = w_calls w @ calls \<and> length calls \<le> 2 \<and> (\<forall>argv \<in> set calls. hd argv \<noteq> ''MSETEX''))"
    using e(1)
  proof (cases rule: Eval_cases)
    case 1
    then show ?thesis using one [OF 1(1)] run_exec_keeps(2) [OF 1(1) assms(2)] run_exec_calls(1) [OF 1(1)] verbs(1) by simp
  next
    case (2 vs x w1)
    note k = run_exec_keeps [OF 2(1) assms(2)]
    show ?thesis
      using one [OF 2(3)] run_exec_keeps(2) [OF 2(3) k(1)] k(2) run_exec_calls(1) [OF 2(1)] run_exec_calls(1) [OF 2(3)] verbs
      by simp
  qed
  then show "cachedGroupWrite w' = cachedGroupWrite w" "r = Inr () \<longrightarrow> ended_in_one ctx w'"
    "\<exists>calls. w_calls w' = w_calls w @ calls \<and> length calls \<le> 2 \<and> (\<forall>argv \<in> set calls. hd argv \<noteq> ''MSETEX'')" by simp_all
qed

text \<open>
  A client that met a server without MSETEX never sends it again. Once the fallback is recorded, a group
  write keeps it recorded and no call it makes has the verb MSETEX; a group write with no pairs, unequal
  lists or more than 1024 pairs is refused without any call; no group write makes more than three
  calls; and it succeeds only if its last call was answered with the integer 1.
\<close>

theorem group_write_path_sticks:
  assumes "msetex ctx names vals token ttl w = (r, w')" and "pool_ok (w_sr w)"
  shows "(names = [] \<or> length names \<noteq> length vals \<or> 1024 < length names \<longrightarrow> r = Inl ErrIssue \<and> w' = w)
    \<and> (r = Inr () \<longrightarrow> ended_in_one ctx w')
    \<and> (\<exists>calls. w_calls w' = w_calls w @ calls \<and> length calls \<le> 3
         \<and> (cachedGroupWrite w = groupWriteLua \<longrightarrow> cachedGroupWrite w' = groupWriteLua \<and> (\<forall>argv \<in> set calls. hd argv \<noteq> ''MSETEX'')))"
proof -
  let ?bad = "names = [] \<or> length names \<noteq> length vals \<or> length names > maxMSetEXPairs"
  consider "?bad" | "\<not> ?bad" "cachedGroupWrite w = groupWriteLua" | "\<not> ?bad" "cachedGroupWrite w \<noteq> groupWriteLua" by blast
  then show ?thesis
  proof cases
    case 1
    then show ?thesis using assms(1) by (auto simp: msetex_def maxMSetEXPairs_def)
  next
    case 2
    then have "msetexEval ctx names vals token ttl w = (r, w')" using assms(1) by (simp add: msetex_def)
    from msetexEval_run [OF this assms(2)] 2 show ?thesis by (force simp: maxMSetEXPairs_def)
  next
    case 3
    obtain res w1 where run: "run_exec ctx (msetexArgs names vals token ttl) w = (res, w1)" using prod.exhaust by blast
    note calls = run_exec_calls(1) [OF run] and ok = run_exec_keeps(1) [OF run assms(2)]
    show ?thesis
    proof (cases "unknownCommand (parseIntegerReply res)")
      case True
      then have e: "msetexEval ctx names vals token ttl (storeGroupWrite groupWriteLua w1) = (r, w')"
        using assms(1) 3 run by (simp add: msetex_def Let_def)
      have "pool_ok (w_sr (storeGroupWrite groupWriteLua w1))"
        using ok by (simp add: storeGroupWrite_def pool_ok_def capacity_def tokens_def)
      from msetexEval_run [OF e this] 3 calls show ?thesis by (force simp: maxMSetEXPairs_def storeGroupWrite_def)
    next
      case False
      then have r: "r = msetexSuccess (parseIntegerReply res)" "w_calls w' = w_calls w1"
        using assms(1) 3 run by (auto simp: msetex_def Let_def storeGroupWrite_def split: if_splits)
      have "r = Inr () \<longrightarrow> ended_in_one ctx w'"
        using parse_success [of res] run calls r unfolding ended_in_one_def by metis
      then show ?thesis using 3 calls r(2) by (auto simp: maxMSetEXPairs_def)
    qed
  qed
qed

theorem group_write_path_sticks_witness:
  "\<exists>calls. w_calls (snd (MSetEX NilCtx [''a''] [''1''] 60 (storeGroupWrite groupWriteLua (demo_world [] [])))) = calls \<and> (\<forall>argv \<in> set calls. hd argv \<noteq> ''MSETEX'')"
proof -
  let ?w = "storeGroupWrite groupWriteLua (demo_world [] [])"
  obtain r w' where m: "msetex NilCtx [''a''] [''1''] ''EX'' 60 ?w = (r, w')" using prod.exhaust by blast
  have "pool_ok (w_sr ?w)"
    using Redis_New_pool_ok(1) [OF plain_client_New] by (simp add: storeGroupWrite_def demo_world_def pool_ok_def capacity_def tokens_def)
  moreover have "cachedGroupWrite ?w = groupWriteLua" "w_calls ?w = []" by (simp_all add: storeGroupWrite_def demo_world_def cachedGroupWrite_def)
  ultimately show ?thesis using group_write_path_sticks [OF m] by (auto simp: MSetEX_def m)
qed

end
