(* ===== verification/Pool.thy ===== *)
theory Pool
  imports Session
begin

text \<open>
  Commands that share one client: every interleaving of the atomic operations of
  \<open>src/simpleredis/pool.go\<close> and of \<open>Close\<close>, for any number of goroutines. The operations are those of
  theory \<open>Client\<close>; a goroutine's place in \<open>borrowSocket\<close>, \<open>runOnConn\<close> and \<open>release\<close> is its state.
  The sockets that are open are tracked beside the client's own fields.
\<close>

section \<open>The turns as a semaphore\<close>

locale turn_semaphore =
  fixes take :: "'s \<Rightarrow> 's option" and give :: "'s \<Rightarrow> 's" and avail :: "'s \<Rightarrow> nat" and cap :: "'s \<Rightarrow> nat"
  assumes take_Some: "take s = Some s' \<Longrightarrow> avail s = Suc (avail s') \<and> cap s' = cap s"
    and take_None: "take s = None \<longleftrightarrow> avail s = 0"
    and give_avail: "avail s < cap s \<Longrightarrow> avail (give s) = Suc (avail s)"
    and give_cap: "cap (give s) = cap s"
begin

lemma take_conserves: "avail s + h = cap s \<Longrightarrow> take s = Some s' \<Longrightarrow> avail s' + Suc h = cap s'"
  using take_Some [of s s'] by simp

lemma give_conserves: "avail s + Suc h = cap s \<Longrightarrow> avail (give s) + h = cap (give s)"
  using give_avail [of s] give_cap [of s] by simp

lemma not_stuck: "avail s + h = cap s \<Longrightarrow> h < cap s \<Longrightarrow> \<exists>s'. take s = Some s'"
  using take_None [of s] by (cases "take s") auto

end

interpretation turns: turn_semaphore takeTurn freeInUseTurn tokens capacity
  by unfold_locales (auto simp: takeTurn_Some takeTurn_None freeInUseTurn_returns freeInUseTurn_keeps)

section \<open>Goroutines and steps\<close>

text \<open>
  A goroutine is outside a command, between two attempts, waits for a turn, holds a turn and is about to
  take a socket, dials, uses a socket, or is about to return the turn. The first flag is \<open>skipIdle\<close>, the
  flag of a socket in use says whether it came from the idle list, and a goroutine that returns its turn
  ends its command or goes on to the next attempt with the given \<open>skipIdle\<close>.
\<close>

datatype goroutine =
  Out | Between bool | Waiting bool | Turn bool | Dialing bool | Using pooledConn bool bool | Freeing "bool option"

record pool_state =
  ps_sr :: SimpleRedis
  ps_threads :: "goroutine list"
  ps_open :: "nat multiset"
  ps_next :: nat
  ps_draining :: bool

definition at_thread :: "nat \<Rightarrow> goroutine \<Rightarrow> pool_state \<Rightarrow> bool" where
  "at_thread i g s \<longleftrightarrow> i < length (ps_threads s) \<and> ps_threads s ! i = g"

definition go :: "nat \<Rightarrow> goroutine \<Rightarrow> pool_state \<Rightarrow> pool_state" where
  "go i g s = s\<lparr>ps_threads := (ps_threads s)[i := g]\<rparr>"

definition ids :: "pooledConn list \<Rightarrow> nat multiset" where
  "ids cs = mset (map pc_id cs)"

inductive pstep :: "pool_state \<Rightarrow> pool_state \<Rightarrow> bool" where
  enter: "at_thread i Out s \<Longrightarrow> \<not> sr_closed (ps_sr s) \<Longrightarrow> pstep s (go i (Waiting False) s)"
| enter_again: "at_thread i (Between skip) s \<Longrightarrow> \<not> sr_closed (ps_sr s) \<Longrightarrow> pstep s (go i (Waiting skip) s)"
| stop_retrying: "at_thread i (Between skip) s \<Longrightarrow> pstep s (go i Out s)"
| give_up: "at_thread i (Waiting skip) s \<Longrightarrow> pstep s (go i Out s)"
| take_turn: "at_thread i (Waiting skip) s \<Longrightarrow> takeTurn (ps_sr s) = Some sr' \<Longrightarrow>
    pstep s (go i (Turn skip) (s\<lparr>ps_sr := sr'\<rparr>))"
| idle_closed: "at_thread i (Turn False) s \<Longrightarrow> takeIdleConn now (ps_sr s) = (tk, sr') \<Longrightarrow> tk_closed tk \<Longrightarrow>
    pstep s (go i (Freeing None) (s\<lparr>ps_sr := sr'\<rparr>))"
| idle_hit: "at_thread i (Turn False) s \<Longrightarrow> takeIdleConn now (ps_sr s) = (tk, sr') \<Longrightarrow> \<not> tk_closed tk \<Longrightarrow> tk_reused tk = Some c \<Longrightarrow>
    pstep s (go i (Using c False True) (s\<lparr>ps_sr := sr', ps_open := ps_open s - ids (tk_stale tk)\<rparr>))"
| idle_miss: "at_thread i (Turn False) s \<Longrightarrow> takeIdleConn now (ps_sr s) = (tk, sr') \<Longrightarrow> \<not> tk_closed tk \<Longrightarrow> tk_reused tk = None \<Longrightarrow>
    pstep s (go i (Dialing False) (s\<lparr>ps_sr := sr', ps_open := ps_open s - ids (tk_stale tk)\<rparr>))"
| skip_closed: "at_thread i (Turn True) s \<Longrightarrow> sr_closed (ps_sr s) \<Longrightarrow> pstep s (go i (Freeing None) s)"
| skip_idle: "at_thread i (Turn True) s \<Longrightarrow> \<not> sr_closed (ps_sr s) \<Longrightarrow> pstep s (go i (Dialing True) s)"
| dial_fails: "at_thread i (Dialing skip) s \<Longrightarrow> r \<in> {None, Some skip} \<Longrightarrow> pstep s (go i (Freeing r) s)"
| dial_works: "at_thread i (Dialing skip) s \<Longrightarrow> pc_id c = ps_next s \<Longrightarrow>
    pstep s (go i (Using c skip False) (s\<lparr>ps_open := ps_open s + {#ps_next s#}, ps_next := Suc (ps_next s)\<rparr>))"
| park: "at_thread i (Using c skip idle) s \<Longrightarrow> r \<in> {None, Some skip} \<Longrightarrow> pc_id c' = pc_id c \<Longrightarrow> parkIdleConn c' (ps_sr s) = (True, sr') \<Longrightarrow>
    pstep s (go i (Freeing r) (s\<lparr>ps_sr := sr'\<rparr>))"
| park_refused: "at_thread i (Using c skip idle) s \<Longrightarrow> r \<in> {None, Some skip} \<Longrightarrow> pc_id c' = pc_id c \<Longrightarrow> parkIdleConn c' (ps_sr s) = (False, sr') \<Longrightarrow>
    pstep s (go i (Freeing r) (s\<lparr>ps_sr := sr', ps_open := ps_open s - {#pc_id c#}\<rparr>))"
| discard: "at_thread i (Using c skip idle) s \<Longrightarrow> r \<in> {None, Some skip, Some (skip \<or> idle)} \<Longrightarrow>
    pstep s (go i (Freeing r) (s\<lparr>ps_open := ps_open s - {#pc_id c#}\<rparr>))"
| free: "at_thread i (Freeing r) s \<Longrightarrow>
    pstep s (go i (case r of None \<Rightarrow> Out | Some skip \<Rightarrow> Between skip) (s\<lparr>ps_sr := freeInUseTurn (ps_sr s)\<rparr>))"
| close_first: "close_swap (ps_sr s) = (True, sr') \<Longrightarrow> pstep s (s\<lparr>ps_sr := sr', ps_draining := True\<rparr>)"
| close_second: "ps_draining s \<Longrightarrow> close_drain (ps_sr s) = (cs, sr') \<Longrightarrow>
    pstep s (s\<lparr>ps_sr := sr', ps_draining := False, ps_open := ps_open s - ids cs\<rparr>)"

text \<open>A client from \<open>New\<close> with \<open>n\<close> goroutines.\<close>

definition fresh_pool :: "SimpleRedis \<Rightarrow> nat \<Rightarrow> pool_state" where
  "fresh_pool sr n = \<lparr>ps_sr = sr, ps_threads = replicate n Out, ps_open = {#}, ps_next = 0, ps_draining = False\<rparr>"

section \<open>The invariant\<close>

fun has_turn :: "goroutine \<Rightarrow> nat" where
  "has_turn Out = 0"
| "has_turn (Between _) = 0"
| "has_turn (Waiting _) = 0"
| "has_turn _ = 1"

fun own :: "goroutine \<Rightarrow> nat multiset" where
  "own (Using c _ _) = {#pc_id c#}"
| "own _ = {#}"

definition turns_held :: "pool_state \<Rightarrow> nat" where
  "turns_held s = sum_list (map has_turn (ps_threads s))"

definition in_use :: "pool_state \<Rightarrow> nat multiset" where
  "in_use s = sum_list (map own (ps_threads s))"

definition pool_inv :: "pool_state \<Rightarrow> bool" where
  "pool_inv s \<longleftrightarrow> sr_inUseTurns (ps_sr s) \<noteq> None \<and> tokens (ps_sr s) + turns_held s = capacity (ps_sr s)
     \<and> sr_overFrees (ps_sr s) = 0
     \<and> int (length (sr_idleConns (ps_sr s))) \<le> sr_maxIdleConns (ps_sr s)
     \<and> idle_ids (ps_sr s) + in_use s = ps_open s
     \<and> (\<forall>c. count (ps_open s) c \<le> (if c < ps_next s then 1 else 0))
     \<and> (ps_draining s \<longrightarrow> sr_closed (ps_sr s))
     \<and> (sr_closed (ps_sr s) \<and> \<not> ps_draining s \<longrightarrow> sr_idleConns (ps_sr s) = [])"

lemma sum_list_swap:
  fixes f :: "'a \<Rightarrow> 'b :: comm_monoid_add"
  shows "i < length xs \<Longrightarrow> sum_list (map f (xs[i := x])) + f (xs ! i) = sum_list (map f xs) + f x"
proof (induction xs arbitrary: i)
  case (Cons a xs)
  then show ?case by (cases i) (auto simp: ac_simps)
qed simp

lemma go_counts:
  assumes "at_thread i g s"
  shows "turns_held (go i g' s) + has_turn g = turns_held s + has_turn g'"
    and "in_use (go i g' s) + own g = in_use s + own g'"
  using assms sum_list_swap [of i "ps_threads s" has_turn g'] sum_list_swap [of i "ps_threads s" own g']
  by (simp_all add: at_thread_def go_def turns_held_def in_use_def)

lemma go_keeps [simp]:
  "ps_sr (go i g s) = ps_sr s" "ps_open (go i g s) = ps_open s" "ps_next (go i g s) = ps_next s" "ps_draining (go i g s) = ps_draining s"
  by (simp_all add: go_def)

lemma counts_of_fields [simp]:
  "turns_held (s\<lparr>ps_sr := a\<rparr>) = turns_held s" "turns_held (s\<lparr>ps_open := b\<rparr>) = turns_held s" "turns_held (s\<lparr>ps_next := c\<rparr>) = turns_held s"
  "turns_held (s\<lparr>ps_draining := d\<rparr>) = turns_held s"
  "in_use (s\<lparr>ps_sr := a\<rparr>) = in_use s" "in_use (s\<lparr>ps_open := b\<rparr>) = in_use s" "in_use (s\<lparr>ps_next := c\<rparr>) = in_use s"
  "in_use (s\<lparr>ps_draining := d\<rparr>) = in_use s"
  "at_thread i g (s\<lparr>ps_sr := a\<rparr>) = at_thread i g s" "at_thread i g (s\<lparr>ps_open := b\<rparr>) = at_thread i g s"
  "at_thread i g (s\<lparr>ps_next := c\<rparr>) = at_thread i g s"
  by (simp_all add: turns_held_def in_use_def at_thread_def)

text \<open>A step that moves one goroutine keeps the invariant if the turns, the sockets and the closed
  state are accounted for.\<close>

lemma pool_inv_go:
  assumes "pool_inv s" and "at_thread i g s" and "s' = go i g' (s\<lparr>ps_sr := sr', ps_open := op, ps_next := nx\<rparr>)"
    and "sr_inUseTurns sr' \<noteq> None" and "capacity sr' = capacity (ps_sr s)"
    and "tokens sr' + has_turn g' = tokens (ps_sr s) + has_turn g"
    and "sr_overFrees sr' = 0" and "int (length (sr_idleConns sr')) \<le> sr_maxIdleConns sr'"
    and "op + own g = idle_ids sr' + in_use s + own g'"
    and "\<forall>c. count op c \<le> (if c < nx then 1 else 0)"
    and "sr_closed sr' = sr_closed (ps_sr s)" and "sr_closed sr' \<and> \<not> ps_draining s \<longrightarrow> sr_idleConns sr' = []"
  shows "pool_inv s'"
proof -
  let ?t = "s\<lparr>ps_sr := sr', ps_open := op, ps_next := nx\<rparr>"
  have "at_thread i g ?t" using assms(2) by simp
  note c = go_counts [OF this, of g']
  have "tokens sr' + turns_held s' = capacity sr'"
    using assms(1,5,6) c(1) by (simp add: pool_inv_def assms(3))
  moreover have f: "ps_sr s' = sr'" "ps_open s' = op" "ps_next s' = nx" "ps_draining s' = ps_draining s"
    by (simp_all add: assms(3))
  moreover have "op + own g = (idle_ids sr' + in_use s') + own g"
    using assms(9) c(2) by (simp add: assms(3) add.assoc)
  then have "idle_ids sr' + in_use s' = op" by (rule add_right_imp_eq [symmetric])
  moreover have "ps_draining s \<longrightarrow> sr_closed (ps_sr s)" using assms(1) by (simp add: pool_inv_def)
  ultimately show ?thesis
    unfolding pool_inv_def f using assms(4,7,8,10-12) by (intro conjI) simp_all
qed

lemma pool_invD:
  assumes "pool_inv s"
  shows "sr_inUseTurns (ps_sr s) \<noteq> None" "tokens (ps_sr s) + turns_held s = capacity (ps_sr s)" "sr_overFrees (ps_sr s) = 0"
    "int (length (sr_idleConns (ps_sr s))) \<le> sr_maxIdleConns (ps_sr s)" "idle_ids (ps_sr s) + in_use s = ps_open s"
    "\<forall>c. count (ps_open s) c \<le> (if c < ps_next s then 1 else 0)" "ps_draining s \<longrightarrow> sr_closed (ps_sr s)"
    "sr_closed (ps_sr s) \<and> \<not> ps_draining s \<longrightarrow> sr_idleConns (ps_sr s) = []"
  using assms unfolding pool_inv_def by simp_all

lemma pool_inv_go_same:
  assumes "pool_inv s" and "at_thread i g s" and "has_turn g' = has_turn g" and "own g' = own g"
  shows "pool_inv (go i g' s)"
  using pool_invD [OF assms(1)]
  by (intro pool_inv_go [OF assms(1,2), where g' = g' and sr' = "ps_sr s" and op = "ps_open s" and nx = "ps_next s"]) (simp_all add: assms(3,4))

lemma own_in_use: "at_thread i g s \<Longrightarrow> in_use s = in_use (go i Out s) + own g"
  using go_counts(2) [of i g s Out] by simp

lemma has_turn_held: "at_thread i g s \<Longrightarrow> has_turn g \<le> turns_held s"
  using go_counts(1) [of i g s Out] by simp

lemma count_minus: "\<forall>c. count M c \<le> f c \<Longrightarrow> \<forall>c. count (M - N) c \<le> (f c :: nat)"
  by (simp add: le_trans [OF diff_le_self])

text \<open>A step on the pool that hands out or takes in sockets.\<close>

lemma pool_inv_pool_step:
  assumes "pool_inv s" and "at_thread i g s" and "pool_step (ps_sr s) came sr' went" and "sr_inUseTurns sr' \<noteq> None"
    and "tokens sr' + has_turn g' = tokens (ps_sr s) + has_turn g" and "capacity sr' = capacity (ps_sr s)"
    and "came = own g" and "went = own g' + gone" and "sr_closed sr' \<and> \<not> ps_draining s \<longrightarrow> sr_idleConns sr' = []"
  shows "pool_inv (go i g' (s\<lparr>ps_sr := sr', ps_open := ps_open s - gone\<rparr>))"
proof -
  note inv = pool_invD [OF assms(1)]
  have step: "frozen sr' = frozen (ps_sr s)" "sr_closed sr' = sr_closed (ps_sr s)" "sr_overFrees sr' = sr_overFrees (ps_sr s)"
      "int (length (sr_idleConns (ps_sr s))) \<le> sr_maxIdleConns (ps_sr s) \<longrightarrow> int (length (sr_idleConns sr')) \<le> sr_maxIdleConns (ps_sr s)"
      "idle_ids (ps_sr s) + own g = idle_ids sr' + (own g' + gone)"
    using assms(3) by (simp_all add: pool_step_def assms(7,8))
  have eq: "ps_open s = (idle_ids sr' + own g' + in_use (go i Out s)) + gone"
  proof -
    have "ps_open s = (idle_ids (ps_sr s) + own g) + in_use (go i Out s)"
      unfolding inv(5) [symmetric] own_in_use [OF assms(2)] by (simp add: ac_simps)
    then show ?thesis unfolding step(5) by (simp add: ac_simps)
  qed
  have "(ps_open s - gone) + own g = idle_ids sr' + in_use s + own g'"
    unfolding eq own_in_use [OF assms(2)] add_diff_cancel_right' by (simp add: ac_simps)
  moreover have "\<forall>c. count (ps_open s - gone) c \<le> (if c < ps_next s then 1 else 0)" using inv(6) by (rule count_minus)
  moreover have "int (length (sr_idleConns sr')) \<le> sr_maxIdleConns sr'" using step(4) inv(4) frozen_fields(1) [OF step(1)] by simp
  ultimately show ?thesis
    using assms(4-6,9) step(2,3) inv(3)
    by (intro pool_inv_go [OF assms(1,2), where g' = g' and sr' = sr' and op = "ps_open s - gone" and nx = "ps_next s"]) simp_all
qed

lemma closed_idle:
  assumes "pool_inv s" and "sr_closed sr' = sr_closed (ps_sr s)" and "sr_idleConns sr' = sr_idleConns (ps_sr s)"
  shows "sr_closed sr' \<and> \<not> ps_draining s \<longrightarrow> sr_idleConns sr' = []"
  using pool_invD(8) [OF assms(1)] assms(2,3) by simp

lemma take_turn_inv:
  assumes "pool_inv s" and "at_thread i (Waiting skip) s" and "takeTurn (ps_sr s) = Some sr'"
  shows "pool_inv (go i (Turn skip) (s\<lparr>ps_sr := sr'\<rparr>))"
proof -
  note t = takeTurn_Some [OF assms(3)]
  have "pool_step (ps_sr s) {#} sr' {#}" using t by (simp add: pool_step_def idle_ids_def)
  then show ?thesis
    using pool_inv_pool_step [OF assms(1,2), of "{#}" sr' "{#}" "Turn skip" "{#}"] t frozen_fields(4) [OF t(3)]
      pool_invD(1) [OF assms(1)] closed_idle [OF assms(1) t(5,4)]
    by simp
qed

lemma idle_inv:
  assumes "pool_inv s" and "at_thread i (Turn False) s" and "takeIdleConn now (ps_sr s) = (tk, sr')" and "\<not> tk_closed tk"
    and "g' = (case tk_reused tk of Some c \<Rightarrow> Using c False True | None \<Rightarrow> Dialing False)"
  shows "pool_inv (go i g' (s\<lparr>ps_sr := sr', ps_open := ps_open s - ids (tk_stale tk)\<rparr>))"
proof -
  note k = takeIdleConn_keeps [OF assms(3)]
  have "\<not> sr_closed (ps_sr s)" using k(6) assms(4) by simp
  note step = takeIdleConn_step [OF assms(3) this]
  have "mset (map pc_id (tk_stale tk)) + image_mset pc_id (mset_set (set_option (tk_reused tk))) = own g' + ids (tk_stale tk)"
    by (cases "tk_reused tk") (simp_all add: assms(5) ids_def)
  moreover have "has_turn g' = 1" by (simp add: assms(5) split: option.split)
  ultimately show ?thesis
    using pool_inv_pool_step [OF assms(1,2) step, of g' "ids (tk_stale tk)"] k frozen_fields(4) [OF k(3)]
      pool_invD(1) [OF assms(1)] assms(4)
    by simp
qed

lemma park_inv:
  assumes "pool_inv s" and "at_thread i (Using c skip idle) s" and "parkIdleConn c' (ps_sr s) = (b, sr')" and "pc_id c' = pc_id c"
  shows "pool_inv (go i (Freeing r) (s\<lparr>ps_sr := sr', ps_open := ps_open s - (if b then {#} else {#pc_id c#})\<rparr>))"
proof -
  note k = parkIdleConn_keeps [OF assms(3)]
  let ?gone = "if b then {#} else {#pc_id c#}"
  have step: "pool_step (ps_sr s) {#pc_id c#} sr' ?gone"
    using k(3,4,5,6,7) assms(4) by (cases b) (simp_all add: pool_step_def idle_ids_def)
  have "sr_closed sr' \<and> \<not> ps_draining s \<longrightarrow> sr_idleConns sr' = []"
    using k(4,6,7) pool_invD(8) [OF assms(1)] by (cases b) simp_all
  then show ?thesis
    using k(1,2) frozen_fields(4) [OF k(3)] pool_invD(1) [OF assms(1)]
    by (intro pool_inv_pool_step [OF assms(1,2) step]) simp_all
qed

lemma discard_inv:
  assumes "pool_inv s" and "at_thread i (Using c skip idle) s"
  shows "pool_inv (go i (Freeing r) (s\<lparr>ps_open := ps_open s - {#pc_id c#}\<rparr>))"
proof -
  have "pool_inv (go i (Freeing r) (s\<lparr>ps_sr := ps_sr s, ps_open := ps_open s - {#pc_id c#}\<rparr>))"
    using pool_invD(1,8) [OF assms(1)]
    by (intro pool_inv_pool_step [OF assms pool_step_refl [of "ps_sr s" "{#pc_id c#}"]]) simp_all
  then show ?thesis by simp
qed

lemma dial_inv:
  assumes "pool_inv s" and "at_thread i (Dialing skip) s" and "pc_id c = ps_next s"
  shows "pool_inv (go i (Using c skip False) (s\<lparr>ps_open := ps_open s + {#ps_next s#}, ps_next := Suc (ps_next s)\<rparr>))"
proof -
  note inv = pool_invD [OF assms(1)]
  have "\<forall>x. count (ps_open s + {#ps_next s#}) x \<le> (if x < Suc (ps_next s) then 1 else 0)"
  proof
    fix x
    show "count (ps_open s + {#ps_next s#}) x \<le> (if x < Suc (ps_next s) then 1 else 0)"
      using inv(6) [rule_format, of x] by (auto split: if_splits)
  qed
  then show ?thesis
    using inv by (intro pool_inv_go [OF assms(1,2), where g' = "Using c skip False" and sr' = "ps_sr s" and op = "ps_open s + {#ps_next s#}" and nx = "Suc (ps_next s)"])
      (simp_all add: assms(3))
qed

lemma free_inv:
  assumes "pool_inv s" and "at_thread i (Freeing r) s" and "has_turn g' = 0" and "own g' = {#}"
  shows "pool_inv (go i g' (s\<lparr>ps_sr := freeInUseTurn (ps_sr s)\<rparr>))"
proof -
  have lt: "tokens (ps_sr s) < capacity (ps_sr s)"
    using pool_invD(2) [OF assms(1)] has_turn_held [OF assms(2)] by simp
  note k = freeInUseTurn_keeps [of "ps_sr s"]
  have "pool_inv (go i g' (s\<lparr>ps_sr := freeInUseTurn (ps_sr s), ps_open := ps_open s - {#}\<rparr>))"
    using assms(3,4) freeInUseTurn_returns(1) [OF lt] k(1) frozen_fields(4) [OF k(2)] pool_invD(1) [OF assms(1)] closed_idle [OF assms(1) k(4,3)]
    by (intro pool_inv_pool_step [OF assms(1,2) freeInUseTurn_step [OF lt]]) simp_all
  then show ?thesis by simp
qed

lemma close_first_inv:
  assumes "pool_inv s" and "close_swap (ps_sr s) = (True, sr')"
  shows "pool_inv (s\<lparr>ps_sr := sr', ps_draining := True\<rparr>)"
proof -
  have "sr' = (ps_sr s)\<lparr>sr_closed := True\<rparr>" using assms(2) by (auto simp: close_swap_def split: if_splits)
  then show ?thesis
    using pool_invD [OF assms(1)] by (simp add: pool_inv_def tokens_def capacity_def idle_ids_def)
qed

lemma close_second_inv:
  assumes "pool_inv s" and "ps_draining s" and "close_drain (ps_sr s) = (cs, sr')"
  shows "pool_inv (s\<lparr>ps_sr := sr', ps_draining := False, ps_open := ps_open s - ids cs\<rparr>)"
proof -
  note inv = pool_invD [OF assms(1)]
  have sr': "sr' = (ps_sr s)\<lparr>sr_idleConns := []\<rparr>" "ids cs = idle_ids (ps_sr s)"
    using assms(3) by (auto simp: close_drain_def ids_def idle_ids_def)
  have "ps_open s - ids cs = in_use s" unfolding inv(5) [symmetric] sr'(2) by simp
  moreover have "\<forall>c. count (ps_open s - ids cs) c \<le> (if c < ps_next s then 1 else 0)" using inv(6) by (rule count_minus)
  moreover have "0 \<le> sr_maxIdleConns (ps_sr s)" using inv(4) by linarith
  ultimately show ?thesis
    using inv(1-3) unfolding pool_inv_def by (simp add: sr'(1) tokens_def capacity_def idle_ids_def)
qed

lemma pstep_inv: "pstep s s' \<Longrightarrow> pool_inv s \<Longrightarrow> pool_inv s'"
proof (induction rule: pstep.induct)
  case (idle_closed i s now tk sr')
  then have "sr' = ps_sr s" by (auto simp: takeIdleConn_def Let_def split: if_splits)
  then show ?case using pool_inv_go_same [OF idle_closed(4,1), of "Freeing None"] by simp
next
  case (idle_hit i s now tk sr' c)
  then show ?case using idle_inv [OF idle_hit(5,1-3)] by simp
next
  case (idle_miss i s now tk sr')
  then show ?case using idle_inv [OF idle_miss(5,1-3)] by simp
next
  case (park i c skip idle s r c' sr')
  then show ?case using park_inv [OF park(5,1,4,3)] by simp
next
  case (park_refused i c skip idle s r c' sr')
  then show ?case using park_inv [OF park_refused(5,1,4,3)] by simp
next
  case (dial_works i skip s c)
  then show ?case by (intro dial_inv)
next
  case (take_turn i skip s sr')
  then show ?case by (intro take_turn_inv)
next
  case (discard i c skip idle s r)
  then show ?case by (intro discard_inv)
next
  case (free i r s)
  then show ?case by (intro free_inv) (auto split: option.split)
next
  case (close_first s sr')
  then show ?case by (intro close_first_inv)
next
  case (close_second s cs sr')
  then show ?case by (intro close_second_inv)
qed (erule (1) pool_inv_go_same; simp)+

lemma frozen_pstep: "pstep s s' \<Longrightarrow> frozen (ps_sr s') = frozen (ps_sr s)"
proof (induction rule: pstep.induct)
  case (close_first s sr')
  then show ?case by (auto simp: close_swap_def frozen_def split: if_splits)
next
  case (close_second s cs sr')
  then show ?case by (auto simp: close_drain_def frozen_def)
qed (simp_all add: takeTurn_Some(3) takeIdleConn_keeps(3) parkIdleConn_keeps(3) freeInUseTurn_keeps(2))

lemma reach_inv:
  assumes "pstep\<^sup>*\<^sup>* (fresh_pool sr n) s" and "pool_ok sr" and "sr_idleConns sr = []" and "\<not> sr_closed sr" and "tokens sr = capacity sr"
  shows "pool_inv s" and "frozen (ps_sr s) = frozen sr"
proof -
  have "sum_list (map has_turn (replicate n Out)) = 0" "sum_list (map own (replicate n Out)) = {#}" by (induction n) simp_all
  then have "pool_inv (fresh_pool sr n)"
    using assms(2-5)
    by (simp add: fresh_pool_def pool_inv_def pool_ok_def turns_held_def in_use_def idle_ids_def)
  with assms(1) show "pool_inv s" by (induction rule: rtranclp_induct) (auto intro: pstep_inv)
  show "frozen (ps_sr s) = frozen sr"
    using assms(1) by (induction rule: rtranclp_induct) (simp_all add: fresh_pool_def frozen_pstep)
qed

lemma size_in_use: "size (in_use s) \<le> turns_held s"
proof -
  have "size (sum_list (map own ts)) \<le> sum_list (map has_turn ts)" for ts
  proof (induction ts)
    case (Cons g ts)
    have "size (own g) \<le> has_turn g" by (cases g) simp_all
    then show ?case using Cons by simp
  qed simp
  then show ?thesis by (simp add: in_use_def turns_held_def)
qed

text \<open>
  C7: No interleaving of commands and \<open>Close\<close> breaks the pool. For any number of goroutines on a client
  from \<open>New\<close>, in every state that can be reached: the free turns and the goroutines that hold one add up to
  the pool size, and no turn was ever returned twice; at most pool size sockets are in use; at most
  \<open>MaxIdleConns\<close> are idle; the open sockets are exactly the idle ones and the ones in use, each of them
  once, so that no socket leaks, none is used after it was closed and none by two commands; and once \<open>Close\<close> has
  finished no socket is idle.
\<close>

theorem pool_interleavings_safe:
  assumes "Redis_New cfg = Inr sr" and "pstep\<^sup>*\<^sup>* (fresh_pool sr n) s"
  shows "int (tokens (ps_sr s) + turns_held s) = PoolSize sr \<and> OverFrees (ps_sr s) = 0 \<and> int (size (in_use s)) \<le> PoolSize sr
    \<and> int (length (sr_idleConns (ps_sr s))) \<le> MaxIdleConns sr
    \<and> idle_ids (ps_sr s) + in_use s = ps_open s \<and> (\<forall>c. count (ps_open s) c \<le> 1)
    \<and> (isClosed (ps_sr s) \<and> \<not> ps_draining s \<longrightarrow> sr_idleConns (ps_sr s) = [])"
proof -
  note new = Redis_New_pool_ok [OF assms(1)]
  have inv: "pool_inv s" and fr: "frozen (ps_sr s) = frozen sr"
    using reach_inv [OF assms(2) new(1-4)] by simp_all
  note i = pool_invD [OF inv] and f = frozen_fields [OF fr]
  have cap: "PoolSize sr = int (capacity (ps_sr s))"
    using new(1) f(2) by (auto simp: PoolSize_def liveCap_def capacity_def pool_ok_def split: option.splits)
  have "\<forall>c. count (ps_open s) c \<le> 1" 
  proof
    fix c
    show "count (ps_open s) c \<le> 1" using i(6) [rule_format, of c] by (simp split: if_splits)
  qed
  moreover have "size (in_use s) \<le> capacity (ps_sr s)" using size_in_use [of s] i(2) by simp
  ultimately show ?thesis
    using i f(1) cap by (simp add: OverFrees_def MaxIdleConns_def isClosed_def)
qed

section \<open>More sockets than the pool size\<close>

definition small_client :: SimpleRedis where
  "small_client = projr (Redis_New (plain_config\<lparr>cf_PoolSize := 1\<rparr>))"

lemma small_client_New: "Redis_New (plain_config\<lparr>cf_PoolSize := 1\<rparr>) = Inr small_client"
  unfolding small_client_def by code_simp

lemma small_client_fields:
  "sr_inUseTurns small_client = Some (1, 1)" "sr_maxIdleConns small_client = 1" "sr_idleTimeout small_client = 30 * Second"
  "sr_closed small_client = False" "sr_idleConns small_client = []"
  by code_simp+

definition conn0 :: "nat \<Rightarrow> pooledConn" where
  "conn0 n = \<lparr>pc_id = n, pc_reader = [], pc_wire = [], pc_lastUsed = 0\<rparr>"

text \<open>A state of the small client: free turns, goroutines, idle and open sockets, and the next number.\<close>

definition small :: "nat \<Rightarrow> goroutine list \<Rightarrow> pooledConn list \<Rightarrow> nat multiset \<Rightarrow> nat \<Rightarrow> pool_state" where
  "small t ts idle op n = \<lparr>ps_sr = small_client\<lparr>sr_idleConns := idle, sr_inUseTurns := Some (1, t)\<rparr>, ps_threads = ts,
     ps_open = op, ps_next = n, ps_draining = False\<rparr>"

lemma fresh_small: "fresh_pool small_client 2 = small 1 [Out, Out] [] {#} 0"
proof -
  have "small_client\<lparr>sr_idleConns := [], sr_inUseTurns := Some (1, 1)\<rparr> = small_client"
    using small_client_fields by (cases small_client) simp
  then show ?thesis by (simp add: fresh_pool_def small_def numeral_2_eq_2)
qed

lemma go_small: "go i g (small t ts idle op n) = small t (ts[i := g]) idle op n"
  by (simp add: go_def small_def)

lemma at_small: "at_thread i g (small t ts idle op n) \<longleftrightarrow> i < length ts \<and> ts ! i = g"
  by (simp add: at_thread_def small_def)

lemma take_small: "i < length ts \<Longrightarrow> ts ! i = Waiting skip \<Longrightarrow> pstep (small 1 ts idle op n) (small 0 (ts[i := Turn skip]) idle op n)"
  using pstep.take_turn [of i skip "small 1 ts idle op n" "small_client\<lparr>sr_idleConns := idle, sr_inUseTurns := Some (1, 0)\<rparr>"]
  by (simp add: at_thread_def takeTurn_def small_def go_def)

lemma enter_small: "i < length ts \<Longrightarrow> ts ! i = Out \<Longrightarrow> pstep (small t ts idle op n) (small t (ts[i := Waiting False]) idle op n)"
  using pstep.enter [of i "small t ts idle op n"] by (simp add: at_small go_small) (simp add: small_def small_client_fields)

lemma enter_again_small:
  "i < length ts \<Longrightarrow> ts ! i = Between skip \<Longrightarrow> pstep (small t ts idle op n) (small t (ts[i := Waiting skip]) idle op n)"
  using pstep.enter_again [of i skip "small t ts idle op n"] by (simp add: at_small go_small) (simp add: small_def small_client_fields)

lemma miss_small:
  assumes "i < length ts" and "ts ! i = Turn False"
  shows "pstep (small t ts [] op n) (small t (ts[i := Dialing False]) [] op n)"
proof -
  have "takeIdleConn 0 (ps_sr (small t ts [] op n)) = (\<lparr>tk_reused = None, tk_stale = [], tk_closed = False\<rparr>, ps_sr (small t ts [] op n))"
    by (simp add: takeIdleConn_def small_def small_client_fields)
  from pstep.idle_miss [OF _ this, of i] show ?thesis
    using assms by (simp add: at_small ids_def) (simp add: small_def go_def)
qed

lemma hit_small:
  assumes "i < length ts" and "ts ! i = Turn False"
  shows "pstep (small t ts [conn0 c] op n) (small t (ts[i := Using (conn0 c) False True]) [] op n)"
proof -
  have "takeIdleConn 0 (ps_sr (small t ts [conn0 c] op n))
      = (\<lparr>tk_reused = Some (conn0 c), tk_stale = [], tk_closed = False\<rparr>, ps_sr (small t ts [] op n))"
    by (simp add: takeIdleConn_def small_def small_client_fields young_def conn0_def Second_def time_sub_def min_int64_def max_int64_def)
  from pstep.idle_hit [OF _ this, of i] show ?thesis
    using assms by (simp add: at_small ids_def) (simp add: small_def go_def)
qed

lemma skip_small: "i < length ts \<Longrightarrow> ts ! i = Turn True \<Longrightarrow> pstep (small t ts idle op n) (small t (ts[i := Dialing True]) idle op n)"
  using pstep.skip_idle [of i "small t ts idle op n"] by (simp add: at_small go_small) (simp add: small_def small_client_fields)

lemma dial_small:
  "i < length ts \<Longrightarrow> ts ! i = Dialing skip \<Longrightarrow>
     pstep (small t ts idle op n) (small t (ts[i := Using (conn0 n) skip False]) idle (op + {#n#}) (Suc n))"
  using pstep.dial_works [of i skip "small t ts idle op n" "conn0 n"] by (simp add: at_small conn0_def) (simp add: small_def go_def)

lemma park_small:
  assumes "i < length ts" and "ts ! i = Using (conn0 c) skip idle"
  shows "pstep (small t ts [] op n) (small t (ts[i := Freeing None]) [conn0 c] op n)"
proof -
  have "parkIdleConn (conn0 c) (ps_sr (small t ts [] op n)) = (True, ps_sr (small t ts [conn0 c] op n))"
    by (simp add: parkIdleConn_def small_def small_client_fields)
  from pstep.park [OF _ _ _ this, of i "conn0 c" skip idle None] show ?thesis
    using assms by (simp add: at_small) (simp add: small_def go_def)
qed

lemma discard_small:
  "i < length ts \<Longrightarrow> ts ! i = Using (conn0 c) False True \<Longrightarrow>
     pstep (small t ts idle op n) (small t (ts[i := Freeing (Some True)]) idle (op - {#c#}) n)"
  using pstep.discard [of i "conn0 c" False True "small t ts idle op n" "Some True"] by (simp add: at_small conn0_def) (simp add: small_def go_def)

lemma free_small:
  "i < length ts \<Longrightarrow> ts ! i = Freeing r \<Longrightarrow>
     pstep (small 0 ts idle op n) (small 1 (ts[i := (case r of None \<Rightarrow> Out | Some skip \<Rightarrow> Between skip)]) idle op n)"
  using pstep.free [of i r "small 0 ts idle op n"] by (simp add: at_small freeInUseTurn_def) (simp add: small_def go_def)

text \<open>A command that finds no idle socket dials one and parks it.\<close>

lemma serve_small:
  assumes "i < length ts" and "ts ! i = Out"
  shows "pstep\<^sup>*\<^sup>* (small 1 ts [] op n) (small 1 ts [conn0 n] (op + {#n#}) (Suc n))"
proof -
  note r = converse_rtranclp_into_rtranclp [where r = pstep] and up = nth_list_update_eq [OF assms(1)]
  have len: "i < length (ts[i := g])" for g using assms(1) by simp
  note steps = enter_small [OF assms, of 1 "[]" op n] take_small [where skip = False and idle = "[]" and op = op and n = n, OF len up] miss_small [where t = 0 and op = op and n = n, OF len up]
    dial_small [where skip = False and t = 0 and idle = "[]" and op = op and n = n, OF len up] park_small [where c = n and skip = False and idle = False and t = 0 and op = "op + {#n#}" and n = "Suc n", OF len up]
    free_small [where r = None and idle = "[conn0 n]" and op = "op + {#n#}" and n = "Suc n", OF len up]
  have "ts[i := Out] = ts" using assms by (simp add: list_update_same_conv)
  then show ?thesis
    using r [OF steps(1) r [OF steps(2) [unfolded list_update_overwrite] r [OF steps(3) [unfolded list_update_overwrite]
      r [OF steps(4) [unfolded list_update_overwrite] r [OF steps(5) [unfolded list_update_overwrite]
      r [OF steps(6) [unfolded list_update_overwrite] rtranclp.rtrancl_refl]]]]]] by simp
qed

text \<open>A command that fails on the idle socket, up to its pause, and one that dials after it.\<close>

lemma fail_small:
  assumes "i < length ts" and "ts ! i = Out"
  shows "pstep\<^sup>*\<^sup>* (small 1 ts [conn0 c] op n) (small 1 (ts[i := Between True]) [] (op - {#c#}) n)"
proof -
  note r = converse_rtranclp_into_rtranclp [where r = pstep] and up = nth_list_update_eq [OF assms(1)]
  have len: "i < length (ts[i := g])" for g using assms(1) by simp
  note steps = enter_small [OF assms, of 1 "[conn0 c]" op n] take_small [where skip = False and idle = "[conn0 c]" and op = op and n = n, OF len up]
    hit_small [where t = 0 and c = c and op = op and n = n, OF len up] discard_small [where c = c and t = 0 and idle = "[]" and op = op and n = n, OF len up]
    free_small [where r = "Some True" and idle = "[]" and op = "op - {#c#}" and n = n, OF len up]
  show ?thesis
    using r [OF steps(1) r [OF steps(2) [unfolded list_update_overwrite] r [OF steps(3) [unfolded list_update_overwrite]
      r [OF steps(4) [unfolded list_update_overwrite] r [OF steps(5) [unfolded list_update_overwrite] rtranclp.rtrancl_refl]]]]] by simp
qed

lemma retry_small:
  assumes "i < length ts" and "ts ! i = Between True"
  shows "pstep\<^sup>*\<^sup>* (small 1 ts idle op n) (small 0 (ts[i := Using (conn0 n) True False]) idle (op + {#n#}) (Suc n))"
proof -
  note r = converse_rtranclp_into_rtranclp [where r = pstep] and up = nth_list_update_eq [OF assms(1)]
  have len: "i < length (ts[i := g])" for g using assms(1) by simp
  note steps = enter_again_small [OF assms, of 1 idle op n] take_small [where skip = True and idle = idle and op = op and n = n, OF len up]
    skip_small [where t = 0 and idle = idle and op = op and n = n, OF len up] dial_small [where skip = True and t = 0 and idle = idle and op = op and n = n, OF len up]
  show ?thesis
    using r [OF steps(1) r [OF steps(2) [unfolded list_update_overwrite] r [OF steps(3) [unfolded list_update_overwrite]
      r [OF steps(4) [unfolded list_update_overwrite] rtranclp.rtrancl_refl]]]] by simp
qed

text \<open>
  C29: The pool size does not bound the open sockets. On a client with pool size 1 two goroutines
  can bring about two open sockets: one command fails on an idle socket and is about to try again with a dial, the other
  dials and parks a socket, and the first then dials although a socket is idle. The number of
  sockets in use and the number of idle ones stay within their own limits.
\<close>

theorem live_sockets_exceed_pool_size:
  "\<exists>sr s. Redis_New (plain_config\<lparr>cf_PoolSize := 1\<rparr>) = Inr sr \<and> pstep\<^sup>*\<^sup>* (fresh_pool sr 2) s
     \<and> PoolSize sr = 1 \<and> size (ps_open s) = 2 \<and> size (in_use s) = 1 \<and> length (sr_idleConns (ps_sr s)) = 1"
proof -
  let ?final = "small 0 [Using (conn0 2) True False, Out] [conn0 1] {#1, 2#} 3"
  have "pstep\<^sup>*\<^sup>* (small 1 [Out, Out] [] {#} 0) (small 1 [Out, Out] [conn0 0] {#0#} 1)"
    using serve_small [of 0 "[Out, Out]" "{#}" 0] by simp
  also have "pstep\<^sup>*\<^sup>* (small 1 [Out, Out] [conn0 0] {#0#} 1) (small 1 [Between True, Out] [] {#} 1)"
    using fail_small [of 0 "[Out, Out]" 0 "{#0#}" 1] by simp
  also have "pstep\<^sup>*\<^sup>* (small 1 [Between True, Out] [] {#} 1) (small 1 [Between True, Out] [conn0 1] {#1#} 2)"
    using serve_small [of 1 "[Between True, Out]" "{#}" 1] by (simp add: numeral_2_eq_2)
  also have "pstep\<^sup>*\<^sup>* (small 1 [Between True, Out] [conn0 1] {#1#} 2) ?final"
    using retry_small [of 0 "[Between True, Out]" "[conn0 1]" "{#1#}" 2] by (simp add: add_mset_commute)
  finally have "pstep\<^sup>*\<^sup>* (fresh_pool small_client 2) ?final" by (simp add: fresh_small)
  moreover have "PoolSize small_client = 1" by code_simp
  ultimately show ?thesis
    using small_client_New by (intro exI [of _ small_client] exI [of _ ?final]) (simp add: small_def in_use_def)
qed

theorem pool_interleavings_safe_witness:
  "\<exists>s. pstep\<^sup>*\<^sup>* (fresh_pool small_client 2) s \<and> sr_idleConns (ps_sr s) \<noteq> [] \<and> size (in_use s) \<le> 1"
proof -
  let ?s = "small 1 [Out, Out] [conn0 0] {#0#} 1"
  have run: "pstep\<^sup>*\<^sup>* (fresh_pool small_client 2) ?s"
    using serve_small [of 0 "[Out, Out]" "{#}" 0] by (simp add: fresh_small)
  have "PoolSize small_client = 1" by code_simp
  then have "size (in_use ?s) \<le> 1" using pool_interleavings_safe [OF small_client_New run] by simp
  moreover have "sr_idleConns (ps_sr ?s) \<noteq> []" by (simp add: small_def)
  ultimately show ?thesis using run by blast
qed

end
