(* ===== verification/WindowCounter.thy ===== *)
theory WindowCounter
  imports Commands Float64
begin

text \<open>
  The sliding-window limiter of \<open>src/windowcounter/limiter.go\<close>. Its Redis client is an argument: the four
  operations it calls and the clock, on a state of the outside; the client of theory \<open>Commands\<close> is one such
  client. Each method is a function on the limiter and that state, in the order of the code: what runs
  under the mutex, and the Redis calls for which the mutex is released. The timer that flushes the buffer
  has its own step relation in theory \<open>Ticker\<close>.
\<close>

section \<open>The client and the limiter\<close>

record 'w wclient =
  wc_Get :: "string \<Rightarrow> 'w \<Rightarrow> (redis_err + string) \<times> 'w"
  wc_Incr :: "string \<Rightarrow> 'w \<Rightarrow> (redis_err + int) \<times> 'w"
  wc_Expire :: "string \<Rightarrow> int \<Rightarrow> 'w \<Rightarrow> (redis_err + unit) \<times> 'w"
  wc_Eval :: "string \<Rightarrow> string \<Rightarrow> string list \<Rightarrow> string list \<Rightarrow> 'w \<Rightarrow> (slot list \<times> redis_err option) \<times> 'w"
  wc_now :: "'w \<Rightarrow> instant"

text \<open>\<open>*simpleredis.SimpleRedis\<close> with a context, and a clock.\<close>

definition redis_client :: "go_ctx \<Rightarrow> (world \<Rightarrow> instant) \<Rightarrow> world wclient" where
  "redis_client ctx clock = \<lparr>wc_Get = Get ctx, wc_Incr = Incr ctx, wc_Expire = Expire ctx, wc_Eval = Eval ctx, wc_now = clock\<rparr>"

definition minSyncRate :: duration where
  "minSyncRate = 20 * Millisecond"

definition quoted :: "string \<Rightarrow> string" where
  "quoted s = [CHR 0x22] @ s @ [CHR 0x22]"

definition flushScript :: string where
  "flushScript =
     ''local exists = redis.call('' @ quoted ''exists'' @ '', KEYS[1])'' @ [LF] @
     ''local value = redis.call('' @ quoted ''incrby'' @ '', KEYS[1], ARGV[1])'' @ [LF] @
     ''if exists == 0 then'' @ [LF] @
     ''  redis.call('' @ quoted ''expireat'' @ '', KEYS[1], ARGV[2])'' @ [LF] @
     ''end'' @ [LF] @
     ''return value''"

definition flushScriptDigest :: string where
  "flushScriptDigest = ScriptSHA1Hex flushScript"

datatype wc_err =
  ErrRedisRequired | ErrSyncRate | ErrWindowShort | ErrWindowFraction
| WcCtx ctx_err | WcRedis redis_err | WcIssue | WcEvalIssue

record windowState =
  ws_redisKnown :: int
  ws_localDelta :: int
  ws_expireAt :: int
  ws_flushDelta :: int

type_synonym windows = "(string, windowState) gomap"

text \<open>The timer field is whether there is a timer, the wait group its counter.\<close>

record Limiter =
  lm_syncRate :: duration
  lm_windows :: windows
  lm_closed :: bool
  lm_stopping :: bool
  lm_flushTimer :: bool
  lm_flushBusy :: int
  lm_lastFlushErr :: "wc_err option"
  lm_flushFailedAt :: instant
  lm_lastRedisOK :: instant

definition startFlushLocked :: "Limiter \<Rightarrow> Limiter" where
  "startFlushLocked l =
     (if lm_flushTimer l then l else l\<lparr>lm_flushBusy := lm_flushBusy l + 1, lm_flushTimer := True\<rparr>)"

definition Limiter_New :: "'w wclient option \<Rightarrow> duration \<Rightarrow> wc_err + Limiter" where
  "Limiter_New redis syncRate =
     (if redis = None then Inl ErrRedisRequired
      else if syncRate < 0 then Inl ErrSyncRate
      else
        let rate = (if syncRate > 0 \<and> syncRate < minSyncRate then minSyncRate else syncRate);
            l = \<lparr>lm_syncRate = rate, lm_windows = [], lm_closed = False, lm_stopping = False, lm_flushTimer = False,
                 lm_flushBusy = 0, lm_lastFlushErr = None, lm_flushFailedAt = zero_time, lm_lastRedisOK = zero_time\<rparr>
        in Inr (if rate > 0 then startFlushLocked l else l))"

section \<open>Windows\<close>

definition redisWindowKey :: "string \<Rightarrow> int \<Rightarrow> string" where
  "redisWindowKey opaqueKey windowStart = opaqueKey @ '':'' @ format_int windowStart"

record slidingWindow =
  sl_currentKey :: string
  sl_previousKey :: string
  sl_weight :: float64
  sl_ttlSec :: int
  sl_expireAt :: int

definition window_weight :: "int \<Rightarrow> int \<Rightarrow> float64" where
  "window_weight elapsedSec windowSec =
     (let elapsed = wrap64 (elapsedSec * Second);
          weight = fsub (Fin 1) (fdiv (float_of_int elapsed) (fmul (float_of_int windowSec) (float_of_int Second)))
      in if fless weight (Fin 0) then Fin 0 else weight)"

definition slidingAt :: "instant \<Rightarrow> string \<Rightarrow> duration \<Rightarrow> wc_err + slidingWindow" where
  "slidingAt now key window =
     (if window < Second then Inl ErrWindowShort
      else if window smod Second \<noteq> 0 then Inl ErrWindowFraction
      else
        let windowSec = window sdiv Second;
            windowStart = wrap64 (time_unix now sdiv windowSec * windowSec);
            previousStart = wrap64 (windowStart - windowSec);
            ttlSec = wrap64 (2 * windowSec)
        in Inr \<lparr>sl_currentKey = redisWindowKey key windowStart, sl_previousKey = redisWindowKey key previousStart,
                sl_weight = window_weight (wrap64 (time_unix now - windowStart)) windowSec,
                sl_ttlSec = ttlSec, sl_expireAt = wrap64 (windowStart + ttlSec)\<rparr>)"

text \<open>The estimate and the comparison every admission ends with.\<close>

definition estimate :: "int \<Rightarrow> int \<Rightarrow> float64 \<Rightarrow> float64" where
  "estimate current previous weight = fadd (float_of_int current) (fmul (float_of_int previous) weight)"

type_synonym verdict = "bool \<times> float64 \<times> wc_err option"

definition refused :: "wc_err \<Rightarrow> verdict" where
  "refused e = (False, Fin 0, Some e)"

definition judge :: "int \<Rightarrow> int \<Rightarrow> float64 \<Rightarrow> int \<Rightarrow> wc_err option \<Rightarrow> verdict" where
  "judge current previous weight limit err =
     (let est = estimate current previous weight in (fle est (float_of_int limit), est, err))"

section \<open>Counts\<close>

definition countFromRedisGet :: "redis_err + string \<Rightarrow> wc_err + int" where
  "countFromRedisGet r =
     (case r of
        Inl e \<Rightarrow> if IsMiss e then Inr 0 else Inl (WcRedis e)
      | Inr raw \<Rightarrow> (case parse_int64 raw of None \<Rightarrow> Inl WcIssue | Some n \<Rightarrow> Inr n))"

definition getCount :: "'w wclient \<Rightarrow> string \<Rightarrow> 'w \<Rightarrow> (wc_err + int) \<times> 'w" where
  "getCount cl key w = apfst countFromRedisGet (wc_Get cl key w)"

definition takeExact :: "'w wclient \<Rightarrow> string \<Rightarrow> string \<Rightarrow> int \<Rightarrow> float64 \<Rightarrow> int \<Rightarrow> 'w \<Rightarrow> verdict \<times> 'w" where
  "takeExact cl currentKey previousKey ttlSec weight limit w =
     (case wc_Incr cl currentKey w of
        (Inl e, w1) \<Rightarrow> (refused (WcRedis e), w1)
      | (Inr current, w1) \<Rightarrow>
          (case (if current = 1 then wc_Expire cl currentKey ttlSec w1 else (Inr (), w1)) of
             (Inl e, w2) \<Rightarrow> (refused (WcRedis e), w2)
           | (Inr _, w2) \<Rightarrow>
               (case getCount cl previousKey w2 of
                  (Inl e, w3) \<Rightarrow> (refused e, w3)
                | (Inr previous, w3) \<Rightarrow> (judge current previous weight limit None, w3))))"

definition peekExact :: "'w wclient \<Rightarrow> string \<Rightarrow> string \<Rightarrow> float64 \<Rightarrow> int \<Rightarrow> 'w \<Rightarrow> verdict \<times> 'w" where
  "peekExact cl currentKey previousKey weight limit w =
     (case getCount cl currentKey w of
        (Inl e, w1) \<Rightarrow> (refused e, w1)
      | (Inr current, w1) \<Rightarrow>
          (case getCount cl previousKey w1 of
             (Inl e, w2) \<Rightarrow> (refused e, w2)
           | (Inr previous, w2) \<Rightarrow> (judge current previous weight limit None, w2)))"

section \<open>The buffer\<close>

definition later_expiry :: "int \<Rightarrow> windowState \<Rightarrow> windowState" where
  "later_expiry expireAt st = (if expireAt > ws_expireAt st then st\<lparr>ws_expireAt := expireAt\<rparr> else st)"

definition local_count :: "windowState \<Rightarrow> int" where
  "local_count st = wrap64 (ws_redisKnown st + ws_localDelta st)"

definition put_window :: "string \<Rightarrow> windowState \<Rightarrow> Limiter \<Rightarrow> Limiter" where
  "put_window key st l = l\<lparr>lm_windows := go_set key st (lm_windows l)\<rparr>"

definition applyGetLocked :: "string \<Rightarrow> int \<Rightarrow> int \<Rightarrow> Limiter \<Rightarrow> windowState \<times> Limiter" where
  "applyGetLocked key known expireAt l =
     (let st = (case go_get (lm_windows l) key of
                  None \<Rightarrow> \<lparr>ws_redisKnown = known, ws_localDelta = 0, ws_expireAt = expireAt, ws_flushDelta = 0\<rparr>
                | Some s \<Rightarrow>
                    (let s' = later_expiry expireAt s
                     in if ws_localDelta s' = 0 then s'\<lparr>ws_redisKnown := known\<rparr> else s'))
      in (st, put_window key st l))"

text \<open>A GET for a key, and the count stored: the common end of the three functions below.\<close>

definition seed_window :: "'w wclient \<Rightarrow> string \<Rightarrow> int \<Rightarrow> Limiter \<Rightarrow> 'w \<Rightarrow> (wc_err + windowState) \<times> Limiter \<times> 'w" where
  "seed_window cl key expireAt l w =
     (case getCount cl key w of
        (Inl e, w') \<Rightarrow> (Inl e, l, w')
      | (Inr known, w') \<Rightarrow>
          (case applyGetLocked key known expireAt (l\<lparr>lm_lastRedisOK := wc_now cl w'\<rparr>) of
             (st, l') \<Rightarrow> (Inr st, l', w')))"

definition peekCountLocked :: "'w wclient \<Rightarrow> string \<Rightarrow> int \<Rightarrow> Limiter \<Rightarrow> 'w \<Rightarrow> (wc_err + int) \<times> Limiter \<times> 'w" where
  "peekCountLocked cl key expireAt l w =
     (case go_get (lm_windows l) key of
        Some st \<Rightarrow> (Inr (local_count (later_expiry expireAt st)), put_window key (later_expiry expireAt st) l, w)
      | None \<Rightarrow> apfst (map_sum id local_count) (seed_window cl key expireAt l w))"

definition windowLocked :: "'w wclient \<Rightarrow> string \<Rightarrow> int \<Rightarrow> Limiter \<Rightarrow> 'w \<Rightarrow> (wc_err + windowState) \<times> Limiter \<times> 'w" where
  "windowLocked cl key expireAt l w =
     (case go_get (lm_windows l) key of
        Some st \<Rightarrow>
          (let st' = later_expiry expireAt st; l' = put_window key st' l
           in if ws_localDelta st' \<noteq> 0 then (Inr st', l', w) else seed_window cl key expireAt l' w)
      | None \<Rightarrow> seed_window cl key expireAt l w)"

definition bufferedCountLocked :: "'w wclient \<Rightarrow> string \<Rightarrow> Limiter \<Rightarrow> 'w \<Rightarrow> (wc_err + int) \<times> Limiter \<times> 'w" where
  "bufferedCountLocked cl key l w =
     (case go_get (lm_windows l) key of
        Some st \<Rightarrow> (Inr (local_count st), l, w)
      | None \<Rightarrow> apfst (map_sum id local_count) (seed_window cl key 0 l w))"

section \<open>Flushing\<close>

record pendingFlush =
  pf_redisKey :: string
  pf_delta :: int
  pf_expireAt :: int

definition due :: "windowState \<Rightarrow> bool" where
  "due st \<longleftrightarrow> ws_localDelta st > 0 \<and> ws_flushDelta st = 0"

text \<open>The snapshot: a job per window with something to flush, which marks the window.\<close>

definition snapshot_jobs :: "windows \<Rightarrow> pendingFlush list" where
  "snapshot_jobs m =
     map (\<lambda>(key, st). \<lparr>pf_redisKey = key, pf_delta = ws_localDelta st, pf_expireAt = ws_expireAt st\<rparr>)
       (filter (\<lambda>(key, st). due st) m)"

definition mark_window :: "windowState \<Rightarrow> windowState" where
  "mark_window st = (if due st then st\<lparr>ws_flushDelta := ws_localDelta st\<rparr> else st)"

definition snapshot_marks :: "windows \<Rightarrow> windows" where
  "snapshot_marks m = map (\<lambda>(key, st). (key, mark_window st)) m"

definition parseEvalInt :: "slot list \<Rightarrow> wc_err + int" where
  "parseEvalInt vs =
     (if length vs \<noteq> 1 then Inl WcIssue
      else case parse_int64 (slot_text (hd vs)) of None \<Rightarrow> Inl WcEvalIssue | Some n \<Rightarrow> Inr n)"

definition flushEvalUnlocked :: "'w wclient \<Rightarrow> pendingFlush \<Rightarrow> 'w \<Rightarrow> (slot list \<times> redis_err option) \<times> 'w" where
  "flushEvalUnlocked cl job w =
     wc_Eval cl flushScript flushScriptDigest [pf_redisKey job] [format_int (pf_delta job), format_int (pf_expireAt job)] w"

definition eval_result :: "slot list \<times> redis_err option \<Rightarrow> wc_err + int" where
  "eval_result res = (case snd res of Some e \<Rightarrow> Inl (WcRedis e) | None \<Rightarrow> parseEvalInt (fst res))"

text \<open>What the end of a job does to the limiter.\<close>

definition finish_job :: "pendingFlush \<Rightarrow> wc_err + int \<Rightarrow> instant \<Rightarrow> Limiter \<Rightarrow> Limiter" where
  "finish_job job r now l =
     (case go_get (lm_windows l) (pf_redisKey job) of
        None \<Rightarrow> l
      | Some st \<Rightarrow>
          (case r of
             Inl _ \<Rightarrow> put_window (pf_redisKey job) (st\<lparr>ws_flushDelta := 0\<rparr>) l
           | Inr n \<Rightarrow>
               (put_window (pf_redisKey job)
                  (st\<lparr>ws_redisKnown := n, ws_localDelta := wrap64 (ws_localDelta st - pf_delta job), ws_flushDelta := 0\<rparr>) l)
                 \<lparr>lm_lastRedisOK := now, lm_lastFlushErr := None\<rparr>))"

fun flush_jobs :: "'w wclient \<Rightarrow> pendingFlush list \<Rightarrow> wc_err option \<Rightarrow> Limiter \<Rightarrow> 'w \<Rightarrow> wc_err option \<times> Limiter \<times> 'w" where
  "flush_jobs cl [] firstErr l w = (firstErr, l, w)"
| "flush_jobs cl (job # jobs) firstErr l w =
     (case flushEvalUnlocked cl job w of
        (res, w') \<Rightarrow>
          (let r = eval_result res
           in flush_jobs cl jobs (case firstErr of Some e \<Rightarrow> Some e | None \<Rightarrow> (case r of Inl e \<Rightarrow> Some e | Inr _ \<Rightarrow> None))
                (finish_job job r (wc_now cl w') l) w'))"

definition expired_window :: "int \<Rightarrow> windowState \<Rightarrow> bool" where
  "expired_window nowUnix st \<longleftrightarrow>
     ws_localDelta st = 0 \<and> ws_flushDelta st = 0 \<and> (ws_expireAt st = 0 \<or> nowUnix \<ge> ws_expireAt st)"

definition sweep_windows :: "int \<Rightarrow> Limiter \<Rightarrow> Limiter" where
  "sweep_windows nowUnix l = l\<lparr>lm_windows := filter (\<lambda>(key, st). \<not> expired_window nowUnix st) (lm_windows l)\<rparr>"

definition flushPendingLocked :: "'w wclient \<Rightarrow> Limiter \<Rightarrow> 'w \<Rightarrow> wc_err option \<times> Limiter \<times> 'w" where
  "flushPendingLocked cl l w =
     (let nowUnix = time_unix (wc_now cl w)
      in case flush_jobs cl (snapshot_jobs (lm_windows l)) None (l\<lparr>lm_windows := snapshot_marks (lm_windows l)\<rparr>) w of
           (firstErr, l1, w1) \<Rightarrow>
             (let l2 = sweep_windows nowUnix l1
              in (firstErr,
                  (case firstErr of
                     Some e \<Rightarrow> l2\<lparr>lm_lastFlushErr := Some e, lm_flushFailedAt := wc_now cl w1\<rparr>
                   | None \<Rightarrow> l2), w1)))"

definition recent_contact :: "'w wclient \<Rightarrow> Limiter \<Rightarrow> 'w \<Rightarrow> bool" where
  "recent_contact cl l w \<longleftrightarrow> lm_lastRedisOK l \<noteq> zero_time \<and> time_sub (wc_now cl w) (lm_lastRedisOK l) < lm_syncRate l"

text \<open>The last part of the outage check: a GET of one buffered key, which the map's iteration order chooses.\<close>

definition probe_window :: "'w wclient \<Rightarrow> nat \<Rightarrow> Limiter \<Rightarrow> 'w \<Rightarrow> wc_err option \<times> Limiter \<times> 'w" where
  "probe_window cl c l w =
     (if lm_windows l = [] \<or> fst (lm_windows l ! (c mod length (lm_windows l))) = [] then (None, l, w)
      else case getCount cl (fst (lm_windows l ! (c mod length (lm_windows l)))) w of
        (Inl e, w') \<Rightarrow> (Some e, l\<lparr>lm_lastFlushErr := Some e, lm_flushFailedAt := wc_now cl w'\<rparr>, w')
      | (Inr _, w') \<Rightarrow> (None, l\<lparr>lm_lastRedisOK := wc_now cl w'\<rparr>, w'))"

definition bufferedOutageErrorLocked :: "'w wclient \<Rightarrow> nat \<Rightarrow> Limiter \<Rightarrow> 'w \<Rightarrow> wc_err option \<times> Limiter \<times> 'w" where
  "bufferedOutageErrorLocked cl c l w =
     (case lm_lastFlushErr l of
        Some e \<Rightarrow> (Some e, l, w)
      | None \<Rightarrow>
          if recent_contact cl l w then (None, l, w)
          else (case flushPendingLocked cl l w of
            (Some e, l1, w1) \<Rightarrow> (Some e, l1, w1)
          | (None, l1, w1) \<Rightarrow>
              (case lm_lastFlushErr l1 of
                 Some e \<Rightarrow> (Some e, l1, w1)
               | None \<Rightarrow> if recent_contact cl l1 w1 then (None, l1, w1) else probe_window cl c l1 w1)))"

section \<open>Take, Peek and the rest\<close>

definition bump_window :: "string \<Rightarrow> windowState \<Rightarrow> Limiter \<Rightarrow> Limiter" where
  "bump_window key st l = put_window key (st\<lparr>ws_localDelta := wrap64 (ws_localDelta st + 1)\<rparr>) l"

definition takeBuffered :: "'w wclient \<Rightarrow> nat \<Rightarrow> string \<Rightarrow> string \<Rightarrow> int \<Rightarrow> float64 \<Rightarrow> int \<Rightarrow> Limiter \<Rightarrow> 'w \<Rightarrow> verdict \<times> Limiter \<times> 'w" where
  "takeBuffered cl c currentKey previousKey expireAt weight limit l w =
     (case windowLocked cl currentKey expireAt l w of
        (Inl e, l1, w1) \<Rightarrow> (refused e, l1, w1)
      | (Inr st, l1, w1) \<Rightarrow>
          (case bufferedCountLocked cl previousKey l1 w1 of
             (Inl e, l2, w2) \<Rightarrow> (refused e, l2, w2)
           | (Inr previous, l2, w2) \<Rightarrow>
               (let l3 = bump_window currentKey st l2;
                    current = wrap64 (ws_redisKnown st + wrap64 (ws_localDelta st + 1))
                in case bufferedOutageErrorLocked cl c l3 w2 of
                     (err, l4, w4) \<Rightarrow> (judge current previous weight limit err, l4, w4))))"

definition peekBuffered :: "'w wclient \<Rightarrow> nat \<Rightarrow> string \<Rightarrow> string \<Rightarrow> int \<Rightarrow> float64 \<Rightarrow> int \<Rightarrow> Limiter \<Rightarrow> 'w \<Rightarrow> verdict \<times> Limiter \<times> 'w" where
  "peekBuffered cl c currentKey previousKey expireAt weight limit l w =
     (case peekCountLocked cl currentKey expireAt l w of
        (Inl e, l1, w1) \<Rightarrow> (refused e, l1, w1)
      | (Inr current, l1, w1) \<Rightarrow>
          (case bufferedCountLocked cl previousKey l1 w1 of
             (Inl e, l2, w2) \<Rightarrow> (refused e, l2, w2)
           | (Inr previous, l2, w2) \<Rightarrow>
               (case bufferedOutageErrorLocked cl c l2 w2 of
                  (err, l3, w3) \<Rightarrow> (judge current previous weight limit err, l3, w3))))"

definition Take :: "'w wclient \<Rightarrow> ctx_err option \<Rightarrow> nat \<Rightarrow> string \<Rightarrow> int \<Rightarrow> duration \<Rightarrow> Limiter \<Rightarrow> 'w \<Rightarrow> verdict \<times> Limiter \<times> 'w" where
  "Take cl ctx c key limit window l w =
     (case ctx of
        Some e \<Rightarrow> (refused (WcCtx e), l, w)
      | None \<Rightarrow>
          (case slidingAt (wc_now cl w) key window of
             Inl e \<Rightarrow> (refused e, l, w)
           | Inr s \<Rightarrow>
               if lm_syncRate l = 0 then
                 (case takeExact cl (sl_currentKey s) (sl_previousKey s) (sl_ttlSec s) (sl_weight s) limit w of (v, w') \<Rightarrow> (v, l, w'))
               else takeBuffered cl c (sl_currentKey s) (sl_previousKey s) (sl_expireAt s) (sl_weight s) limit l w))"

definition Peek :: "'w wclient \<Rightarrow> ctx_err option \<Rightarrow> nat \<Rightarrow> string \<Rightarrow> int \<Rightarrow> duration \<Rightarrow> Limiter \<Rightarrow> 'w \<Rightarrow> verdict \<times> Limiter \<times> 'w" where
  "Peek cl ctx c key limit window l w =
     (case ctx of
        Some e \<Rightarrow> (refused (WcCtx e), l, w)
      | None \<Rightarrow>
          (case slidingAt (wc_now cl w) key window of
             Inl e \<Rightarrow> (refused e, l, w)
           | Inr s \<Rightarrow>
               if lm_syncRate l = 0 then
                 (case peekExact cl (sl_currentKey s) (sl_previousKey s) (sl_weight s) limit w of (v, w') \<Rightarrow> (v, l, w'))
               else peekBuffered cl c (sl_currentKey s) (sl_previousKey s) (sl_expireAt s) (sl_weight s) limit l w))"

definition Limiter_Allow :: "'w wclient \<Rightarrow> ctx_err option \<Rightarrow> nat \<Rightarrow> string \<Rightarrow> int \<Rightarrow> duration \<Rightarrow> Limiter \<Rightarrow> 'w \<Rightarrow> verdict \<times> Limiter \<times> 'w" where
  "Limiter_Allow cl ctx c key limit window l w = Take cl ctx c key limit window l w"

section \<open>The windows\<close>

text \<open>The weight as a rational, for a window whose length in nanoseconds is a 64-bit number.\<close>

definition weight_at :: "int \<Rightarrow> int \<Rightarrow> rat" where
  "weight_at e n = round53 (1 - round53 (round53 (of_int (e * Second)) / round53 (of_int (n * Second))))"

lemma rep53_01: "rep53 0" "rep53 1"
  using rep53_int [of 0] rep53_int [of 1] by simp_all

lemma round53_in_unit: "0 \<le> q \<Longrightarrow> q \<le> 1 \<Longrightarrow> 0 \<le> round53 q \<and> round53 q \<le> 1"
  by (simp add: round53_ge round53_le rep53_01)

lemma round64_in_unit: "0 \<le> q \<Longrightarrow> q \<le> 1 \<Longrightarrow> round64 q = Fin (round53 q)"
  by (rule round64_small) (simp add: abs_le_iff)

lemma weight_parts:
  assumes "0 \<le> e" and "e \<le> n" and "0 < n"
  shows "0 \<le> round53 (of_int (e * Second))" and "round53 (of_int (e * Second)) \<le> round53 (of_int (n * Second))"
    and "1 \<le> round53 (of_int (n * Second))"
proof -
  show "0 \<le> round53 (of_int (e * Second))" using assms by (simp add: round53_nonneg Second_def)
  show "round53 (of_int (e * Second)) \<le> round53 (of_int (n * Second))" using assms by (simp add: round53_mono Second_def)
  have "(1 :: rat) \<le> of_int (n * Second)" using assms by (simp only: of_int_1_le_iff) (simp add: Second_def)
  then show "1 \<le> round53 (of_int (n * Second))" by (rule round53_ge) (rule rep53_01)
qed

lemma weight_quotient:
  assumes "0 \<le> e" and "e \<le> n" and "0 < n"
  shows "0 \<le> round53 (of_int (e * Second)) / round53 (of_int (n * Second))"
    and "round53 (of_int (e * Second)) / round53 (of_int (n * Second)) \<le> 1"
  using weight_parts [OF assms] by (simp_all add: divide_le_eq)

lemma weight_at_unit: "0 \<le> e \<Longrightarrow> e \<le> n \<Longrightarrow> 0 < n \<Longrightarrow> 0 \<le> weight_at e n \<and> weight_at e n \<le> 1"
  unfolding weight_at_def using weight_quotient [of e n] round53_in_unit [of "round53 (of_int (e * Second)) / round53 (of_int (n * Second))"]
  by (intro round53_in_unit) simp_all

lemma weight_at_antimono: "0 \<le> e \<Longrightarrow> e \<le> e' \<Longrightarrow> e' \<le> n \<Longrightarrow> 0 < n \<Longrightarrow> weight_at e' n \<le> weight_at e n"
proof -
  assume e: "0 \<le> e" "e \<le> e'" "e' \<le> n" "0 < n"
  have "round53 (of_int (e * Second)) \<le> round53 (of_int (e' * Second))" using e(2) by (simp add: round53_mono Second_def)
  then have "round53 (of_int (e * Second)) / round53 (of_int (n * Second)) \<le> round53 (of_int (e' * Second)) / round53 (of_int (n * Second))"
    using weight_parts(3) [of e n] e by (intro divide_right_mono) simp_all
  then show ?thesis unfolding weight_at_def by (simp add: round53_mono)
qed

lemma weight_at_start: "weight_at 0 n = 1"
  by (simp add: weight_at_def round53_exact rep53_01)

lemma window_weight_eq:
  assumes "0 \<le> e" and "e \<le> n" and "0 < n" and "is_int64 (n * Second)"
  shows "window_weight e n = Fin (weight_at e n)"
proof -
  have "0 \<le> e * Second" "e * Second \<le> n * Second" using assms by (simp_all add: Second_def)
  then have e64: "is_int64 (e * Second)" using assms(4) is_int64_mono [of 0 "n * Second" "e * Second"] by simp
  have n53: "\<bar>n\<bar> \<le> 2 ^ 53" and n64: "\<bar>n * Second\<bar> \<le> 2 ^ 64" using assms by (simp_all add: is_int64_def Second_def)
  have "(of_int \<bar>n * Second\<bar> :: rat) \<le> of_int (2 ^ 64)" using n64 by (simp only: of_int_le_iff)
  then have prod: "fmul (float_of_int n) (float_of_int Second) = Fin (round53 (of_int (n * Second)))"
    using n53 by (simp add: float_of_int_exact Second_def round64_small)
  let ?q = "round53 (of_int (e * Second)) / round53 (of_int (n * Second))"
  have nz: "round53 (of_int (n * Second)) \<noteq> 0" using weight_parts(3) [OF assms(1-3)] by linarith
  have q: "0 \<le> round53 ?q" "round53 ?q \<le> 1" using round53_in_unit [OF weight_quotient [OF assms(1-3)]] by blast+
  have "fdiv (float_of_int (e * Second)) (fmul (float_of_int n) (float_of_int Second)) = Fin (round53 ?q)"
    unfolding prod float_of_int_int64 [OF e64] fdiv.simps using nz round64_in_unit [OF weight_quotient [OF assms(1-3)]] by simp
  moreover have "fsub (Fin 1) (Fin (round53 ?q)) = Fin (weight_at e n)"
    using q round64_in_unit [of "1 - round53 ?q"] by (simp add: fsub_def weight_at_def)
  ultimately show ?thesis using weight_at_unit [OF assms(1-3)] e64 by (simp add: window_weight_def Let_def not_less)
qed

definition window_seconds :: "duration \<Rightarrow> int" where
  "window_seconds window = window div Second"

definition window_start :: "instant \<Rightarrow> duration \<Rightarrow> int" where
  "window_start now window = time_unix now div window_seconds window * window_seconds window"

definition usable_window :: "duration \<Rightarrow> bool" where
  "usable_window window \<longleftrightarrow> Second \<le> window \<and> window mod Second = 0 \<and> is_int64 window"

definition sane_clock :: "instant \<Rightarrow> bool" where
  "sane_clock now \<longleftrightarrow> 0 \<le> now \<and> time_unix now < 2 ^ 62"

lemma sane_clock_unix: "sane_clock now \<Longrightarrow> 0 \<le> time_unix now \<and> time_unix now < 2 ^ 62"
  by (simp add: sane_clock_def time_unix_def Second_def pos_imp_zdiv_nonneg_iff)

lemma window_seconds_props:
  assumes "usable_window window"
  shows "0 < window_seconds window" and "window_seconds window * Second = window" and "window_seconds window < 2 ^ 34"
proof -
  show "window_seconds window * Second = window" using assms by (simp add: usable_window_def window_seconds_def mult.commute mod_eq_0_iff_dvd)
  then show "0 < window_seconds window" "window_seconds window < 2 ^ 34"
    using assms by (simp_all add: usable_window_def is_int64_def Second_def)
qed

lemma window_start_props:
  assumes "usable_window window" and "sane_clock now"
  shows "0 \<le> window_start now window" and "window_start now window \<le> time_unix now"
    and "time_unix now < window_start now window + window_seconds window"
proof -
  have t: "0 \<le> time_unix now" using sane_clock_unix [OF assms(2)] by simp
  note n = window_seconds_props [OF assms(1)]
  show "0 \<le> window_start now window" using t n(1) by (simp add: window_start_def pos_imp_zdiv_nonneg_iff)
  have "time_unix now = window_start now window + time_unix now mod window_seconds window" by (simp add: window_start_def)
  then show "window_start now window \<le> time_unix now" "time_unix now < window_start now window + window_seconds window"
    using n(1) pos_mod_bound [OF n(1), of "time_unix now"] pos_mod_sign [OF n(1), of "time_unix now"] by linarith+
qed

lemma slidingAt_eq:
  assumes "usable_window window" and "sane_clock now"
  shows "slidingAt now key window =
    Inr \<lparr>sl_currentKey = redisWindowKey key (window_start now window),
         sl_previousKey = redisWindowKey key (window_start now window - window_seconds window),
         sl_weight = Fin (weight_at (time_unix now - window_start now window) (window_seconds window)),
         sl_ttlSec = 2 * window_seconds window, sl_expireAt = window_start now window + 2 * window_seconds window\<rparr>"
proof -
  let ?n = "window_seconds window" and ?s = "window_start now window"
  note n = window_seconds_props [OF assms(1)] and s = window_start_props [OF assms]
  have t: "0 \<le> time_unix now" "time_unix now < 2 ^ 62" using sane_clock_unix [OF assms(2)] by simp_all
  have w: "Second \<le> window" "window mod Second = 0" "is_int64 window" using assms(1) by (simp_all add: usable_window_def)
  have "is_int64 ?s" "is_int64 (?s - ?n)" "is_int64 (2 * ?n)" "is_int64 (?s + 2 * ?n)" "is_int64 (time_unix now - ?s)"
    using n s t by (simp_all add: is_int64_def)
  moreover have "window_weight (time_unix now - ?s) ?n = Fin (weight_at (time_unix now - ?s) ?n)"
    using n s w by (intro window_weight_eq) simp_all
  moreover have "window sdiv Second = ?n" "window smod Second = 0" using w by (simp_all add: window_seconds_def Second_def)
  moreover have "time_unix now sdiv ?n * ?n = ?s" using t n(1) by (simp add: window_start_def)
  ultimately show ?thesis using w by (simp add: slidingAt_def Let_def)
qed

lemma redisWindowKey_inj: "redisWindowKey key a = redisWindowKey key b \<longleftrightarrow> a = b"
  by (simp add: redisWindowKey_def format_int_inj)

text \<open>
  The windows of a key tile time. For a window of whole seconds and a clock after the epoch, the current window
  contains the instant, the previous one ends where it starts, and the two have different keys. The
  weight of the previous window is a number between 0 and 1, 1 in the first second and never growing
  within a window. The entry outlives the window by a full window. At an instant one window later the previous key is
  the key that was current. Any other window length is refused.
\<close>

theorem windows_tile:
  assumes "usable_window window" and "sane_clock now"
  shows "(\<exists>s start r. slidingAt now key window = Inr s
      \<and> sl_currentKey s = redisWindowKey key start \<and> start \<le> time_unix now \<and> time_unix now < start + window_seconds window
      \<and> sl_previousKey s = redisWindowKey key (start - window_seconds window) \<and> sl_previousKey s \<noteq> sl_currentKey s
      \<and> sl_weight s = Fin r \<and> 0 \<le> r \<and> r \<le> 1 \<and> (time_unix now = start \<longrightarrow> r = 1)
      \<and> sl_expireAt s > time_unix now + window_seconds window
      \<and> (\<forall>later s'. now \<le> later \<longrightarrow> sane_clock later \<longrightarrow> slidingAt later key window = Inr s' \<longrightarrow>
           (sl_currentKey s' = sl_currentKey s \<longrightarrow> fle (sl_weight s') (sl_weight s))
         \<and> (time_unix later = time_unix now + window_seconds window \<longrightarrow> sl_previousKey s' = sl_currentKey s)))
    \<and> (\<forall>other. other < Second \<or> other smod Second \<noteq> 0 \<longrightarrow> slidingAt now key other \<in> {Inl ErrWindowShort, Inl ErrWindowFraction})"
proof (rule conjI)
  let ?n = "window_seconds window" and ?s = "window_start now window"
  note n = window_seconds_props [OF assms(1)] and s = window_start_props [OF assms]
  have w: "0 \<le> weight_at (time_unix now - ?s) ?n \<and> weight_at (time_unix now - ?s) ?n \<le> 1" using n s by (intro weight_at_unit) simp_all
  have mono: "weight_at (time_unix later - ?s) ?n \<le> weight_at (time_unix now - ?s) ?n"
    if "now \<le> later" "sane_clock later" "window_start later window = ?s" for later
    using n s time_unix_mono [OF that(1)] window_start_props(3) [OF assms(1) that(2)] that(3) by (intro weight_at_antimono) simp_all
  have shift: "window_start later window - ?n = ?s" if "time_unix later = time_unix now + ?n" for later
    using n(1) that by (simp add: window_start_def algebra_simps)
  show "\<exists>s start r. slidingAt now key window = Inr s
      \<and> sl_currentKey s = redisWindowKey key start \<and> start \<le> time_unix now \<and> time_unix now < start + ?n
      \<and> sl_previousKey s = redisWindowKey key (start - ?n) \<and> sl_previousKey s \<noteq> sl_currentKey s
      \<and> sl_weight s = Fin r \<and> 0 \<le> r \<and> r \<le> 1 \<and> (time_unix now = start \<longrightarrow> r = 1)
      \<and> sl_expireAt s > time_unix now + ?n
      \<and> (\<forall>later s'. now \<le> later \<longrightarrow> sane_clock later \<longrightarrow> slidingAt later key window = Inr s' \<longrightarrow>
           (sl_currentKey s' = sl_currentKey s \<longrightarrow> fle (sl_weight s') (sl_weight s))
         \<and> (time_unix later = time_unix now + ?n \<longrightarrow> sl_previousKey s' = sl_currentKey s))"
    unfolding slidingAt_eq [OF assms] using n s w mono shift
    by (intro exI [of _ ?s] exI [of _ "weight_at (time_unix now - ?s) ?n"] exI conjI allI impI; (rule refl)?)
      (auto simp: redisWindowKey_inj weight_at_start slidingAt_eq [OF assms(1)])
qed (simp add: slidingAt_def)

theorem windows_tile_witness:
  "usable_window (60 * Second) \<and> sane_clock (100 * Second)
     \<and> (\<exists>s. slidingAt (100 * Second) ''k'' (60 * Second) = Inr s \<and> sl_currentKey s = redisWindowKey ''k'' 60 \<and> sl_previousKey s = redisWindowKey ''k'' 0)"
proof -
  have u: "usable_window (60 * Second)" "sane_clock (100 * Second)" by code_simp+
  obtain s start r where s: "slidingAt (100 * Second) ''k'' (60 * Second) = Inr s" "sl_currentKey s = redisWindowKey ''k'' start"
      "start \<le> time_unix (100 * Second)" "sl_previousKey s = redisWindowKey ''k'' (start - window_seconds (60 * Second))"
    using windows_tile [OF u, of "''k''"] by blast
  have "slidingAt (100 * Second) ''k'' (60 * Second) = Inr s \<longrightarrow> sl_currentKey s = redisWindowKey ''k'' 60 \<and> sl_previousKey s = redisWindowKey ''k'' 0"
    unfolding slidingAt_eq [OF u] by (auto simp: window_start_def window_seconds_def time_unix_def Second_def)
  then show ?thesis using s u by blast
qed

section \<open>A Redis that counts\<close>

text \<open>
  What the limiter relies on: a server with a number per key. GET reads it and a key that is not there counts as 0;
  INCR and the flush script add to it and answer the new value, which is a 64-bit number; EXPIRE leaves
  it alone; and a call that fails has added nothing.
\<close>

definition counting_redis :: "'w wclient \<Rightarrow> ('w \<Rightarrow> string \<Rightarrow> int) \<Rightarrow> bool" where
  "counting_redis cl srv \<longleftrightarrow>
     (\<forall>k w. case wc_Get cl k w of (r, w') \<Rightarrow> srv w' = srv w \<and>
        (case r of Inl e \<Rightarrow> IsMiss e \<longrightarrow> srv w k = 0 | Inr raw \<Rightarrow> raw = format_int (srv w k) \<and> is_int64 (srv w k))) \<and>
     (\<forall>k w. case wc_Incr cl k w of (r, w') \<Rightarrow>
        (case r of Inl e \<Rightarrow> srv w' = srv w | Inr n \<Rightarrow> n = srv w k + 1 \<and> is_int64 n \<and> srv w' = (srv w)(k := n))) \<and>
     (\<forall>k t w. srv (snd (wc_Expire cl k t w)) = srv w) \<and>
     (\<forall>k d x w. case wc_Eval cl flushScript flushScriptDigest [k] [format_int d, format_int x] w of ((vs, e), w') \<Rightarrow>
        (case e of
           Some _ \<Rightarrow> srv w' = srv w
         | None \<Rightarrow> is_int64 (srv w k + d) \<and> vs = [Some (format_int (srv w k + d))] \<and> srv w' = (srv w)(k := srv w k + d)))"

lemmas countingD =
  iffD1 [OF counting_redis_def, THEN conjunct1]
  iffD1 [OF counting_redis_def, THEN conjunct2, THEN conjunct1]
  iffD1 [OF counting_redis_def, THEN conjunct2, THEN conjunct2, THEN conjunct1]
  iffD1 [OF counting_redis_def, THEN conjunct2, THEN conjunct2, THEN conjunct2]

lemma counting_Get:
  assumes "counting_redis cl srv" and "getCount cl k w = (r, w')"
  shows "srv w' = srv w" and "r = Inr n \<Longrightarrow> n = srv w k \<and> is_int64 n"
proof -
  obtain g where g: "wc_Get cl k w = (g, w')" "r = countFromRedisGet g" using assms(2) by (cases "wc_Get cl k w") (auto simp: getCount_def)
  have c: "srv w' = srv w \<and> (case g of Inl e \<Rightarrow> IsMiss e \<longrightarrow> srv w k = 0 | Inr raw \<Rightarrow> raw = format_int (srv w k) \<and> is_int64 (srv w k))"
    using countingD(1) [OF assms(1), THEN spec [of _ k], THEN spec [of _ w]] g(1) by simp
  then show "srv w' = srv w" by simp
  show "r = Inr n \<Longrightarrow> n = srv w k \<and> is_int64 n"
    using c g(2) by (auto simp: countFromRedisGet_def parse_int64_format_int split: sum.splits if_splits option.splits)
qed

lemma counting_Incr:
  assumes "counting_redis cl srv" and "wc_Incr cl k w = (r, w')"
  shows "r = Inl e \<Longrightarrow> srv w' = srv w" and "r = Inr n \<Longrightarrow> n = srv w k + 1 \<and> is_int64 n \<and> srv w' = (srv w)(k := n)"
proof -
  have "case r of Inl e \<Rightarrow> srv w' = srv w | Inr n \<Rightarrow> n = srv w k + 1 \<and> is_int64 n \<and> srv w' = (srv w)(k := n)"
    using countingD(2) [OF assms(1), THEN spec [of _ k], THEN spec [of _ w]] assms(2) by simp
  then show "r = Inl e \<Longrightarrow> srv w' = srv w" "r = Inr n \<Longrightarrow> n = srv w k + 1 \<and> is_int64 n \<and> srv w' = (srv w)(k := n)" by auto
qed

lemma counting_Expire: "counting_redis cl srv \<Longrightarrow> wc_Expire cl k t w = (r, w') \<Longrightarrow> srv w' = srv w"
  using countingD(3) [of cl srv, THEN spec [of _ k], THEN spec [of _ t], THEN spec [of _ w]] by simp

lemma counting_Eval:
  assumes "counting_redis cl srv" and "flushEvalUnlocked cl job w = (res, w')"
  shows "eval_result res = Inl e \<Longrightarrow> srv w' = srv w"
    and "eval_result res = Inr n \<Longrightarrow> n = srv w (pf_redisKey job) + pf_delta job \<and> is_int64 n \<and> srv w' = (srv w)(pf_redisKey job := n)"
proof -
  obtain vs er where res: "res = (vs, er)" by (cases res)
  have "case er of Some _ \<Rightarrow> srv w' = srv w
    | None \<Rightarrow> is_int64 (srv w (pf_redisKey job) + pf_delta job) \<and> vs = [Some (format_int (srv w (pf_redisKey job) + pf_delta job))]
        \<and> srv w' = (srv w)(pf_redisKey job := srv w (pf_redisKey job) + pf_delta job)"
    using countingD(4) [OF assms(1), THEN spec [of _ "pf_redisKey job"], THEN spec [of _ "pf_delta job"], THEN spec [of _ "pf_expireAt job"], THEN spec [of _ w]] assms(2) res by (simp add: flushEvalUnlocked_def)
  then show "eval_result res = Inl e \<Longrightarrow> srv w' = srv w"
    and "eval_result res = Inr n \<Longrightarrow> n = srv w (pf_redisKey job) + pf_delta job \<and> is_int64 n \<and> srv w' = (srv w)(pf_redisKey job := n)"
    using res by (auto simp: eval_result_def parseEvalInt_def slot_text_def parse_int64_format_int split: option.splits)
qed

section \<open>Exact mode\<close>

lemma estimate_no_previous: "0 \<le> c \<Longrightarrow> c \<le> 2 ^ 53 \<Longrightarrow> estimate c 0 (Fin r) = Fin (of_int c)"
  using float_of_int_exact [of c] float_of_int_exact [of 0] round64_of_int [of 0] round64_of_int [of c] by (simp add: estimate_def)

lemma judge_no_previous:
  assumes "0 \<le> c" and "c \<le> 2 ^ 53" and "0 \<le> limit" and "limit \<le> 2 ^ 53"
  shows "judge c 0 (Fin r) limit e = (c \<le> limit, Fin (of_int c), e)"
  using assms float_of_int_exact [of limit] by (simp add: judge_def estimate_no_previous)

lemma takeExact_counts:
  assumes "counting_redis cl srv" and "takeExact cl cur prev ttl weight limit w = ((ok, est, err), w')" and "prev \<noteq> cur"
  shows "err = None \<and> srv w' = (srv w)(cur := srv w cur + 1) \<and> (ok, est, err) = judge (srv w cur + 1) (srv w prev) weight limit None
    \<or> (\<exists>e. (ok, est, err) = refused e) \<and> srv w' \<in> {srv w, (srv w)(cur := srv w cur + 1)}"
proof -
  obtain r w1 where r: "wc_Incr cl cur w = (r, w1)" by (cases "wc_Incr cl cur w")
  show ?thesis
  proof (cases r)
    case (Inl e)
    then show ?thesis using assms(2) r counting_Incr(1) [OF assms(1) r] by (auto simp: takeExact_def refused_def)
  next
    case (Inr n)
    obtain x w2 where x: "(if n = 1 then wc_Expire cl cur ttl w1 else (Inr (), w1)) = (x, w2)" by fastforce
    obtain g w3 where g: "getCount cl prev w2 = (g, w3)" by (cases "getCount cl prev w2")
    have n: "n = srv w cur + 1" and w1: "srv w1 = (srv w)(cur := n)" using counting_Incr(2) [OF assms(1) r Inr] by simp_all
    have w2: "srv w2 = srv w1" using x counting_Expire [OF assms(1)] by (auto split: if_splits)
    show ?thesis
    proof (cases x)
      case (Inl e)
      then show ?thesis using assms(2) r Inr x n w1 w2 by (auto simp: takeExact_def refused_def)
    next
      case x2: (Inr u)
      then show ?thesis using assms(2,3) r Inr x g n w1 w2 counting_Get [OF assms(1) g]
        by (cases g) (auto simp: takeExact_def judge_def Let_def refused_def)
    qed
  qed
qed

text \<open>A number of \<open>Take\<close> calls on one key.\<close>

fun take_run :: "'w wclient \<Rightarrow> string \<Rightarrow> int \<Rightarrow> duration \<Rightarrow> nat \<Rightarrow> Limiter \<Rightarrow> 'w \<Rightarrow> verdict list \<times> Limiter \<times> 'w" where
  "take_run cl key limit window 0 l w = ([], l, w)"
| "take_run cl key limit window (Suc n) l w =
     (case Take cl None 0 key limit window l w of
        (v, l1, w1) \<Rightarrow> (case take_run cl key limit window n l1 w1 of (vs, l2, w2) \<Rightarrow> (v # vs, l2, w2)))"

lemma Take_exact_step:
  assumes redis: "counting_redis cl srv" and mode: "lm_syncRate l = 0" and win: "usable_window window"
    and clock: "sane_clock (wc_now cl w) \<and> window_start (wc_now cl w) window = start"
    and empty: "srv w (redisWindowKey key (start - window_seconds window)) = 0"
    and c: "srv w (redisWindowKey key start) = c" "0 \<le> c" "c < 2 ^ 53" and limit: "0 \<le> limit" "limit \<le> 2 ^ 53"
    and call: "Take cl None 0 key limit window l w = ((ok, est, err), l', w')"
  shows "l' = l \<and> srv w' (redisWindowKey key (start - window_seconds window)) = 0
    \<and> (err = None \<and> srv w' (redisWindowKey key start) = c + 1 \<and> ok = (c + 1 \<le> limit)
       \<or> err \<noteq> None \<and> \<not> ok \<and> srv w' (redisWindowKey key start) \<in> {c, c + 1})"
proof -
  let ?cur = "redisWindowKey key start" and ?prev = "redisWindowKey key (start - window_seconds window)"
  obtain r where call': "takeExact cl ?cur ?prev (2 * window_seconds window) (Fin r) limit w = ((ok, est, err), w')" and l: "l' = l"
    using call mode clock slidingAt_eq [OF win, of "wc_now cl w" key] by (auto simp: Take_def split: prod.splits)
  have ne: "?prev \<noteq> ?cur" using window_seconds_props(1) [OF win] by (simp add: redisWindowKey_inj)
  show ?thesis
    using takeExact_counts [OF redis call' ne] judge_no_previous [of "c + 1" limit r None] c limit empty ne l
    by (auto simp: refused_def)
qed

lemma take_run_exact:
  assumes redis: "counting_redis cl srv" and mode: "lm_syncRate l = 0" and win: "usable_window window"
    and clock: "\<forall>w. sane_clock (wc_now cl w) \<and> window_start (wc_now cl w) window = start" and limit: "0 \<le> limit" "limit \<le> 2 ^ 53"
  shows "srv w (redisWindowKey key (start - window_seconds window)) = 0 \<Longrightarrow> srv w (redisWindowKey key start) = c \<Longrightarrow>
     0 \<le> c \<Longrightarrow> c + int n \<le> 2 ^ 53 \<Longrightarrow> take_run cl key limit window n l w = (vs, l', w') \<Longrightarrow>
     int (length (filter fst vs)) \<le> max 0 (limit - c) \<and> length vs = n \<and> (\<forall>v \<in> set vs. snd (snd v) \<noteq> None \<longrightarrow> \<not> fst v)
     \<and> ((\<forall>v \<in> set vs. snd (snd v) = None) \<longrightarrow>
          (\<forall>i < n. fst (vs ! i) = (c + int i < limit)) \<and> srv w' (redisWindowKey key start) = c + int n)"
proof (induction n arbitrary: c w vs l' w')
  case (Suc n)
  obtain ok est err l1 w1 where call: "Take cl None 0 key limit window l w = ((ok, est, err), l1, w1)"
    by (metis prod_cases3)
  obtain vs1 where rest: "take_run cl key limit window n l1 w1 = (vs1, l', w')" "vs = (ok, est, err) # vs1"
    using Suc.prems(5) call by (auto split: prod.splits)
  have step: "l1 = l \<and> srv w1 (redisWindowKey key (start - window_seconds window)) = 0
    \<and> (err = None \<and> srv w1 (redisWindowKey key start) = c + 1 \<and> ok = (c + 1 \<le> limit)
       \<or> err \<noteq> None \<and> \<not> ok \<and> srv w1 (redisWindowKey key start) \<in> {c, c + 1})"
    by (rule Take_exact_step [OF redis mode win clock [rule_format] Suc.prems(1,2) Suc.prems(3) _ limit call]) (use Suc.prems(4) in simp)
  let ?c = "srv w1 (redisWindowKey key start)"
  have c': "?c = c \<or> ?c = c + 1" using step by auto
  have IH: "int (length (filter fst vs1)) \<le> max 0 (limit - ?c) \<and> length vs1 = n \<and> (\<forall>v \<in> set vs1. snd (snd v) \<noteq> None \<longrightarrow> \<not> fst v)
     \<and> ((\<forall>v \<in> set vs1. snd (snd v) = None) \<longrightarrow>
          (\<forall>i < n. fst (vs1 ! i) = (?c + int i < limit)) \<and> srv w' (redisWindowKey key start) = ?c + int n)"
    by (rule Suc.IH) (use step c' rest(1) Suc.prems(3,4) in auto)
  have idx: "(\<forall>i < Suc n. fst ((v # vs1) ! i) = (c + int i < limit)) \<longleftrightarrow> fst v = (c < limit) \<and> (\<forall>i < n. fst (vs1 ! i) = (c + 1 + int i < limit))" for v
    by (auto simp: less_Suc_eq_0_disj)
  from step consider "err = None" "?c = c + 1" "ok = (c + 1 \<le> limit)" | "err \<noteq> None" "\<not> ok" by blast
  then show ?case
  proof cases
    case 1
    then show ?thesis using IH unfolding rest(2) idx by auto
  next
    case 2
    then show ?thesis using IH c' unfolding rest(2) by auto
  qed
qed simp


section \<open>A server in memory\<close>

text \<open>A counting Redis for concrete runs: the state is the numbers, the clock stands still.\<close>

definition memory_redis :: "instant \<Rightarrow> (string \<Rightarrow> int) wclient" where
  "memory_redis t =
     \<lparr>wc_Get = (\<lambda>k w. (if w k = 0 then Inl ErrMiss else if is_int64 (w k) then Inr (format_int (w k)) else Inl ErrIssue, w)),
      wc_Incr = (\<lambda>k w. if is_int64 (w k + 1) then (Inr (w k + 1), w(k := w k + 1)) else (Inl ErrIssue, w)),
      wc_Expire = (\<lambda>k ttl w. (Inr (), w)),
      wc_Eval = (\<lambda>script digest ks args w.
        case parse_int64 (hd args) of
          None \<Rightarrow> (([], Some ErrIssue), w)
        | Some d \<Rightarrow>
            if is_int64 (w (hd ks) + d) then (([Some (format_int (w (hd ks) + d))], None), w(hd ks := w (hd ks) + d))
            else (([], Some ErrIssue), w)),
      wc_now = (\<lambda>w. t)\<rparr>"

lemma parse_format_int: "parse_int64 (format_int d) = (if is_int64 d then Some d else None)"
proof (cases "is_int64 d")
  case False
  then show ?thesis
  proof (cases "d < 0")
    case True
    with False show ?thesis by (simp add: format_int_def parse_int64_def Let_def)
  next
    case pos: False
    obtain c cs where c: "format_nat (nat d) = c # cs" by (cases "format_nat (nat d)") auto
    then have "parse_digits (c # cs) = Some (nat d)" using parse_digits_format_nat [of "nat d"] by simp
    then show ?thesis using False pos c is_digit_no_sign [OF format_nat_Cons [OF c]] by (simp add: format_int_def parse_int64_def Let_def)
  qed
qed (simp add: parse_int64_format_int)

lemma memory_redis_counts: "counting_redis (memory_redis t) (\<lambda>w. w)"
  unfolding counting_redis_def memory_redis_def by (auto simp: parse_format_int IsMiss_def fun_upd_def)

definition exact_limiter :: Limiter where
  "exact_limiter = \<lparr>lm_syncRate = 0, lm_windows = [], lm_closed = False, lm_stopping = False, lm_flushTimer = False,
     lm_flushBusy = 0, lm_lastFlushErr = None, lm_flushFailedAt = zero_time, lm_lastRedisOK = zero_time\<rparr>"

lemma exact_limiter_New: "Limiter_New (Some cl) 0 = Inr exact_limiter"
  by (simp add: Limiter_New_def exact_limiter_def)


section \<open>The buffer and the server together\<close>

text \<open>
  The hits of a key are those the server has and those still in the buffer. Between calls of the only writer the server's
  counts are not negative, and a buffered window knows the server's count, has a delta that is not negative, and no flush
  under way.
\<close>

definition buffered_hits :: "windows \<Rightarrow> string \<Rightarrow> int" where
  "buffered_hits m k = (case go_get m k of None \<Rightarrow> 0 | Some st \<Rightarrow> ws_localDelta st)"

definition total_hits :: "('w \<Rightarrow> string \<Rightarrow> int) \<Rightarrow> Limiter \<Rightarrow> 'w \<Rightarrow> string \<Rightarrow> int" where
  "total_hits srv l w k = srv w k + buffered_hits (lm_windows l) k"

definition window_ok :: "int \<Rightarrow> bool \<Rightarrow> windowState \<Rightarrow> bool" where
  "window_ok n flying st \<longleftrightarrow> ws_redisKnown st = n \<and> 0 \<le> ws_localDelta st \<and> is_int64 (n + ws_localDelta st)
     \<and> ws_flushDelta st = (if flying then ws_localDelta st else 0)"

text \<open>With the jobs still to be sent, whose windows are marked.\<close>

definition flush_inv :: "('w \<Rightarrow> string \<Rightarrow> int) \<Rightarrow> pendingFlush list \<Rightarrow> Limiter \<Rightarrow> 'w \<Rightarrow> bool" where
  "flush_inv srv jobs l w \<longleftrightarrow> (\<forall>k. 0 \<le> srv w k) \<and> wf_map (lm_windows l) \<and> distinct (map pf_redisKey jobs)
     \<and> (\<forall>job \<in> set jobs. \<exists>st. go_get (lm_windows l) (pf_redisKey job) = Some st \<and> ws_localDelta st = pf_delta job)
     \<and> (\<forall>k st. go_get (lm_windows l) k = Some st \<longrightarrow> window_ok (srv w k) (k \<in> pf_redisKey ` set jobs) st)"

abbreviation buffer_inv :: "('w \<Rightarrow> string \<Rightarrow> int) \<Rightarrow> Limiter \<Rightarrow> 'w \<Rightarrow> bool" where
  "buffer_inv srv l w \<equiv> flush_inv srv [] l w"

lemma buffer_inv_def: "buffer_inv srv l w \<longleftrightarrow> (\<forall>k. 0 \<le> srv w k) \<and> wf_map (lm_windows l)
    \<and> (\<forall>k st. go_get (lm_windows l) k = Some st \<longrightarrow> window_ok (srv w k) False st)"
  by (simp add: flush_inv_def)

lemma flush_inv_wf: "flush_inv srv jobs l w \<Longrightarrow> wf_map (lm_windows l)"
  by (simp add: flush_inv_def)

lemma flush_inv_window:
  "flush_inv srv jobs l w \<Longrightarrow> go_get (lm_windows l) k = Some st \<Longrightarrow> window_ok (srv w k) (k \<in> pf_redisKey ` set jobs) st"
  by (simp only: flush_inv_def)

lemma flush_inv_server: "flush_inv srv jobs l w \<Longrightarrow> 0 \<le> srv w k"
  by (simp add: flush_inv_def)

lemma flush_invI:
  assumes "\<And>k. 0 \<le> srv w k" and "wf_map (lm_windows l)" and "distinct (map pf_redisKey jobs)"
    and "\<And>job. job \<in> set jobs \<Longrightarrow> \<exists>st. go_get (lm_windows l) (pf_redisKey job) = Some st \<and> ws_localDelta st = pf_delta job"
    and "\<And>k st. go_get (lm_windows l) k = Some st \<Longrightarrow> window_ok (srv w k) (k \<in> pf_redisKey ` set jobs) st"
  shows "flush_inv srv jobs l w"
  using assms by (simp add: flush_inv_def)

lemma flush_inv_fields [simp]:
  "flush_inv srv jobs (l\<lparr>lm_lastRedisOK := t\<rparr>) w = flush_inv srv jobs l w"
  "flush_inv srv jobs (l\<lparr>lm_lastFlushErr := e\<rparr>) w = flush_inv srv jobs l w"
  "flush_inv srv jobs (l\<lparr>lm_flushFailedAt := t\<rparr>) w = flush_inv srv jobs l w"
  by (simp_all add: flush_inv_def)

lemma total_hits_fields [simp]:
  "total_hits srv (l\<lparr>lm_lastRedisOK := t\<rparr>) w = total_hits srv l w"
  "total_hits srv (l\<lparr>lm_lastFlushErr := e\<rparr>) w = total_hits srv l w"
  "total_hits srv (l\<lparr>lm_flushFailedAt := t\<rparr>) w = total_hits srv l w"
  by (simp_all add: total_hits_def fun_eq_iff)

lemma same_server:
  assumes "srv w' = srv w"
  shows "flush_inv srv jobs l w' = flush_inv srv jobs l w" and "total_hits srv l w' = total_hits srv l w"
  using assms by (simp_all add: flush_inv_def total_hits_def fun_eq_iff)

lemma put_window_fields [simp]:
  "lm_windows (put_window k st l) = go_set k st (lm_windows l)" "lm_syncRate (put_window k st l) = lm_syncRate l"
  "lm_lastFlushErr (put_window k st l) = lm_lastFlushErr l"
  by (simp_all add: put_window_def)

lemma buffered_hits_set: "buffered_hits (go_set k st m) = (buffered_hits m)(k := ws_localDelta st)"
  by (simp add: buffered_hits_def fun_eq_iff update_conv)

section \<open>Flushing keeps the hits\<close>

lemma snapshot_marks_get: "go_get (snapshot_marks m) k = map_option mark_window (go_get m k)"
  by (simp add: snapshot_marks_def map_of_map)

lemma snapshot_marks_wf [simp]: "wf_map (snapshot_marks m) = wf_map m"
  by (simp add: snapshot_marks_def wf_map_def o_def case_prod_beta)

lemma snapshot_jobs_keys: "map pf_redisKey (snapshot_jobs m) = map fst (filter (\<lambda>(k, st). due st) m)"
  by (simp add: snapshot_jobs_def o_def case_prod_beta)

lemma snapshot_jobs_iff:
  assumes "wf_map m"
  shows "job \<in> set (snapshot_jobs m) \<longleftrightarrow> (\<exists>st. go_get m (pf_redisKey job) = Some st \<and> due st
     \<and> pf_delta job = ws_localDelta st \<and> pf_expireAt job = ws_expireAt st)"
proof -
  have "job \<in> set (snapshot_jobs m) \<longleftrightarrow> (\<exists>k st. (k, st) \<in> set m \<and> due st
      \<and> job = \<lparr>pf_redisKey = k, pf_delta = ws_localDelta st, pf_expireAt = ws_expireAt st\<rparr>)"
    by (auto simp: snapshot_jobs_def)
  then show ?thesis using go_get_mem [OF assms] by (cases job) auto
qed

lemma snapshot_key_iff:
  assumes "wf_map m"
  shows "k \<in> pf_redisKey ` set (snapshot_jobs m) \<longleftrightarrow> (\<exists>st. go_get m k = Some st \<and> due st)"
proof
  assume "\<exists>st. go_get m k = Some st \<and> due st"
  then obtain st where "go_get m k = Some st" "due st" by blast
  then have "\<lparr>pf_redisKey = k, pf_delta = ws_localDelta st, pf_expireAt = ws_expireAt st\<rparr> \<in> set (snapshot_jobs m)"
    by (simp add: snapshot_jobs_iff [OF assms])
  then show "k \<in> pf_redisKey ` set (snapshot_jobs m)" by (rule rev_image_eqI) simp
qed (auto simp: snapshot_jobs_iff [OF assms])

lemma mark_window_delta [simp]: "ws_localDelta (mark_window st) = ws_localDelta st"
  by (simp add: mark_window_def)

lemma mark_window_ok: "window_ok n False st \<Longrightarrow> window_ok n (due st) (mark_window st)"
  by (auto simp: window_ok_def mark_window_def due_def)

lemma snapshot_inv:
  assumes "buffer_inv srv l w"
  shows "flush_inv srv (snapshot_jobs (lm_windows l)) (l\<lparr>lm_windows := snapshot_marks (lm_windows l)\<rparr>) w"
    and "buffered_hits (snapshot_marks (lm_windows l)) = buffered_hits (lm_windows l)"
proof -
  note wf = flush_inv_wf [OF assms]
  show "flush_inv srv (snapshot_jobs (lm_windows l)) (l\<lparr>lm_windows := snapshot_marks (lm_windows l)\<rparr>) w"
  proof (rule flush_invI)
    show "distinct (map pf_redisKey (snapshot_jobs (lm_windows l)))"
      unfolding snapshot_jobs_keys using wf_map_filter [OF wf] by (simp add: wf_map_def)
    fix k st assume "go_get (lm_windows (l\<lparr>lm_windows := snapshot_marks (lm_windows l)\<rparr>)) k = Some st"
    then obtain st0 where st0: "go_get (lm_windows l) k = Some st0" "st = mark_window st0" by (auto simp: snapshot_marks_get)
    then show "window_ok (srv w k) (k \<in> pf_redisKey ` set (snapshot_jobs (lm_windows l))) st"
      using mark_window_ok [of "srv w k" st0] flush_inv_window [OF assms st0(1)] by (simp add: snapshot_key_iff [OF wf])
  qed (use wf flush_inv_server [OF assms] in \<open>auto simp: snapshot_marks_get snapshot_jobs_iff\<close>)
  show "buffered_hits (snapshot_marks (lm_windows l)) = buffered_hits (lm_windows l)"
    by (auto simp: buffered_hits_def fun_eq_iff snapshot_marks_get mark_window_def split: option.splits)
qed

lemma flush_inv_finish:
  assumes inv: "flush_inv srv (job # jobs) l w" and ok: "window_ok (srv w' (pf_redisKey job)) False st"
    and nonneg: "0 \<le> srv w' (pf_redisKey job)" and others: "\<And>k. k \<noteq> pf_redisKey job \<Longrightarrow> srv w' k = srv w k"
  shows "flush_inv srv jobs (put_window (pf_redisKey job) st l) w'"
proof (rule flush_invI)
  have fresh: "pf_redisKey job \<notin> pf_redisKey ` set jobs" using inv by (auto simp: flush_inv_def)
  show "0 \<le> srv w' k" for k using nonneg others [of k] flush_inv_server [OF inv, of k] by (cases "k = pf_redisKey job") simp_all
  show "wf_map (lm_windows (put_window (pf_redisKey job) st l))" using flush_inv_wf [OF inv] by simp
  show "distinct (map pf_redisKey jobs)" using inv by (simp add: flush_inv_def)
  show "\<exists>st'. go_get (lm_windows (put_window (pf_redisKey job) st l)) (pf_redisKey j) = Some st' \<and> ws_localDelta st' = pf_delta j"
    if "j \<in> set jobs" for j
  proof -
    have "pf_redisKey j \<noteq> pf_redisKey job" using fresh that by (metis imageI)
    then show ?thesis using inv that by (simp add: flush_inv_def update_conv)
  qed
  show "window_ok (srv w' k) (k \<in> pf_redisKey ` set jobs) st'"
    if "go_get (lm_windows (put_window (pf_redisKey job) st l)) k = Some st'" for k st'
  proof (cases "k = pf_redisKey job")
    case True
    then show ?thesis using that ok fresh by (simp add: update_conv)
  next
    case False
    then show ?thesis using that flush_inv_window [OF inv, of k st'] others by (simp add: update_conv)
  qed
qed

lemma finish_job_inv:
  assumes redis: "counting_redis cl srv" and inv: "flush_inv srv (job # jobs) l w" and send: "flushEvalUnlocked cl job w = (res, w')"
  shows "flush_inv srv jobs (finish_job job (eval_result res) now l) w'"
    and "total_hits srv (finish_job job (eval_result res) now l) w' = total_hits srv l w"
    and "eval_result res = Inr n \<Longrightarrow> buffered_hits (lm_windows (finish_job job (eval_result res) now l)) = (buffered_hits (lm_windows l))(pf_redisKey job := 0)"
    and "eval_result res = Inl e \<Longrightarrow> buffered_hits (lm_windows (finish_job job (eval_result res) now l)) = buffered_hits (lm_windows l)"
proof -
  let ?k = "pf_redisKey job"
  obtain st where st: "go_get (lm_windows l) ?k = Some st" "ws_localDelta st = pf_delta job" using inv by (auto simp: flush_inv_def)
  have hit: "buffered_hits (lm_windows l) ?k = pf_delta job" using st by (simp add: buffered_hits_def)
  have ok: "window_ok (srv w ?k) True st" using flush_inv_window [OF inv st(1)] by simp
  have "flush_inv srv jobs (finish_job job (eval_result res) now l) w' \<and> total_hits srv (finish_job job (eval_result res) now l) w' = total_hits srv l w
    \<and> buffered_hits (lm_windows (finish_job job (eval_result res) now l)) =
        (case eval_result res of Inr _ \<Rightarrow> (buffered_hits (lm_windows l))(?k := 0) | Inl _ \<Rightarrow> buffered_hits (lm_windows l))"
  proof (cases "eval_result res")
    case (Inl e)
    have l': "finish_job job (eval_result res) now l = put_window ?k (st\<lparr>ws_flushDelta := 0\<rparr>) l" by (simp add: finish_job_def st(1) Inl)
    have same: "srv w' = srv w" by (rule counting_Eval(1) [OF redis send Inl])
    have h: "buffered_hits (lm_windows (put_window ?k (st\<lparr>ws_flushDelta := 0\<rparr>) l)) = buffered_hits (lm_windows l)"
      using hit st(2) by (auto simp: buffered_hits_set fun_eq_iff)
    have "flush_inv srv jobs (put_window ?k (st\<lparr>ws_flushDelta := 0\<rparr>) l) w'"
      using ok same flush_inv_server [OF inv] by (intro flush_inv_finish [OF inv]) (simp_all add: window_ok_def)
    then show ?thesis unfolding l' h using h same Inl by (simp add: total_hits_def fun_eq_iff)
  next
    case (Inr m)
    let ?st = "st\<lparr>ws_redisKnown := m, ws_localDelta := 0, ws_flushDelta := 0\<rparr>"
    have l': "finish_job job (eval_result res) now l = (put_window ?k ?st l)\<lparr>lm_lastRedisOK := now, lm_lastFlushErr := None\<rparr>"
      by (simp add: finish_job_def st Inr)
    have m: "m = srv w ?k + pf_delta job" "is_int64 m" "srv w' = (srv w)(?k := m)" using counting_Eval(2) [OF redis send Inr] by blast+
    have h: "buffered_hits (lm_windows (put_window ?k ?st l)) = (buffered_hits (lm_windows l))(?k := 0)" by (simp add: buffered_hits_set)
    have "flush_inv srv jobs (put_window ?k ?st l) w'"
      using ok m st(2) flush_inv_server [OF inv, of ?k] by (intro flush_inv_finish [OF inv]) (simp_all add: window_ok_def)
    then show ?thesis unfolding l' using h hit m Inr by (simp add: total_hits_def fun_eq_iff)
  qed
  then show "flush_inv srv jobs (finish_job job (eval_result res) now l) w'"
    and "total_hits srv (finish_job job (eval_result res) now l) w' = total_hits srv l w"
    and "eval_result res = Inr n \<Longrightarrow> buffered_hits (lm_windows (finish_job job (eval_result res) now l)) = (buffered_hits (lm_windows l))(?k := 0)"
    and "eval_result res = Inl e \<Longrightarrow> buffered_hits (lm_windows (finish_job job (eval_result res) now l)) = buffered_hits (lm_windows l)"
    by simp_all
qed

lemma finish_job_syncRate [simp]: "lm_syncRate (finish_job job r now l) = lm_syncRate l"
  by (simp add: finish_job_def split: option.splits sum.splits)

lemma flush_jobs_inv:
  assumes redis: "counting_redis cl srv"
  shows "flush_inv srv jobs l w \<Longrightarrow> flush_jobs cl jobs e0 l w = (e, l', w') \<Longrightarrow>
    buffer_inv srv l' w' \<and> total_hits srv l' w' = total_hits srv l w \<and> lm_syncRate l' = lm_syncRate l
    \<and> (e = None \<longrightarrow> e0 = None \<and> buffered_hits (lm_windows l') = (\<lambda>k. if k \<in> pf_redisKey ` set jobs then 0 else buffered_hits (lm_windows l) k))"
proof (induction jobs arbitrary: e0 l w)
  case (Cons job jobs)
  obtain res w1 where send: "flushEvalUnlocked cl job w = (res, w1)" by (cases "flushEvalUnlocked cl job w")
  let ?l1 = "finish_job job (eval_result res) (wc_now cl w1) l"
    and ?e1 = "case e0 of Some e \<Rightarrow> Some e | None \<Rightarrow> (case eval_result res of Inl e \<Rightarrow> Some e | Inr _ \<Rightarrow> None)"
  have run: "flush_jobs cl jobs ?e1 ?l1 w1 = (e, l', w')" using Cons.prems(2) send by (simp add: Let_def)
  note fin = finish_job_inv [OF redis Cons.prems(1) send, where now = "wc_now cl w1"]
  note IH = Cons.IH [OF fin(1) run]
  have "e0 = None \<and> (\<exists>n. eval_result res = Inr n)" if "?e1 = None" using that by (auto split: option.splits sum.splits)
  then show ?case using IH fin(2) fin(3) by (auto simp: fun_eq_iff)
qed simp

lemma sweep_inv:
  assumes "buffer_inv srv l w"
  shows "buffer_inv srv (sweep_windows t l) w" and "buffered_hits (lm_windows (sweep_windows t l)) = buffered_hits (lm_windows l)"
proof -
  have wf: "wf_map (lm_windows l)" using assms by (simp add: buffer_inv_def)
  show "buffer_inv srv (sweep_windows t l) w"
    using assms wf by (auto simp: buffer_inv_def sweep_windows_def go_get_filter split: option.splits if_splits)
  show "buffered_hits (lm_windows (sweep_windows t l)) = buffered_hits (lm_windows l)"
    using wf by (auto simp: buffered_hits_def fun_eq_iff sweep_windows_def go_get_filter expired_window_def split: option.splits)
qed

lemma flushPending_inv:
  assumes redis: "counting_redis cl srv" and inv: "buffer_inv srv l w" and run: "flushPendingLocked cl l w = (e, l', w')"
  shows "buffer_inv srv l' w'" and "total_hits srv l' w' = total_hits srv l w" and "lm_syncRate l' = lm_syncRate l"
    and "e = None \<Longrightarrow> buffered_hits (lm_windows l') = (\<lambda>_. 0)" and "e = Some x \<Longrightarrow> lm_lastFlushErr l' = Some x"
proof -
  let ?m = "lm_windows l"
  let ?l0 = "l\<lparr>lm_windows := snapshot_marks ?m\<rparr>" and ?t = "time_unix (wc_now cl w)"
  obtain l1 where jobs: "flush_jobs cl (snapshot_jobs ?m) None ?l0 w = (e, l1, w')"
    and l': "l' = (case e of Some x \<Rightarrow> (sweep_windows ?t l1)\<lparr>lm_lastFlushErr := Some x, lm_flushFailedAt := wc_now cl w'\<rparr> | None \<Rightarrow> sweep_windows ?t l1)"
    using run by (auto simp: flushPendingLocked_def Let_def split: prod.splits)
  note fj = flush_jobs_inv [OF redis snapshot_inv(1) [OF inv] jobs]
  have inv1: "buffer_inv srv l1 w'" using fj by blast
  have h0: "total_hits srv ?l0 w = total_hits srv l w" using snapshot_inv(2) [OF inv] by (simp add: total_hits_def fun_eq_iff)
  have h1: "total_hits srv (sweep_windows ?t l1) w' = total_hits srv l1 w'" using sweep_inv(2) [OF inv1] by (simp add: total_hits_def fun_eq_iff)
  show "buffer_inv srv l' w'" using sweep_inv(1) [OF inv1] l' by (simp split: option.splits)
  show "total_hits srv l' w' = total_hits srv l w" using h0 h1 fj l' by (simp split: option.splits)
  show "lm_syncRate l' = lm_syncRate l" using fj l' by (simp add: sweep_windows_def split: option.splits)
  show "e = Some x \<Longrightarrow> lm_lastFlushErr l' = Some x" using l' by simp
  have "buffered_hits ?m k = 0" if "k \<notin> pf_redisKey ` set (snapshot_jobs ?m)" for k
  proof (cases "go_get ?m k")
    case (Some st)
    then show ?thesis using that flush_inv_window [OF inv Some] snapshot_key_iff [OF flush_inv_wf [OF inv], of k]
      by (auto simp: buffered_hits_def due_def window_ok_def)
  qed (simp add: buffered_hits_def)
  then show "e = None \<Longrightarrow> buffered_hits (lm_windows l') = (\<lambda>_. 0)"
    using l' fj sweep_inv(2) [OF inv1] snapshot_inv(2) [OF inv] by (auto simp: fun_eq_iff)
qed

section \<open>Buffered calls count like exact ones\<close>

text \<open>A step of the limiter that keeps the invariant, the hits and the mode.\<close>

definition keeps_hits :: "('w \<Rightarrow> string \<Rightarrow> int) \<Rightarrow> Limiter \<Rightarrow> 'w \<Rightarrow> Limiter \<Rightarrow> 'w \<Rightarrow> bool" where
  "keeps_hits srv l w l' w' \<longleftrightarrow> buffer_inv srv l' w' \<and> total_hits srv l' w' = total_hits srv l w \<and> lm_syncRate l' = lm_syncRate l"

lemma keeps_hits_refl: "buffer_inv srv l w \<Longrightarrow> keeps_hits srv l w l w"
  by (simp add: keeps_hits_def)

lemma keeps_hits_trans: "keeps_hits srv l w l1 w1 \<Longrightarrow> keeps_hits srv l1 w1 l2 w2 \<Longrightarrow> keeps_hits srv l w l2 w2"
  by (simp add: keeps_hits_def)

lemma keeps_hits_inv: "keeps_hits srv l w l' w' \<Longrightarrow> buffer_inv srv l' w'"
  by (simp add: keeps_hits_def)

lemma keeps_hits_fields [simp]:
  "keeps_hits srv l w (l'\<lparr>lm_lastRedisOK := t\<rparr>) w' = keeps_hits srv l w l' w'"
  "keeps_hits srv l w (l'\<lparr>lm_lastFlushErr := e\<rparr>) w' = keeps_hits srv l w l' w'"
  "keeps_hits srv l w (l'\<lparr>lm_flushFailedAt := t\<rparr>) w' = keeps_hits srv l w l' w'"
  by (simp_all add: keeps_hits_def)

lemma keeps_hits_Get:
  assumes "counting_redis cl srv" and "buffer_inv srv l w" and "getCount cl k w = (r, w')"
  shows "keeps_hits srv l w l w'"
  using assms(2) same_server [OF counting_Get(1) [OF assms(1,3)]] by (simp add: keeps_hits_def)

lemma put_window_inv:
  assumes "buffer_inv srv l w" and "window_ok (srv w k) False st"
  shows "buffer_inv srv (put_window k st l) w"
  using assms by (auto simp: buffer_inv_def update_conv split: if_splits)

lemma put_window_keeps:
  assumes "buffer_inv srv l w" and "window_ok (srv w k) False st" and "ws_localDelta st = buffered_hits (lm_windows l) k"
  shows "keeps_hits srv l w (put_window k st l) w"
  using put_window_inv [OF assms(1,2)] assms(3) by (auto simp: keeps_hits_def total_hits_def buffered_hits_set fun_eq_iff)

lemma later_expiry_props [simp]:
  "ws_localDelta (later_expiry x st) = ws_localDelta st" "ws_redisKnown (later_expiry x st) = ws_redisKnown st"
  "window_ok n f (later_expiry x st) = window_ok n f st" "local_count (later_expiry x st) = local_count st"
  by (simp_all add: later_expiry_def window_ok_def local_count_def)

lemma local_count_total:
  assumes "buffer_inv srv l w" and "go_get (lm_windows l) k = Some st"
  shows "local_count st = total_hits srv l w k" and "ws_redisKnown st = srv w k" and "ws_localDelta st = buffered_hits (lm_windows l) k"
    and "is_int64 (total_hits srv l w k)"
  using flush_inv_window [OF assms] assms(2) by (simp_all add: window_ok_def local_count_def total_hits_def buffered_hits_def)

lemma applyGet_keeps:
  assumes inv: "buffer_inv srv l w" and known: "known = srv w k" "is_int64 known" and got: "applyGetLocked k known x l = (st, l')"
  shows "keeps_hits srv l w l' w" and "go_get (lm_windows l') = (go_get (lm_windows l))(k \<mapsto> st)"
proof -
  have l': "l' = put_window k st l" using got by (auto simp: applyGetLocked_def Let_def)
  show "go_get (lm_windows l') = (go_get (lm_windows l))(k \<mapsto> st)" unfolding l' by (auto simp: update_conv fun_eq_iff)
  have "window_ok (srv w k) False st \<and> ws_localDelta st = buffered_hits (lm_windows l) k"
  proof (cases "go_get (lm_windows l) k")
    case None
    then show ?thesis using got known by (auto simp: applyGetLocked_def Let_def window_ok_def buffered_hits_def)
  next
    case (Some s)
    then show ?thesis using flush_inv_window [OF inv Some] got known
      by (auto simp: applyGetLocked_def Let_def window_ok_def buffered_hits_def later_expiry_def split: if_splits)
  qed
  then show "keeps_hits srv l w l' w" unfolding l' by (intro put_window_keeps [OF inv]) simp_all
qed

lemma seed_keeps:
  assumes redis: "counting_redis cl srv" and inv: "buffer_inv srv l w" and run: "seed_window cl k x l w = (r, l', w')"
  shows "keeps_hits srv l w l' w'" and "r = Inr st \<Longrightarrow> go_get (lm_windows l') = (go_get (lm_windows l))(k \<mapsto> st)"
proof -
  obtain g w1 where g: "getCount cl k w = (g, w1)" by (cases "getCount cl k w")
  have keep: "keeps_hits srv l w l w1" by (rule keeps_hits_Get [OF redis inv g])
  have "keeps_hits srv l w l' w' \<and> (r = Inr st \<longrightarrow> go_get (lm_windows l') = (go_get (lm_windows l))(k \<mapsto> st))"
  proof (cases g)
    case (Inl e)
    then show ?thesis using run g keep by (auto simp: seed_window_def)
  next
    case (Inr known)
    let ?l = "l\<lparr>lm_lastRedisOK := wc_now cl w1\<rparr>"
    obtain s l1 where s: "applyGetLocked k known x ?l = (s, l1)" by (cases "applyGetLocked k known x ?l")
    have r: "r = Inr s" "l' = l1" "w' = w1" using run g Inr s by (simp_all add: seed_window_def)
    have inv1: "buffer_inv srv ?l w1" using keeps_hits_inv [OF keep] by simp
    have kn: "known = srv w1 k" "is_int64 known" using counting_Get(2) [OF redis g Inr] counting_Get(1) [OF redis g] by auto
    have "keeps_hits srv l w ?l w1" using keep by simp
    then have "keeps_hits srv l w l' w'" unfolding r by (rule keeps_hits_trans [OF _ applyGet_keeps(1) [OF inv1 kn s]])
    then show ?thesis using applyGet_keeps(2) [OF inv1 kn s] r by (auto simp: fun_eq_iff)
  qed
  then show "keeps_hits srv l w l' w'" and "r = Inr st \<Longrightarrow> go_get (lm_windows l') = (go_get (lm_windows l))(k \<mapsto> st)" by blast+
qed

lemma later_expiry_keeps:
  assumes "buffer_inv srv l w" and "go_get (lm_windows l) k = Some st"
  shows "keeps_hits srv l w (put_window k (later_expiry x st) l) w"
  using flush_inv_window [OF assms] local_count_total(3) [OF assms] by (intro put_window_keeps [OF assms(1)]) simp_all

lemma windowLocked_keeps:
  assumes redis: "counting_redis cl srv" and inv: "buffer_inv srv l w" and run: "windowLocked cl k x l w = (r, l', w')"
  shows "keeps_hits srv l w l' w'" and "r = Inr st \<Longrightarrow> go_get (lm_windows l') k = Some st"
proof -
  have "keeps_hits srv l w l' w' \<and> (r = Inr st \<longrightarrow> go_get (lm_windows l') k = Some st)"
  proof (cases "go_get (lm_windows l) k")
    case None
    then show ?thesis using run seed_keeps(1) [OF redis inv, of k x r l' w'] seed_keeps(2) [OF redis inv, of k x r l' w' st] by (simp add: windowLocked_def)
  next
    case (Some s)
    let ?l = "put_window k (later_expiry x s) l"
    have keep: "keeps_hits srv l w ?l w" by (rule later_expiry_keeps [OF inv Some])
    show ?thesis
    proof (cases "ws_localDelta s = 0")
      case True
      then have seed: "seed_window cl k x ?l w = (r, l', w')" using run Some by (simp add: windowLocked_def Let_def)
      show ?thesis
        using keeps_hits_trans [OF keep seed_keeps(1) [OF redis keeps_hits_inv [OF keep] seed]]
          seed_keeps(2) [OF redis keeps_hits_inv [OF keep] seed, of st] by simp
    next
      case False
      then show ?thesis using run Some keep by (auto simp: windowLocked_def Let_def update_conv)
    qed
  qed
  then show "keeps_hits srv l w l' w'" and "r = Inr st \<Longrightarrow> go_get (lm_windows l') k = Some st" by blast+
qed

lemma bufferedCount_keeps:
  assumes redis: "counting_redis cl srv" and inv: "buffer_inv srv l w" and run: "bufferedCountLocked cl k l w = (r, l', w')"
  shows "keeps_hits srv l w l' w'" and "r = Inr n \<Longrightarrow> n = total_hits srv l w k"
    and "go_get (lm_windows l) j = Some st \<Longrightarrow> r = Inr n \<Longrightarrow> go_get (lm_windows l') j = Some st"
proof -
  have "keeps_hits srv l w l' w' \<and> (r = Inr n \<longrightarrow> n = total_hits srv l w k)
      \<and> (go_get (lm_windows l) j = Some st \<longrightarrow> r = Inr n \<longrightarrow> go_get (lm_windows l') j = Some st)"
  proof (cases "go_get (lm_windows l) k")
    case None
    obtain g where seed: "seed_window cl k 0 l w = (g, l', w')" and r: "r = map_sum id local_count g"
      using run None by (auto simp: bufferedCountLocked_def apfst_def map_prod_def split: prod.splits)
    note keep = seed_keeps [OF redis inv seed]
    show ?thesis
    proof (cases g)
      case (Inr s)
      then have "local_count s = total_hits srv l' w' k" using local_count_total(1) [OF keeps_hits_inv [OF keep(1)]] keep(2) by simp
      then show ?thesis using keep Inr r None by (auto simp: keeps_hits_def)
    qed (use keep r in simp)
  next
    case (Some s)
    then show ?thesis using run inv local_count_total(1) [OF inv Some] by (auto simp: bufferedCountLocked_def keeps_hits_refl)
  qed
  then show "keeps_hits srv l w l' w'" and "r = Inr n \<Longrightarrow> n = total_hits srv l w k"
    and "go_get (lm_windows l) j = Some st \<Longrightarrow> r = Inr n \<Longrightarrow> go_get (lm_windows l') j = Some st" by blast+
qed

lemma peekCount_keeps:
  assumes redis: "counting_redis cl srv" and inv: "buffer_inv srv l w" and run: "peekCountLocked cl k x l w = (r, l', w')"
  shows "keeps_hits srv l w l' w'" and "r = Inr n \<Longrightarrow> n = total_hits srv l w k"
proof -
  have "keeps_hits srv l w l' w' \<and> (r = Inr n \<longrightarrow> n = total_hits srv l w k)"
  proof (cases "go_get (lm_windows l) k")
    case None
    obtain g where seed: "seed_window cl k x l w = (g, l', w')" and r: "r = map_sum id local_count g"
      using run None by (auto simp: peekCountLocked_def apfst_def map_prod_def split: prod.splits)
    note keep = seed_keeps [OF redis inv seed]
    show ?thesis
    proof (cases g)
      case (Inr s)
      then have "local_count s = total_hits srv l' w' k" using local_count_total(1) [OF keeps_hits_inv [OF keep(1)]] keep(2) by simp
      then show ?thesis using keep Inr r by (auto simp: keeps_hits_def)
    qed (use keep r in simp)
  next
    case (Some s)
    then show ?thesis using run local_count_total(1) [OF inv Some] later_expiry_keeps [OF inv Some] by (auto simp: peekCountLocked_def)
  qed
  then show "keeps_hits srv l w l' w'" and "r = Inr n \<Longrightarrow> n = total_hits srv l w k" by blast+
qed

lemma probe_keeps:
  assumes redis: "counting_redis cl srv" and inv: "buffer_inv srv l w" and run: "probe_window cl c l w = (e, l', w')"
  shows "keeps_hits srv l w l' w'"
proof (cases "lm_windows l = [] \<or> fst (lm_windows l ! (c mod length (lm_windows l))) = []")
  case True
  then show ?thesis using run inv by (simp add: probe_window_def keeps_hits_refl)
next
  case False
  obtain g w1 where g: "getCount cl (fst (lm_windows l ! (c mod length (lm_windows l)))) w = (g, w1)" by fastforce
  have "keeps_hits srv l w l w1" by (rule keeps_hits_Get [OF redis inv g])
  then show ?thesis using run False g by (cases g) (auto simp: probe_window_def)
qed

lemma outage_keeps:
  assumes redis: "counting_redis cl srv" and inv: "buffer_inv srv l w" and run: "bufferedOutageErrorLocked cl c l w = (e, l', w')"
  shows "keeps_hits srv l w l' w'"
proof (cases "lm_lastFlushErr l \<noteq> None \<or> recent_contact cl l w")
  case True
  then show ?thesis using run inv by (auto simp: bufferedOutageErrorLocked_def keeps_hits_refl split: option.splits)
next
  case False
  obtain e1 l1 w1 where flush: "flushPendingLocked cl l w = (e1, l1, w1)" by (metis prod_cases3)
  have keep: "keeps_hits srv l w l1 w1" using flushPending_inv(1-3) [OF redis inv flush] by (simp add: keeps_hits_def)
  show ?thesis
  proof (cases "e1 \<noteq> None \<or> lm_lastFlushErr l1 \<noteq> None \<or> recent_contact cl l1 w1")
    case True
    then show ?thesis using run False flush keep by (auto simp: bufferedOutageErrorLocked_def split: option.splits)
  next
    case ok: False
    then have "probe_window cl c l1 w1 = (e, l', w')" using run False flush by (auto simp: bufferedOutageErrorLocked_def)
    then show ?thesis using keeps_hits_trans [OF keep] probe_keeps [OF redis keeps_hits_inv [OF keep]] by blast
  qed
qed

text \<open>The answer exact mode gives on a server that holds all hits, and the count a call adds.\<close>

definition answer :: "(string \<Rightarrow> int) \<Rightarrow> int \<Rightarrow> slidingWindow \<Rightarrow> int \<Rightarrow> bool \<times> float64" where
  "answer hits added s limit =
     (let est = estimate (hits (sl_currentKey s) + added) (hits (sl_previousKey s)) (sl_weight s) in (fle est (float_of_int limit), est))"

lemma takeBuffered_counts:
  assumes redis: "counting_redis cl srv" and inv: "buffer_inv srv l w" and room: "total_hits srv l w cur < max_int64"
    and run: "takeBuffered cl c cur prev x weight limit l w = (v, l', w')"
  shows "keeps_hits srv l w l' w' \<and> (\<exists>e. v = refused e)
    \<or> buffer_inv srv l' w' \<and> lm_syncRate l' = lm_syncRate l
      \<and> total_hits srv l' w' = (total_hits srv l w)(cur := total_hits srv l w cur + 1)
      \<and> (\<exists>err. v = judge (total_hits srv l w cur + 1) (total_hits srv l w prev) weight limit err)"
proof -
  obtain r1 l1 w1 where a: "windowLocked cl cur x l w = (r1, l1, w1)" by (metis prod_cases3)
  obtain r2 l2 w2 where b: "bufferedCountLocked cl prev l1 w1 = (r2, l2, w2)" by (metis prod_cases3)
  note ka = windowLocked_keeps [OF redis inv a]
  note kb = bufferedCount_keeps [OF redis keeps_hits_inv [OF ka(1)] b]
  note kab = keeps_hits_trans [OF ka(1) kb(1)]
  show ?thesis
  proof (cases "\<exists>st p. r1 = Inr st \<and> r2 = Inr p")
    case False
    then show ?thesis using run a b ka(1) kab by (cases r1; cases r2) (auto simp: takeBuffered_def)
  next
    case True
    then obtain st p where ok: "r1 = Inr st" "r2 = Inr p" by blast
    have inv2: "buffer_inv srv l2 w2" by (rule keeps_hits_inv [OF kab])
    have st: "go_get (lm_windows l2) cur = Some st" using kb(3) [OF ka(2) [OF ok(1)] ok(2)] .
    note here = local_count_total [OF inv2 st]
    have t: "total_hits srv l2 w2 = total_hits srv l w" using kab by (simp add: keeps_hits_def)
    have p: "p = total_hits srv l w prev" using kb(2) [OF ok(2)] ka(1) by (simp add: keeps_hits_def)
    have wok: "window_ok (srv w2 cur) False st" using flush_inv_window [OF inv2 st] by simp
    have sum: "srv w2 cur + ws_localDelta st = total_hits srv l w cur" using here(3) t by (simp add: total_hits_def [of srv l2 w2, symmetric] flip: t)
    have bound: "is_int64 (total_hits srv l w cur + 1)" using here(4) room t by (simp add: is_int64_def max_int64_def)
    have d64: "is_int64 (ws_localDelta st + 1)" using sum bound wok flush_inv_server [OF inv2, of cur] by (simp add: is_int64_def window_ok_def)
    let ?l3 = "bump_window cur st l2"
    have inv3: "buffer_inv srv ?l3 w2"
      unfolding bump_window_def using wok sum bound d64 by (intro put_window_inv [OF inv2]) (simp add: window_ok_def add.assoc [symmetric])
    have t3: "total_hits srv ?l3 w2 = (total_hits srv l w)(cur := total_hits srv l w cur + 1)"
      using sum d64 t by (auto simp: bump_window_def total_hits_def buffered_hits_set fun_eq_iff)
    obtain err l4 w4 where o: "bufferedOutageErrorLocked cl c ?l3 w2 = (err, l4, w4)" by (metis prod_cases3)
    have k4: "keeps_hits srv ?l3 w2 l4 w4" by (rule outage_keeps [OF redis inv3 o])
    have cur: "wrap64 (ws_redisKnown st + wrap64 (ws_localDelta st + 1)) = total_hits srv l w cur + 1"
      using here(2) sum bound d64 by (simp add: add.assoc [symmetric])
    have "v = judge (total_hits srv l w cur + 1) p weight limit err" "l' = l4" "w' = w4"
      using run a b ok o cur by (simp_all add: takeBuffered_def Let_def)
    then show ?thesis using k4 t3 p kab by (auto simp: keeps_hits_def bump_window_def)
  qed
qed

lemma judge_answer:
  "judge (hits (sl_currentKey s) + added) (hits (sl_previousKey s)) (sl_weight s) limit err =
     (fst (answer hits added s limit), snd (answer hits added s limit), err)"
  by (simp add: judge_def answer_def Let_def)

lemma peekBuffered_counts:
  assumes redis: "counting_redis cl srv" and inv: "buffer_inv srv l w"
    and run: "peekBuffered cl c cur prev x weight limit l w = (v, l', w')"
  shows "keeps_hits srv l w l' w' \<and> ((\<exists>e. v = refused e)
    \<or> (\<exists>err. v = judge (total_hits srv l w cur) (total_hits srv l w prev) weight limit err))"
proof -
  obtain r1 l1 w1 where a: "peekCountLocked cl cur x l w = (r1, l1, w1)" by (metis prod_cases3)
  obtain r2 l2 w2 where b: "bufferedCountLocked cl prev l1 w1 = (r2, l2, w2)" by (metis prod_cases3)
  obtain err l3 w3 where o: "bufferedOutageErrorLocked cl c l2 w2 = (err, l3, w3)" by (metis prod_cases3)
  note ka = peekCount_keeps [OF redis inv a]
  note kb = bufferedCount_keeps [OF redis keeps_hits_inv [OF ka(1)] b]
  note kab = keeps_hits_trans [OF ka(1) kb(1)]
  note ko = keeps_hits_trans [OF kab outage_keeps [OF redis keeps_hits_inv [OF kab] o]]
  show ?thesis
  proof (cases "\<exists>n p. r1 = Inr n \<and> r2 = Inr p")
    case False
    then show ?thesis using run a b ka(1) kab by (cases r1; cases r2) (auto simp: peekBuffered_def)
  next
    case True
    then obtain n p where ok: "r1 = Inr n" "r2 = Inr p" by blast
    have "n = total_hits srv l w cur" "p = total_hits srv l w prev"
      using ka(1) ka(2) [OF ok(1)] kb(2) [OF ok(2)] by (simp_all add: keeps_hits_def)
    then show ?thesis using run a b o ok ko by (auto simp: peekBuffered_def)
  qed
qed

lemma peekExact_counts:
  assumes redis: "counting_redis cl srv" and run: "peekExact cl cur prev weight limit w = (v, w')"
  shows "srv w' = srv w \<and> ((\<exists>e. v = refused e) \<or> v = judge (srv w cur) (srv w prev) weight limit None)"
proof -
  obtain g1 w1 where a: "getCount cl cur w = (g1, w1)" by (cases "getCount cl cur w")
  obtain g2 w2 where b: "getCount cl prev w1 = (g2, w2)" by (cases "getCount cl prev w1")
  show ?thesis
    using run a b counting_Get(1) [OF redis a] counting_Get(1) [OF redis b] counting_Get(2) [OF redis a] counting_Get(2) [OF redis b]
    by (cases g1; cases g2) (auto simp: peekExact_def)
qed

lemma sliding_keys:
  assumes "usable_window window" and "sane_clock now" and "slidingAt now key window = Inr s"
  shows "sl_previousKey s \<noteq> sl_currentKey s"
  using assms(3) window_seconds_props(1) [OF assms(1)] unfolding slidingAt_eq [OF assms(1,2)] by (auto simp: redisWindowKey_inj)


text \<open>
  \<open>Peek\<close> records nothing. In either mode it changes the hit count of no key, and its answer is a
  refusal with an error or the occupancy that exact mode computes from all hits, without one more.
\<close>

theorem peek_records_nothing:
  assumes redis: "counting_redis cl srv" and inv: "buffer_inv srv l w" and mode: "lm_syncRate l = 0 \<longrightarrow> lm_windows l = []"
    and s: "slidingAt (wc_now cl w) key window = Inr s" and run: "Peek cl None c key limit window l w = ((ok, est, err), l', w')"
  shows "buffer_inv srv l' w' \<and> total_hits srv l' w' = total_hits srv l w
    \<and> (\<not> ok \<and> err \<noteq> None \<or> (ok, est) = answer (total_hits srv l w) 0 s limit)"
proof (cases "lm_syncRate l = 0")
  case True
  have hits: "total_hits srv l w = srv w" using mode True by (simp add: total_hits_def buffered_hits_def fun_eq_iff)
  have call: "peekExact cl (sl_currentKey s) (sl_previousKey s) (sl_weight s) limit w = ((ok, est, err), w')" and l': "l' = l"
    using run True s by (auto simp: Peek_def split: prod.splits)
  note exact = peekExact_counts [OF redis call]
  have "buffer_inv srv l' w' \<and> total_hits srv l' w' = total_hits srv l w"
    using inv same_server [OF conjunct1 [OF exact]] l' by simp
  then show ?thesis using exact judge_answer [of "srv w" s 0 limit None] unfolding hits by (auto simp: refused_def prod_eq_iff)
next
  case False
  have call: "peekBuffered cl c (sl_currentKey s) (sl_previousKey s) (sl_expireAt s) (sl_weight s) limit l w = ((ok, est, err), l', w')"
    using run False s by (simp add: Peek_def)
  show ?thesis
    using peekBuffered_counts [OF redis inv call] judge_answer [of "total_hits srv l w" s 0 limit]
    by (auto simp: keeps_hits_def refused_def prod_eq_iff)
qed


section \<open>Concrete runs\<close>

definition buffered_limiter :: Limiter where
  "buffered_limiter = \<lparr>lm_syncRate = Second, lm_windows = [], lm_closed = False, lm_stopping = False, lm_flushTimer = True,
     lm_flushBusy = 1, lm_lastFlushErr = None, lm_flushFailedAt = zero_time, lm_lastRedisOK = zero_time\<rparr>"

lemma buffered_limiter_New: "Limiter_New (Some cl) Second = Inr buffered_limiter"
  by (simp add: Limiter_New_def buffered_limiter_def startFlushLocked_def minSyncRate_def unit_defs)

lemma buffered_limiter_inv: "(\<And>k. 0 \<le> n k) \<Longrightarrow> buffer_inv (\<lambda>w. w) buffered_limiter n"
  by (simp add: buffer_inv_def buffered_limiter_def)

lemma minute: "usable_window (60 * Second)" "sane_clock (wc_now (memory_redis (100 * Second)) w)"
  by (simp_all add: usable_window_def sane_clock_def memory_redis_def is_int64_def time_unix_def Second_def)


theorem peek_records_nothing_witness:
  "\<exists>v l' w'. Peek (memory_redis (100 * Second)) None 0 ''k'' 2 (60 * Second) buffered_limiter (\<lambda>_. 1) = (v, l', w')
     \<and> buffer_inv (\<lambda>w. w) l' w'"
proof -
  let ?cl = "memory_redis (100 * Second)" and ?w = "\<lambda>_ :: string. 1 :: int"
  obtain s where s: "slidingAt (wc_now ?cl ?w) ''k'' (60 * Second) = Inr s" using slidingAt_eq [OF minute] by blast
  obtain ok est err l' w' where run: "Peek ?cl None 0 ''k'' 2 (60 * Second) buffered_limiter ?w = ((ok, est, err), l', w')"
    by (metis prod_cases3)
  have "lm_syncRate buffered_limiter = 0 \<longrightarrow> lm_windows buffered_limiter = []" by (simp add: buffered_limiter_def)
  then show ?thesis using peek_records_nothing [OF memory_redis_counts buffered_limiter_inv _ s run] run by auto
qed

definition one_hit :: Limiter where
  "one_hit = put_window ''k:60'' \<lparr>ws_redisKnown = 1, ws_localDelta = 1, ws_expireAt = 180, ws_flushDelta = 0\<rparr> buffered_limiter"


end
