(* ===== verification/Flush.thy ===== *)
theory Flush
  imports WindowCounter
begin

text \<open>
  The limiter of \<open>src/windowcounter/limiter.go\<close> under concurrency. The mutex is released for every GET and every EVAL, so
  other calls and other flushes run in between. The steps here are the parts that hold the mutex, with the
  definitions of theory \<open>WindowCounter\<close>, and what the server does with an EVAL. Beside the code's
  state the model counts the hits, what the server added although the reply was lost, and the hits on windows that were
  dropped while a \<open>Take\<close> still had them.
\<close>

section \<open>Steps\<close>

datatype job_state = Unsent | Answered "wc_err + int"

record flush_state =
  fs_lim :: Limiter
  fs_jobs :: "(pendingFlush \<times> job_state) list"
  fs_server :: "string \<Rightarrow> int"
  fs_holding :: "string list"
  fs_detached :: "string list"
  fs_hits :: "string \<Rightarrow> int"
  fs_unseen :: "string \<Rightarrow> int"
  fs_dropped :: "string \<Rightarrow> int"

definition add_at :: "string \<Rightarrow> int \<Rightarrow> (string \<Rightarrow> int) \<Rightarrow> string \<Rightarrow> int" where
  "add_at k n f = f(k := f k + n)"

text \<open>The job at a place of the list, and the lists around it.\<close>

definition job_at :: "nat \<Rightarrow> pendingFlush \<Rightarrow> job_state \<Rightarrow> flush_state \<Rightarrow> bool" where
  "job_at i job ph s \<longleftrightarrow> i < length (fs_jobs s) \<and> fs_jobs s ! i = (job, ph)"

definition remove_at :: "nat \<Rightarrow> 'a list \<Rightarrow> 'a list" where
  "remove_at i xs = take i xs @ drop (Suc i) xs"

inductive fstep :: "flush_state \<Rightarrow> flush_state \<Rightarrow> bool" where
  seed: "applyGetLocked k known x (fs_lim s) = (st, l') \<Longrightarrow> fstep s (s\<lparr>fs_lim := l'\<lparr>lm_lastRedisOK := t\<rparr>\<rparr>)"
| expiry: "go_get (lm_windows (fs_lim s)) k = Some st \<Longrightarrow> fstep s (s\<lparr>fs_lim := put_window k (later_expiry x st) (fs_lim s)\<rparr>)"
| hold: "go_get (lm_windows (fs_lim s)) k = Some st \<Longrightarrow> fstep s (s\<lparr>fs_holding := k # fs_holding s\<rparr>)"
| give_up: "k \<in> set (fs_holding s) \<Longrightarrow> fstep s (s\<lparr>fs_holding := remove1 k (fs_holding s)\<rparr>)"
| bump: "k \<in> set (fs_holding s) \<Longrightarrow> go_get (lm_windows (fs_lim s)) k = Some st \<Longrightarrow> ws_localDelta st < max_int64 \<Longrightarrow>
    fstep s (s\<lparr>fs_lim := bump_window k st (fs_lim s), fs_holding := remove1 k (fs_holding s), fs_hits := add_at k 1 (fs_hits s)\<rparr>)"
| bump_detached: "k \<in> set (fs_detached s) \<Longrightarrow>
    fstep s (s\<lparr>fs_detached := remove1 k (fs_detached s), fs_hits := add_at k 1 (fs_hits s), fs_dropped := add_at k 1 (fs_dropped s)\<rparr>)"
| snapshot: "fstep s (s\<lparr>fs_lim := (fs_lim s)\<lparr>lm_windows := snapshot_marks (lm_windows (fs_lim s))\<rparr>,
      fs_jobs := map (\<lambda>job. (job, Unsent)) (snapshot_jobs (lm_windows (fs_lim s))) @ fs_jobs s\<rparr>)"
| serve: "job_at i job Unsent s \<Longrightarrow> n = fs_server s (pf_redisKey job) + pf_delta job \<Longrightarrow>
    fstep s (s\<lparr>fs_server := add_at (pf_redisKey job) (pf_delta job) (fs_server s), fs_jobs := (fs_jobs s)[i := (job, Answered (Inr n))]\<rparr>)"
| reply_lost: "job_at i job Unsent s \<Longrightarrow>
    fstep s (s\<lparr>fs_server := add_at (pf_redisKey job) (pf_delta job) (fs_server s), fs_jobs := (fs_jobs s)[i := (job, Answered (Inl e))],
      fs_unseen := add_at (pf_redisKey job) (pf_delta job) (fs_unseen s)\<rparr>)"
| not_served: "job_at i job Unsent s \<Longrightarrow> fstep s (s\<lparr>fs_jobs := (fs_jobs s)[i := (job, Answered (Inl e))]\<rparr>)"
| finish: "job_at i job (Answered r) s \<Longrightarrow>
    fstep s (s\<lparr>fs_lim := finish_job job r t (fs_lim s), fs_jobs := remove_at i (fs_jobs s)\<rparr>)"
| sweep: "l' = sweep_windows t (fs_lim s) \<Longrightarrow> gone = (\<lambda>k. go_get (lm_windows (fs_lim s)) k \<noteq> None \<and> go_get (lm_windows l') k = None) \<Longrightarrow>
    fstep s (s\<lparr>fs_lim := l', fs_holding := filter (\<lambda>k. \<not> gone k) (fs_holding s), fs_detached := filter gone (fs_holding s) @ fs_detached s\<rparr>)"
| outside: "lm_windows l' = lm_windows (fs_lim s) \<Longrightarrow> fstep s (s\<lparr>fs_lim := l'\<rparr>)"

definition flush_start :: "Limiter \<Rightarrow> (string \<Rightarrow> int) \<Rightarrow> flush_state" where
  "flush_start l server = \<lparr>fs_lim = l, fs_jobs = [], fs_server = server, fs_holding = [], fs_detached = [],
     fs_hits = (\<lambda>_. 0), fs_unseen = (\<lambda>_. 0), fs_dropped = (\<lambda>_. 0)\<rparr>"

section \<open>Conservation\<close>

text \<open>What a job has added to the server and not yet taken from the buffer.\<close>

fun job_credit :: "string \<Rightarrow> pendingFlush \<times> job_state \<Rightarrow> int" where
  "job_credit k (job, Answered (Inr _)) = (if pf_redisKey job = k then pf_delta job else 0)"
| "job_credit k (job, _) = 0"

definition answered_credit :: "flush_state \<Rightarrow> string \<Rightarrow> int" where
  "answered_credit s k = sum_list (map (job_credit k) (fs_jobs s))"

definition job_keys :: "flush_state \<Rightarrow> string list" where
  "job_keys s = map (pf_redisKey \<circ> fst) (fs_jobs s)"

text \<open>
  A window without a job has no mark; the window of a job is there, marked with the job's delta, which is positive and not
  more than the window's own.
\<close>

definition marks_ok :: "windows \<Rightarrow> (pendingFlush \<times> job_state) list \<Rightarrow> bool" where
  "marks_ok m jobs \<longleftrightarrow> wf_map m \<and> distinct (map (pf_redisKey \<circ> fst) jobs)
     \<and> (\<forall>k st. go_get m k = Some st \<longrightarrow> 0 \<le> ws_localDelta st \<and> ws_localDelta st \<le> max_int64
          \<and> (k \<notin> (pf_redisKey \<circ> fst) ` set jobs \<longrightarrow> ws_flushDelta st = 0))
     \<and> (\<forall>(job, ph) \<in> set jobs. \<exists>st. go_get m (pf_redisKey job) = Some st \<and> 0 < pf_delta job
          \<and> ws_flushDelta st = pf_delta job \<and> pf_delta job \<le> ws_localDelta st)"

definition balanced :: "(string \<Rightarrow> int) \<Rightarrow> flush_state \<Rightarrow> bool" where
  "balanced server0 s \<longleftrightarrow> (\<forall>k. server0 k + fs_hits s k + fs_unseen s k =
     fs_server s k + buffered_hits (lm_windows (fs_lim s)) k - answered_credit s k + fs_dropped s k)"

definition flush_safe :: "(string \<Rightarrow> int) \<Rightarrow> flush_state \<Rightarrow> bool" where
  "flush_safe server0 s \<longleftrightarrow> marks_ok (lm_windows (fs_lim s)) (fs_jobs s) \<and> balanced server0 s"

lemma marks_ok_put:
  assumes "marks_ok m jobs" and "go_get m k = Some st \<or> go_get m k = None \<and> ws_flushDelta st = 0 \<and> ws_localDelta st = 0"
    and "ws_flushDelta st' = ws_flushDelta st" and "ws_localDelta st \<le> ws_localDelta st'" and "ws_localDelta st' \<le> max_int64"
  shows "marks_ok (go_set k st' m) jobs"
proof -
  have absent: "go_get m k = None \<Longrightarrow> (job, ph) \<in> set jobs \<Longrightarrow> pf_redisKey job \<noteq> k" for job ph
    using assms(1) by (fastforce simp: marks_ok_def)
  have st: "0 \<le> ws_localDelta st" using assms(1,2) by (auto simp: marks_ok_def)
  show ?thesis unfolding marks_ok_def
  proof (intro conjI ballI allI impI)
    fix j assume j: "j \<in> set jobs"
    obtain job ph where jj: "j = (job, ph)" by (cases j)
    have "\<exists>s. go_get m (pf_redisKey job) = Some s \<and> 0 < pf_delta job \<and> ws_flushDelta s = pf_delta job \<and> pf_delta job \<le> ws_localDelta s"
      using assms(1) j jj by (auto simp: marks_ok_def)
    then show "case j of (job, ph) \<Rightarrow> \<exists>st. go_get (go_set k st' m) (pf_redisKey job) = Some st \<and> 0 < pf_delta job
          \<and> ws_flushDelta st = pf_delta job \<and> pf_delta job \<le> ws_localDelta st"
      using assms(2-4) absent j jj by (cases "pf_redisKey job = k") (auto simp: update_conv)
  qed (use assms st in \<open>auto simp: marks_ok_def update_conv split: if_splits\<close>)
qed

lemma job_at_split:
  assumes "job_at i job ph s"
  shows "\<exists>ys zs. fs_jobs s = ys @ (job, ph) # zs \<and> (\<forall>p. (fs_jobs s)[i := p] = ys @ p # zs) \<and> remove_at i (fs_jobs s) = ys @ zs"
proof (intro exI conjI allI)
  have i: "i < length (fs_jobs s)" "fs_jobs s ! i = (job, ph)" using assms by (simp_all add: job_at_def)
  show "fs_jobs s = take i (fs_jobs s) @ (job, ph) # drop (Suc i) (fs_jobs s)" using id_take_nth_drop [OF i(1)] i(2) by simp
  show "(fs_jobs s)[i := p] = take i (fs_jobs s) @ p # drop (Suc i) (fs_jobs s)" for p by (rule upd_conv_take_nth_drop [OF i(1)])
  show "remove_at i (fs_jobs s) = take i (fs_jobs s) @ drop (Suc i) (fs_jobs s)" by (simp add: remove_at_def)
qed

lemma marks_ok_window:
  "marks_ok m jobs \<Longrightarrow> go_get m k = Some st \<Longrightarrow> 0 \<le> ws_localDelta st \<and> ws_localDelta st \<le> max_int64
     \<and> (k \<notin> (pf_redisKey \<circ> fst) ` set jobs \<longrightarrow> ws_flushDelta st = 0)"
  unfolding marks_ok_def by blast

lemma marks_ok_job:
  "marks_ok m jobs \<Longrightarrow> (job, ph) \<in> set jobs \<Longrightarrow>
     \<exists>st. go_get m (pf_redisKey job) = Some st \<and> 0 < pf_delta job \<and> ws_flushDelta st = pf_delta job \<and> pf_delta job \<le> ws_localDelta st"
  by (auto simp: marks_ok_def)

lemma marks_okI:
  assumes "wf_map m" and "distinct (map (pf_redisKey \<circ> fst) jobs)"
    and "\<And>k st. go_get m k = Some st \<Longrightarrow> 0 \<le> ws_localDelta st \<and> ws_localDelta st \<le> max_int64
          \<and> (k \<notin> (pf_redisKey \<circ> fst) ` set jobs \<longrightarrow> ws_flushDelta st = 0)"
    and "\<And>job ph. (job, ph) \<in> set jobs \<Longrightarrow> \<exists>st. go_get m (pf_redisKey job) = Some st \<and> 0 < pf_delta job
          \<and> ws_flushDelta st = pf_delta job \<and> pf_delta job \<le> ws_localDelta st"
  shows "marks_ok m jobs"
  using assms by (auto simp: marks_ok_def)

lemma marks_ok_same:
  assumes ok: "marks_ok m jobs" and same: "map fst jobs' = map fst jobs"
  shows "marks_ok m jobs'"
proof (rule marks_okI)
  have keys: "map (pf_redisKey \<circ> fst) jobs' = map (pf_redisKey \<circ> fst) jobs"
    using arg_cong [OF same, of "map pf_redisKey"] by simp
  then show "distinct (map (pf_redisKey \<circ> fst) jobs')" using ok by (simp only: marks_ok_def)
  have kset: "(pf_redisKey \<circ> fst) ` set jobs' = (pf_redisKey \<circ> fst) ` set jobs" using arg_cong [OF keys, of set] by simp
  show "wf_map m" using ok by (simp only: marks_ok_def)
  show "0 \<le> ws_localDelta st \<and> ws_localDelta st \<le> max_int64 \<and> (k \<notin> (pf_redisKey \<circ> fst) ` set jobs' \<longrightarrow> ws_flushDelta st = 0)"
    if "go_get m k = Some st" for k st
    unfolding kset by (rule marks_ok_window [OF ok that])
  show "\<exists>st. go_get m (pf_redisKey job) = Some st \<and> 0 < pf_delta job \<and> ws_flushDelta st = pf_delta job \<and> pf_delta job \<le> ws_localDelta st"
    if "(job, ph) \<in> set jobs'" for job ph
  proof -
    have "job \<in> fst ` set jobs'" using that by (rule rev_image_eqI) simp
    moreover have "fst ` set jobs' = fst ` set jobs" using arg_cong [OF same, of set] by simp
    ultimately have "job \<in> fst ` set jobs" by simp
    then obtain ph' where "(job, ph') \<in> set jobs" by auto
    then show ?thesis by (rule marks_ok_job [OF ok])
  qed
qed

lemma job_not_due:
  assumes "marks_ok m jobs" and "k \<in> (pf_redisKey \<circ> fst) ` set jobs" and "go_get m k = Some st"
  shows "\<not> due st"
proof -
  obtain job ph where "(job, ph) \<in> set jobs" "k = pf_redisKey job" using assms(2) by auto
  then show ?thesis using marks_ok_job [OF assms(1), of job ph] assms(3) by (auto simp: due_def)
qed

lemma marks_ok_snapshot:
  assumes ok: "marks_ok m jobs"
  shows "marks_ok (snapshot_marks m) (map (\<lambda>job. (job, Unsent)) (snapshot_jobs m) @ jobs)" (is "marks_ok _ ?jobs")
proof (rule marks_okI)
  have wf: "wf_map m" using ok by (simp add: marks_ok_def)
  show "wf_map (snapshot_marks m)" using wf by simp
  have new: "map (pf_redisKey \<circ> fst) (map (\<lambda>job. (job, Unsent)) (snapshot_jobs m)) = map pf_redisKey (snapshot_jobs m)" by simp
  have "distinct (map pf_redisKey (snapshot_jobs m))"
    unfolding snapshot_jobs_keys using wf_map_filter [OF wf] by (simp add: wf_map_def)
  moreover have "distinct (map (pf_redisKey \<circ> fst) jobs)" using ok by (simp add: marks_ok_def)
  moreover have disj: "pf_redisKey ` set (snapshot_jobs m) \<inter> (pf_redisKey \<circ> fst) ` set jobs = {}"
    by (rule equals0I) (metis IntE job_not_due [OF ok] snapshot_key_iff [OF wf])
  ultimately show "distinct (map (pf_redisKey \<circ> fst) ?jobs)" by (simp add: image_image o_def)
  have keys: "(pf_redisKey \<circ> fst) ` set ?jobs = pf_redisKey ` set (snapshot_jobs m) \<union> (pf_redisKey \<circ> fst) ` set jobs"
    by (simp add: image_Un image_image)
  show "0 \<le> ws_localDelta st \<and> ws_localDelta st \<le> max_int64 \<and> (k \<notin> (pf_redisKey \<circ> fst) ` set ?jobs \<longrightarrow> ws_flushDelta st = 0)"
    if st: "go_get (snapshot_marks m) k = Some st" for k st
  proof -
    obtain st0 where st0: "go_get m k = Some st0" "st = mark_window st0" using st by (auto simp: snapshot_marks_get)
    then have "ws_flushDelta st = ws_flushDelta st0" if "k \<notin> pf_redisKey ` set (snapshot_jobs m)"
      using that snapshot_key_iff [OF wf, of k] by (auto simp: mark_window_def)
    then show ?thesis unfolding keys using st0(2) marks_ok_window [OF ok st0(1)] by auto
  qed
  show "\<exists>st. go_get (snapshot_marks m) (pf_redisKey job) = Some st \<and> 0 < pf_delta job \<and> ws_flushDelta st = pf_delta job \<and> pf_delta job \<le> ws_localDelta st"
    if job: "(job, ph) \<in> set ?jobs" for job ph
  proof (cases "(job, ph) \<in> set jobs")
    case True
    obtain st where st: "go_get m (pf_redisKey job) = Some st" "0 < pf_delta job" "ws_flushDelta st = pf_delta job" "pf_delta job \<le> ws_localDelta st"
      using marks_ok_job [OF ok True] by blast
    moreover have "mark_window st = st" using st by (simp add: mark_window_def due_def)
    ultimately show ?thesis by (simp add: snapshot_marks_get)
  next
    case False
    then have "job \<in> set (snapshot_jobs m)" using job by auto
    then show ?thesis by (auto simp: snapshot_jobs_iff [OF wf] snapshot_marks_get mark_window_def due_def)
  qed
qed

lemma marks_ok_finish:
  assumes ok: "marks_ok m (ys @ (job, ph) # zs)"
    and st': "ws_flushDelta st' = 0" "0 \<le> ws_localDelta st'" "ws_localDelta st' \<le> max_int64"
  shows "marks_ok (go_set (pf_redisKey job) st' m) (ys @ zs)"
proof (rule marks_okI)
  show "wf_map (go_set (pf_redisKey job) st' m)" using ok by (simp add: marks_ok_def)
  have d: "distinct (map (pf_redisKey \<circ> fst) (ys @ (job, ph) # zs))" using ok by (simp add: marks_ok_def)
  then show "distinct (map (pf_redisKey \<circ> fst) (ys @ zs))" by simp
  have other: "pf_redisKey j \<noteq> pf_redisKey job" if "(j, p) \<in> set (ys @ zs)" for j p 
  proof -
    have "pf_redisKey job \<notin> (pf_redisKey \<circ> fst) ` set (ys @ zs)" using d by auto
    moreover have "pf_redisKey j \<in> (pf_redisKey \<circ> fst) ` set (ys @ zs)" by (rule rev_image_eqI [OF that]) simp
    ultimately show ?thesis by metis
  qed
  show "0 \<le> ws_localDelta st \<and> ws_localDelta st \<le> max_int64 \<and> (k \<notin> (pf_redisKey \<circ> fst) ` set (ys @ zs) \<longrightarrow> ws_flushDelta st = 0)"
    if "go_get (go_set (pf_redisKey job) st' m) k = Some st" for k st
    using that st' marks_ok_window [OF ok, of k st] by (cases "k = pf_redisKey job") (auto simp: update_conv)
  show "\<exists>st. go_get (go_set (pf_redisKey job) st' m) (pf_redisKey j) = Some st \<and> 0 < pf_delta j \<and> ws_flushDelta st = pf_delta j \<and> pf_delta j \<le> ws_localDelta st"
    if "(j, p) \<in> set (ys @ zs)" for j p
    using marks_ok_job [OF ok, of j p] that other [OF that] by (auto simp: update_conv)
qed

lemma marks_ok_sweep:
  assumes ok: "marks_ok m jobs"
  shows "marks_ok (filter (\<lambda>(k, st). \<not> expired_window t st) m) jobs"
proof (rule marks_okI)
  have wf: "wf_map m" using ok by (simp add: marks_ok_def)
  show "wf_map (filter (\<lambda>(k, st). \<not> expired_window t st) m)" using wf by simp
  show "distinct (map (pf_redisKey \<circ> fst) jobs)" using ok by (simp add: marks_ok_def)
  show "0 \<le> ws_localDelta st \<and> ws_localDelta st \<le> max_int64 \<and> (k \<notin> (pf_redisKey \<circ> fst) ` set jobs \<longrightarrow> ws_flushDelta st = 0)"
    if "go_get (filter (\<lambda>(k, st). \<not> expired_window t st) m) k = Some st" for k st
    using that marks_ok_window [OF ok, of k st] by (auto simp: go_get_filter [OF wf] split: option.splits if_splits)
  show "\<exists>st. go_get (filter (\<lambda>(k, st). \<not> expired_window t st) m) (pf_redisKey j) = Some st \<and> 0 < pf_delta j \<and> ws_flushDelta st = pf_delta j \<and> pf_delta j \<le> ws_localDelta st"
    if "(j, p) \<in> set jobs" for j p
    using marks_ok_job [OF ok that] by (auto simp: go_get_filter [OF wf] expired_window_def)
qed

section \<open>Every step keeps the balance\<close>

lemma credit_split: "sum_list (map (job_credit k) (ys @ p # zs)) = sum_list (map (job_credit k) ys) + job_credit k p + sum_list (map (job_credit k) zs)"
  by simp

lemma balanced_at:
  "balanced server0 s \<Longrightarrow> server0 k + fs_hits s k + fs_unseen s k =
     fs_server s k + buffered_hits (lm_windows (fs_lim s)) k - answered_credit s k + fs_dropped s k"
  by (simp add: balanced_def)

lemma balancedI:
  "(\<And>k. server0 k + fs_hits s k + fs_unseen s k =
     fs_server s k + buffered_hits (lm_windows (fs_lim s)) k - answered_credit s k + fs_dropped s k) \<Longrightarrow> balanced server0 s"
  by (simp add: balanced_def)

lemma balanced_lim:
  assumes "balanced server0 s" and "buffered_hits (lm_windows l') = buffered_hits (lm_windows (fs_lim s))"
  shows "balanced server0 (s\<lparr>fs_lim := l'\<rparr>)"
  using assms by (simp add: balanced_def answered_credit_def)

lemma snapshot_hits: "buffered_hits (snapshot_marks m) = buffered_hits m"
  by (auto simp: buffered_hits_def fun_eq_iff snapshot_marks_get split: option.splits)

lemma sweep_hits: "wf_map m \<Longrightarrow> buffered_hits (filter (\<lambda>(k, st). \<not> expired_window t st) m) = buffered_hits m"
  by (auto simp: buffered_hits_def fun_eq_iff go_get_filter expired_window_def split: option.splits)

lemma put_same_hits: "ws_localDelta st = buffered_hits m k \<Longrightarrow> buffered_hits (go_set k st m) = buffered_hits m"
  by (auto simp: buffered_hits_set fun_eq_iff)

lemma applyGet_marks:
  assumes ok: "marks_ok m jobs" and m: "m = lm_windows l" and got: "applyGetLocked k known x l = (st, l')"
  shows "marks_ok (lm_windows l') jobs \<and> buffered_hits (lm_windows l') = buffered_hits m"
proof -
  have l': "lm_windows l' = go_set k st m" using got m by (auto simp: applyGetLocked_def Let_def)
  show ?thesis
  proof (cases "go_get m k")
    case None
    then have "ws_localDelta st = 0 \<and> ws_flushDelta st = 0" using got m by (auto simp: applyGetLocked_def Let_def)
    then show ?thesis unfolding l' using None marks_ok_put [OF ok, of k st st] put_same_hits [of st m k]
      by (simp add: buffered_hits_def max_int64_def)
  next
    case (Some s)
    then have "ws_localDelta st = ws_localDelta s \<and> ws_flushDelta st = ws_flushDelta s"
      using got m by (auto simp: applyGetLocked_def Let_def later_expiry_def split: if_splits)
    then show ?thesis unfolding l' using Some marks_ok_put [OF ok, of k s st] marks_ok_window [OF ok Some] put_same_hits [of st m k]
      by (simp add: buffered_hits_def)
  qed
qed

lemma finish_marks:
  assumes ok: "marks_ok (lm_windows l) (ys @ (job, Answered r) # zs)"
  shows "marks_ok (lm_windows (finish_job job r t l)) (ys @ zs)
    \<and> buffered_hits (lm_windows (finish_job job r t l)) k = buffered_hits (lm_windows l) k - job_credit k (job, Answered r)"
proof -
  obtain st where st: "go_get (lm_windows l) (pf_redisKey job) = Some st" "0 < pf_delta job" "pf_delta job \<le> ws_localDelta st"
    using marks_ok_job [OF ok, of job "Answered r"] by auto
  have b: "ws_localDelta st \<le> max_int64" "0 \<le> ws_localDelta st" using marks_ok_window [OF ok st(1)] by simp_all
  then have w: "wrap64 (ws_localDelta st - pf_delta job) = ws_localDelta st - pf_delta job"
    using st(2,3) by (intro wrap64_id) (simp add: is_int64_def max_int64_def)
  show ?thesis
  proof (cases r)
    case (Inl e)
    have "marks_ok (go_set (pf_redisKey job) (st\<lparr>ws_flushDelta := 0\<rparr>) (lm_windows l)) (ys @ zs)"
      using b by (intro marks_ok_finish [OF ok]) simp_all
    then show ?thesis using Inl st(1) by (simp add: finish_job_def buffered_hits_set) (simp add: buffered_hits_def)
  next
    case (Inr n)
    let ?st = "st\<lparr>ws_redisKnown := n, ws_localDelta := ws_localDelta st - pf_delta job, ws_flushDelta := 0\<rparr>"
    have "marks_ok (go_set (pf_redisKey job) ?st (lm_windows l)) (ys @ zs)"
      using b st(2,3) by (intro marks_ok_finish [OF ok]) simp_all
    then show ?thesis using Inr st(1) w by (simp add: finish_job_def buffered_hits_set) (simp add: buffered_hits_def)
  qed
qed

text \<open>
  The server's part: it adds the delta or not, and the answer is a number or an error. A number credits the job, an
  error after an addition counts as unseen.
\<close>

lemma answer_safe:
  assumes job: "job_at i job Unsent s" and safe: "flush_safe server0 s"
    and credit: "\<And>k. job_credit k (job, ph) + unseen k = (if k = pf_redisKey job then d else 0)"
    and s': "s' = s\<lparr>fs_server := add_at (pf_redisKey job) d (fs_server s), fs_jobs := (fs_jobs s)[i := (job, ph)],
      fs_unseen := (\<lambda>k. fs_unseen s k + unseen k)\<rparr>"
  shows "flush_safe server0 s'"
proof -
  obtain ys zs where sp: "fs_jobs s = ys @ (job, Unsent) # zs" "\<forall>p. (fs_jobs s)[i := p] = ys @ p # zs"
    using job_at_split [OF job] by blast
  have bal: "balanced server0 s" and ok: "marks_ok (lm_windows (fs_lim s)) (fs_jobs s)" using safe by (simp_all add: flush_safe_def)
  have jobs: "fs_jobs s' = ys @ (job, ph) # zs" using s' sp(2) by simp
  have cr: "answered_credit s' k = answered_credit s k + job_credit k (job, ph)" for k
    unfolding answered_credit_def jobs sp(1) by simp
  have "balanced server0 s'"
    apply (rule balancedI)
    subgoal for k using balanced_at [OF bal, of k] credit [of k] cr [of k] s' by (cases "k = pf_redisKey job") (simp_all add: add_at_def)
    done
  moreover have "marks_ok (lm_windows (fs_lim s)) (ys @ (job, ph) # zs)" by (rule marks_ok_same [OF ok]) (simp add: sp(1))
  ultimately show ?thesis using jobs s' by (simp add: flush_safe_def)
qed

lemma add_at_simps: "add_at k 0 f = f" "(\<lambda>j. f j + (if j = k then d else 0)) = add_at k d f" "(\<lambda>j. f j + 0) = (f :: string \<Rightarrow> int)"
  by (auto simp: add_at_def)

lemma fstep_safe: "fstep s s' \<Longrightarrow> flush_safe server0 s \<Longrightarrow> flush_safe server0 s'"
proof (induction rule: fstep.induct)
  case (seed k known x s st l' t)
  then show ?case using applyGet_marks [OF _ refl seed(1)] by (auto simp: flush_safe_def intro!: balanced_lim)
next
  case (expiry s k st x)
  let ?m = "lm_windows (fs_lim s)"
  have ok: "marks_ok ?m (fs_jobs s)" using expiry(2) by (simp add: flush_safe_def)
  have "marks_ok (go_set k (later_expiry x st) ?m) (fs_jobs s)"
    using expiry(1) marks_ok_window [OF ok expiry(1)] by (intro marks_ok_put [OF ok, where st = st]) (auto simp: later_expiry_def)
  then show ?case using expiry by (auto simp: flush_safe_def buffered_hits_def intro!: balanced_lim put_same_hits)
next
  case (hold s k st)
  then show ?case by (simp add: flush_safe_def balanced_def answered_credit_def)
next
  case (give_up k s)
  then show ?case by (simp add: flush_safe_def balanced_def answered_credit_def)
next
  case (bump k s st)
  let ?m = "lm_windows (fs_lim s)" and ?s = "s\<lparr>fs_lim := bump_window k st (fs_lim s), fs_holding := remove1 k (fs_holding s), fs_hits := add_at k 1 (fs_hits s)\<rparr>"
  have ok: "marks_ok ?m (fs_jobs s)" using bump(4) by (simp add: flush_safe_def)
  have w: "wrap64 (ws_localDelta st + 1) = ws_localDelta st + 1"
    using marks_ok_window [OF ok bump(2)] bump(3) by (intro wrap64_id) (simp add: is_int64_def max_int64_def)
  have "marks_ok (go_set k (st\<lparr>ws_localDelta := ws_localDelta st + 1\<rparr>) ?m) (fs_jobs s)"
    using bump(2,3) by (intro marks_ok_put [OF ok]) auto
  moreover have "buffered_hits ?m k = ws_localDelta st" using bump(2) by (simp add: buffered_hits_def)
  moreover have "balanced server0 s" using bump(4) by (simp add: flush_safe_def)
  note bal = balanced_at [OF this]
  have "balanced server0 ?s"
    apply (rule balancedI)
    subgoal for j using bal [of j] calculation(2) w by (cases "j = k") (simp_all add: bump_window_def buffered_hits_set add_at_def answered_credit_def)
    done
  ultimately show ?case using w by (simp add: flush_safe_def bump_window_def)
next
  case (bump_detached k s)
  let ?s = "s\<lparr>fs_detached := remove1 k (fs_detached s), fs_hits := add_at k 1 (fs_hits s), fs_dropped := add_at k 1 (fs_dropped s)\<rparr>"
  have "balanced server0 s" using bump_detached(2) by (simp add: flush_safe_def)
  note bal = balanced_at [OF this]
  have "balanced server0 ?s"
    apply (rule balancedI)
    subgoal for j using bal [of j] by (cases "j = k") (simp_all add: add_at_def answered_credit_def)
    done
  then show ?case using bump_detached(2) by (simp add: flush_safe_def)
next
  case (snapshot s)
  have "sum_list (map (job_credit k) (map (\<lambda>job. (job, Unsent)) js)) = 0" for k js by (induction js) simp_all
  then show ?case using snapshot marks_ok_snapshot
    by (simp add: flush_safe_def balanced_def snapshot_hits answered_credit_def)
next
  case (serve i job s n)
  show ?case by (rule answer_safe [OF serve(1,3), where unseen = "\<lambda>_. 0"]) (auto simp: add_at_simps)
next
  case (reply_lost i job s e)
  show ?case
    by (rule answer_safe [OF reply_lost(1,2), where unseen = "\<lambda>k. if k = pf_redisKey job then pf_delta job else 0"]) (auto simp: add_at_simps)
next
  case (not_served i job s e)
  show ?case by (rule answer_safe [OF not_served(1,2), where unseen = "\<lambda>_. 0" and d = 0]) (auto simp: add_at_simps)
next
  case (finish i job r s t)
  obtain ys zs where sp: "fs_jobs s = ys @ (job, Answered r) # zs" "remove_at i (fs_jobs s) = ys @ zs" using job_at_split [OF finish(1)] by blast
  have ok: "marks_ok (lm_windows (fs_lim s)) (ys @ (job, Answered r) # zs)" using finish(2) sp by (simp add: flush_safe_def)
  show ?case using finish(2) sp finish_marks [OF ok, of t] by (simp add: flush_safe_def balanced_def answered_credit_def)
next
  case (sweep l' t s gone)
  have "wf_map (lm_windows (fs_lim s))" using sweep(3) by (simp add: flush_safe_def marks_ok_def)
  then show ?case using sweep(1,3) marks_ok_sweep
    by (simp add: flush_safe_def balanced_def sweep_windows_def sweep_hits answered_credit_def)
next
  case (outside l' s)
  then show ?case by (simp add: flush_safe_def balanced_def answered_credit_def)
qed

lemma fsteps_safe: "fstep\<^sup>*\<^sup>* s s' \<Longrightarrow> flush_safe server0 s \<Longrightarrow> flush_safe server0 s'"
  by (induction rule: rtranclp_induct) (auto intro: fstep_safe)

text \<open>
  C4: No hit is lost or counted twice. In every state that calls, flushes, GETs, sweeps and a server that
  may fail or lose replies can reach from a new limiter, in any order and number, the hits of a key are all accounted for: they are
  in the server or in the buffer and, between the server's reply and the end of a flush, in exactly one
  of the two. The only additions are flushes that the server executed and whose reply was lost, the only losses hits on
  a window that was swept as expired while a call was still using it. At most one flush of a window is under
  way, and once nothing is under way or buffered the server has every hit.
\<close>

theorem no_hit_lost_or_doubled:
  assumes "Limiter_New (Some cl) rate = Inr l" and "fstep\<^sup>*\<^sup>* (flush_start l server) s"
  shows "(\<forall>k. server k + fs_hits s k + fs_unseen s k =
        fs_server s k + buffered_hits (lm_windows (fs_lim s)) k - answered_credit s k + fs_dropped s k)
    \<and> distinct (job_keys s) \<and> (\<forall>k. 0 \<le> buffered_hits (lm_windows (fs_lim s)) k)
    \<and> (fs_jobs s = [] \<longrightarrow> (\<forall>k. buffered_hits (lm_windows (fs_lim s)) k = 0) \<longrightarrow>
         (\<forall>k. fs_server s k = server k + fs_hits s k + fs_unseen s k - fs_dropped s k))"
proof -
  have "lm_windows l = []" using assms(1) by (auto simp: Limiter_New_def Let_def startFlushLocked_def split: if_splits)
  then have "flush_safe server (flush_start l server)"
    by (simp add: flush_safe_def flush_start_def marks_ok_def balanced_def answered_credit_def buffered_hits_def)
  then have "flush_safe server s" by (rule fsteps_safe [OF assms(2)])
  then have bal: "balanced server s" and ok: "marks_ok (lm_windows (fs_lim s)) (fs_jobs s)" by (simp_all add: flush_safe_def)
  have "0 \<le> buffered_hits (lm_windows (fs_lim s)) k" for k using marks_ok_window [OF ok, of k] by (simp add: buffered_hits_def split: option.splits)
  moreover have "fs_server s k = server k + fs_hits s k + fs_unseen s k - fs_dropped s k"
    if "fs_jobs s = []" "\<forall>k. buffered_hits (lm_windows (fs_lim s)) k = 0" for k
    using bal [unfolded balanced_def, THEN spec [of _ k]] that by (simp add: answered_credit_def)
  ultimately show ?thesis using bal ok by (simp add: balanced_def marks_ok_def job_keys_def)
qed

theorem no_hit_lost_or_doubled_witness:
  "\<exists>s. fstep\<^sup>*\<^sup>* (flush_start buffered_limiter (\<lambda>_. 7)) s \<and> fs_hits s ''k'' = 1
     \<and> fs_server s ''k'' + buffered_hits (lm_windows (fs_lim s)) ''k'' - answered_credit s ''k'' + fs_dropped s ''k'' = 8 + fs_unseen s ''k''"
proof -
  let ?s0 = "flush_start buffered_limiter (\<lambda>_. 7)"
  let ?l1 = "(put_window ''k'' \<lparr>ws_redisKnown = 7, ws_localDelta = 0, ws_expireAt = 9, ws_flushDelta = 0\<rparr> buffered_limiter)\<lparr>lm_lastRedisOK := 0\<rparr>"
  let ?s1 = "?s0\<lparr>fs_lim := ?l1\<rparr>"
  let ?s2 = "?s1\<lparr>fs_holding := [''k'']\<rparr>"
  let ?s3 = "?s2\<lparr>fs_lim := put_window ''k'' \<lparr>ws_redisKnown = 7, ws_localDelta = 1, ws_expireAt = 9, ws_flushDelta = 0\<rparr> ?l1,
    fs_holding := [], fs_hits := add_at ''k'' 1 (\<lambda>_. 0)\<rparr>"
  have "fstep ?s0 ?s1"
    by (rule fstep.seed [of "''k''" 7 9]) (simp add: applyGetLocked_def flush_start_def buffered_limiter_def Let_def)
  moreover have "fstep ?s1 ?s2"
    using fstep.hold [of ?s1 "''k''" "\<lparr>ws_redisKnown = 7, ws_localDelta = 0, ws_expireAt = 9, ws_flushDelta = 0\<rparr>"] by (simp add: flush_start_def update_conv)
  moreover have "fstep ?s2 ?s3"
    using fstep.bump [of "''k''" ?s2 "\<lparr>ws_redisKnown = 7, ws_localDelta = 0, ws_expireAt = 9, ws_flushDelta = 0\<rparr>"]
    by (simp add: flush_start_def bump_window_def max_int64_def update_conv is_int64_def)
  ultimately have run: "fstep\<^sup>*\<^sup>* ?s0 ?s3" by (meson converse_rtranclp_into_rtranclp rtranclp.rtrancl_refl)
  have hits: "fs_hits ?s3 ''k'' = 1" by (simp add: add_at_def)
  show ?thesis
    using no_hit_lost_or_doubled [OF buffered_limiter_New run, THEN conjunct1, THEN spec [of _ "''k''"]] run hits
    by (intro exI [of _ ?s3]) simp
qed

end
