(* ===== verification/Ticker.thy ===== *)
theory Ticker
  imports WindowCounter
begin

text \<open>
  The flush timer of \<open>src/windowcounter/limiter.go\<close>: \<open>Wake\<close>, \<open>Sleep\<close>, \<open>Close\<close>, the timer's callback
  \<open>flushAfterTick\<close> and the wait group, in every interleaving. The fields \<open>closed\<close>, \<open>stopping\<close> and the wait
  group's counter are those of the limiter; the timer field holds which timer it is, since a detached timer can still be
  running. The flushes that a tick, \<open>Sleep\<close> and \<open>Close\<close> do first are the steps of theory \<open>Flush\<close>.
\<close>

section \<open>Steps\<close>

text \<open>
  A call of \<open>stopFlushAndWait\<close> is about to enter, has detached a timer, waits for the wait group, or has been
  woken. A tick flushes, or has seen that it must not go on and is about to call \<open>Done\<close>.
\<close>

datatype stopper = Entering | Detached nat | WaitingBusy | Woken

datatype tick = Flushing | Leaving

record ticker =
  tk_lim :: Limiter
  tk_timer :: "nat option"
  tk_armed :: "nat list"
  tk_next :: nat
  tk_ticks :: "tick list"
  tk_stoppers :: "stopper list"

definition timer_set :: "nat option \<Rightarrow> ticker \<Rightarrow> ticker" where
  "timer_set t s = s\<lparr>tk_timer := t, tk_lim := (tk_lim s)\<lparr>lm_flushTimer := (t \<noteq> None)\<rparr>\<rparr>"

definition busy_add :: "int \<Rightarrow> ticker \<Rightarrow> ticker" where
  "busy_add n s = s\<lparr>tk_lim := (tk_lim s)\<lparr>lm_flushBusy := lm_flushBusy (tk_lim s) + n\<rparr>\<rparr>"

definition stopping_set :: "bool \<Rightarrow> ticker \<Rightarrow> ticker" where
  "stopping_set b s = s\<lparr>tk_lim := (tk_lim s)\<lparr>lm_stopping := b\<rparr>\<rparr>"

text \<open>\<open>time.AfterFunc\<close>, and the assignment of its timer.\<close>

definition arm :: "ticker \<Rightarrow> ticker" where
  "arm s = timer_set (Some (tk_next s)) (s\<lparr>tk_armed := tk_next s # tk_armed s, tk_next := Suc (tk_next s)\<rparr>)"

definition start_flush :: "ticker \<Rightarrow> ticker" where
  "start_flush s = (if tk_timer s \<noteq> None then s else arm (busy_add 1 s))"

definition Wake :: "ticker \<Rightarrow> ticker" where
  "Wake s = (if lm_closed (tk_lim s) \<or> lm_syncRate (tk_lim s) = 0 \<or> tk_timer s \<noteq> None \<or> lm_stopping (tk_lim s) then s else start_flush s)"

definition tick_stops :: "ticker \<Rightarrow> bool" where
  "tick_stops s \<longleftrightarrow> lm_closed (tk_lim s) \<or> lm_stopping (tk_lim s) \<or> tk_timer s = None"

text \<open>The first critical section of \<open>stopFlushAndWait\<close>, and \<open>Stop\<close> with the \<open>Done\<close> after it.\<close>

definition stop_enter :: "ticker \<Rightarrow> nat option \<times> ticker" where
  "stop_enter s =
     (case tk_timer s of
        None \<Rightarrow> (None, stopping_set False s)
      | Some t \<Rightarrow> (Some t, timer_set None (stopping_set True s)))"

definition stop_timer :: "nat \<Rightarrow> ticker \<Rightarrow> ticker" where
  "stop_timer t s = (if t \<in> set (tk_armed s) then busy_add (- 1) (s\<lparr>tk_armed := remove1 t (tk_armed s)\<rparr>) else s)"

definition close_mark :: "ticker \<Rightarrow> bool \<times> ticker" where
  "close_mark s = (if lm_closed (tk_lim s) then (False, s) else (True, s\<lparr>tk_lim := (tk_lim s)\<lparr>lm_closed := True\<rparr>\<rparr>))"

definition stopper_at :: "nat \<Rightarrow> stopper \<Rightarrow> ticker \<Rightarrow> bool" where
  "stopper_at i p s \<longleftrightarrow> i < length (tk_stoppers s) \<and> tk_stoppers s ! i = p"

definition stopper_goes :: "nat \<Rightarrow> stopper \<Rightarrow> ticker \<Rightarrow> ticker" where
  "stopper_goes i p s = s\<lparr>tk_stoppers := (tk_stoppers s)[i := p]\<rparr>"

definition stopper_ends :: "nat \<Rightarrow> ticker \<Rightarrow> ticker" where
  "stopper_ends i s = s\<lparr>tk_stoppers := take i (tk_stoppers s) @ drop (Suc i) (tk_stoppers s)\<rparr>"

inductive tstep :: "ticker \<Rightarrow> ticker \<Rightarrow> bool" where
  wake: "tstep s (Wake s)"
| fire: "t \<in> set (tk_armed s) \<Longrightarrow> tstep s (s\<lparr>tk_armed := remove1 t (tk_armed s), tk_ticks := Flushing # tk_ticks s\<rparr>)"
| rearm: "Flushing \<in> set (tk_ticks s) \<Longrightarrow> \<not> tick_stops s \<Longrightarrow> tstep s (arm (s\<lparr>tk_ticks := remove1 Flushing (tk_ticks s)\<rparr>))"
| leave: "Flushing \<in> set (tk_ticks s) \<Longrightarrow> tick_stops s \<Longrightarrow> tstep s (s\<lparr>tk_ticks := Leaving # remove1 Flushing (tk_ticks s)\<rparr>)"
| tick_done: "Leaving \<in> set (tk_ticks s) \<Longrightarrow> tstep s (busy_add (- 1) (s\<lparr>tk_ticks := remove1 Leaving (tk_ticks s)\<rparr>))"
| sleep: "tstep s (s\<lparr>tk_stoppers := Entering # tk_stoppers s\<rparr>)"
| close: "close_mark s = (True, s') \<Longrightarrow> tstep s (s'\<lparr>tk_stoppers := Entering # tk_stoppers s'\<rparr>)"
| nothing_to_stop: "stopper_at i Entering s \<Longrightarrow> stop_enter s = (None, s') \<Longrightarrow> tstep s (stopper_ends i s')"
| detach: "stopper_at i Entering s \<Longrightarrow> stop_enter s = (Some t, s') \<Longrightarrow> tstep s (stopper_goes i (Detached t) s')"
| stop: "stopper_at i (Detached t) s \<Longrightarrow> tstep s (stopper_goes i WaitingBusy (stop_timer t s))"
| waited: "stopper_at i WaitingBusy s \<Longrightarrow> lm_flushBusy (tk_lim s) = 0 \<Longrightarrow> tstep s (stopper_goes i Woken s)"
| resume: "stopper_at i Woken s \<Longrightarrow> tstep s (stopper_ends i (stopping_set False s))"

text \<open>A limiter from \<open>New\<close>: with a positive rate one timer is armed.\<close>

definition new_ticker :: "Limiter \<Rightarrow> ticker" where
  "new_ticker l =
     (let first = (if lm_flushTimer l then [0] else [])
      in \<lparr>tk_lim = l, tk_timer = (if lm_flushTimer l then Some 0 else None), tk_armed = first, tk_next = length first, tk_ticks = [], tk_stoppers = []\<rparr>)"

section \<open>The wait group counts the timers and the ticks\<close>

definition ticker_inv :: "ticker \<Rightarrow> bool" where
  "ticker_inv s \<longleftrightarrow> lm_flushBusy (tk_lim s) = int (length (tk_armed s)) + int (length (tk_ticks s))
     \<and> distinct (tk_armed s) \<and> (\<forall>t \<in> set (tk_armed s). t < tk_next s)
     \<and> lm_flushTimer (tk_lim s) = (tk_timer s \<noteq> None)"

lemma timer_set_fields [simp]:
  "tk_timer (timer_set t s) = t" "tk_armed (timer_set t s) = tk_armed s" "tk_next (timer_set t s) = tk_next s" "tk_ticks (timer_set t s) = tk_ticks s"
  "tk_stoppers (timer_set t s) = tk_stoppers s" "lm_flushBusy (tk_lim (timer_set t s)) = lm_flushBusy (tk_lim s)"
  "lm_stopping (tk_lim (timer_set t s)) = lm_stopping (tk_lim s)" "lm_closed (tk_lim (timer_set t s)) = lm_closed (tk_lim s)"
  "lm_flushTimer (tk_lim (timer_set t s)) = (t \<noteq> None)"
  by (simp_all add: timer_set_def)

lemma busy_add_fields [simp]:
  "tk_timer (busy_add n s) = tk_timer s" "tk_armed (busy_add n s) = tk_armed s" "tk_next (busy_add n s) = tk_next s" "tk_ticks (busy_add n s) = tk_ticks s"
  "tk_stoppers (busy_add n s) = tk_stoppers s" "lm_flushBusy (tk_lim (busy_add n s)) = lm_flushBusy (tk_lim s) + n"
  "lm_stopping (tk_lim (busy_add n s)) = lm_stopping (tk_lim s)" "lm_closed (tk_lim (busy_add n s)) = lm_closed (tk_lim s)"
  "lm_flushTimer (tk_lim (busy_add n s)) = lm_flushTimer (tk_lim s)"
  by (simp_all add: busy_add_def)

lemma stopping_set_fields [simp]:
  "tk_timer (stopping_set b s) = tk_timer s" "tk_armed (stopping_set b s) = tk_armed s" "tk_next (stopping_set b s) = tk_next s" "tk_ticks (stopping_set b s) = tk_ticks s"
  "tk_stoppers (stopping_set b s) = tk_stoppers s" "lm_flushBusy (tk_lim (stopping_set b s)) = lm_flushBusy (tk_lim s)"
  "lm_stopping (tk_lim (stopping_set b s)) = b" "lm_closed (tk_lim (stopping_set b s)) = lm_closed (tk_lim s)"
  "lm_flushTimer (tk_lim (stopping_set b s)) = lm_flushTimer (tk_lim s)"
  by (simp_all add: stopping_set_def)

lemma stopper_fields [simp]:
  "tk_timer (stopper_goes i p s) = tk_timer s" "tk_armed (stopper_goes i p s) = tk_armed s" "tk_next (stopper_goes i p s) = tk_next s"
  "tk_ticks (stopper_goes i p s) = tk_ticks s" "tk_lim (stopper_goes i p s) = tk_lim s" "tk_stoppers (stopper_goes i p s) = (tk_stoppers s)[i := p]"
  "tk_timer (stopper_ends i s) = tk_timer s" "tk_armed (stopper_ends i s) = tk_armed s" "tk_next (stopper_ends i s) = tk_next s"
  "tk_ticks (stopper_ends i s) = tk_ticks s" "tk_lim (stopper_ends i s) = tk_lim s"
  "tk_stoppers (stopper_ends i s) = take i (tk_stoppers s) @ drop (Suc i) (tk_stoppers s)"
  by (simp_all add: stopper_goes_def stopper_ends_def)

lemma arm_fields [simp]:
  "tk_timer (arm s) = Some (tk_next s)" "tk_armed (arm s) = tk_next s # tk_armed s" "tk_next (arm s) = Suc (tk_next s)" "tk_ticks (arm s) = tk_ticks s"
  "tk_stoppers (arm s) = tk_stoppers s" "lm_flushBusy (tk_lim (arm s)) = lm_flushBusy (tk_lim s)"
  "lm_stopping (tk_lim (arm s)) = lm_stopping (tk_lim s)" "lm_closed (tk_lim (arm s)) = lm_closed (tk_lim s)" "lm_flushTimer (tk_lim (arm s))"
  by (simp_all add: arm_def)

lemma ticker_inv_arm: "ticker_inv (busy_add (- 1) s) \<Longrightarrow> ticker_inv (arm s)"
  by (auto simp: ticker_inv_def)

lemma length_remove1_int: "x \<in> set xs \<Longrightarrow> int (length (remove1 x xs)) = int (length xs) - 1"
  by (induction xs) auto

lemma tstep_inv: "tstep s s' \<Longrightarrow> ticker_inv s \<Longrightarrow> ticker_inv s'"
proof (induction rule: tstep.induct)
  case (wake s)
  then show ?case by (auto simp: Wake_def start_flush_def ticker_inv_def)
next
  case (fire t s)
  then show ?case by (auto simp: ticker_inv_def length_remove1_int distinct_remove1 dest: notin_set_remove1 intro: in_set_remove1)
next
  case (rearm s)
  then show ?case by (intro ticker_inv_arm) (simp add: ticker_inv_def length_remove1_int)
next
  case (leave s)
  then show ?case by (simp add: ticker_inv_def length_remove1_int)
next
  case (tick_done s)
  then show ?case by (simp add: ticker_inv_def length_remove1_int)
next
  case (stop i t s)
  then show ?case by (auto simp: ticker_inv_def stop_timer_def length_remove1_int distinct_remove1 dest: notin_set_remove1)
qed (auto simp: ticker_inv_def close_mark_def stop_enter_def split: if_splits option.splits)

lemma tsteps_inv: "tstep\<^sup>*\<^sup>* s s' \<Longrightarrow> ticker_inv s \<Longrightarrow> ticker_inv s'"
  by (induction rule: rtranclp_induct) (auto intro: tstep_inv)

lemma new_ticker_inv:
  assumes "Limiter_New (Some cl) rate = Inr l"
  shows "ticker_inv (new_ticker l)" and "tk_stoppers (new_ticker l) = []" and "\<not> lm_stopping l" and "\<not> lm_closed l"
  using assms by (auto simp: Limiter_New_def Let_def startFlushLocked_def ticker_inv_def new_ticker_def split: if_splits)

section \<open>One stop at a time\<close>

text \<open>Runs in which no \<open>Sleep\<close> or \<open>Close\<close> starts while another is in progress.\<close>

definition lone_step :: "ticker \<Rightarrow> ticker \<Rightarrow> bool" where
  "lone_step s s' \<longleftrightarrow> tstep s s' \<and> length (tk_stoppers s') \<le> 1"

definition chain :: "ticker \<Rightarrow> nat" where
  "chain s = length (tk_armed s) + length (tk_ticks s)"

text \<open>
  The one chain of ticks: with no stop under way there is a timer or a tick exactly when the timer field is set; a stop that
  has detached the timer leaves at most the tick that was running.
\<close>

fun stop_phase :: "stopper list \<Rightarrow> ticker \<Rightarrow> bool" where
  "stop_phase [] s = (\<not> lm_stopping (tk_lim s) \<and> (tk_timer s = None \<longrightarrow> chain s = 0) \<and> (lm_closed (tk_lim s) \<longrightarrow> tk_timer s = None)
     \<and> set (tk_armed s) \<subseteq> set_option (tk_timer s) \<and> (tk_timer s \<noteq> None \<longrightarrow> chain s = 1 \<and> Leaving \<notin> set (tk_ticks s)))"
| "stop_phase [Entering] s = (\<not> lm_stopping (tk_lim s) \<and> (tk_timer s = None \<longrightarrow> chain s = 0) \<and> set (tk_armed s) \<subseteq> set_option (tk_timer s)
     \<and> (tk_timer s \<noteq> None \<longrightarrow> \<not> lm_closed (tk_lim s) \<longrightarrow> chain s = 1 \<and> Leaving \<notin> set (tk_ticks s)))"
| "stop_phase [Detached t] s = (lm_stopping (tk_lim s) \<and> tk_timer s = None \<and> set (tk_armed s) \<subseteq> {t})"
| "stop_phase [WaitingBusy] s = (lm_stopping (tk_lim s) \<and> tk_timer s = None \<and> tk_armed s = [])"
| "stop_phase [Woken] s = (lm_stopping (tk_lim s) \<and> tk_timer s = None \<and> chain s = 0)"
| "stop_phase _ s = False"

definition one_chain :: "ticker \<Rightarrow> bool" where
  "one_chain s \<longleftrightarrow> chain s \<le> 1 \<and> stop_phase (tk_stoppers s) s"

lemma stop_phase_cases:
  assumes "stop_phase ps s"
  obtains "ps = []" | "ps = [Entering]" | t where "ps = [Detached t]" | "ps = [WaitingBusy]" | "ps = [Woken]"
  using assms by (cases "(ps, s)" rule: stop_phase.cases) auto

text \<open>Facts of the small states: with at most one timer or tick, taking one away leaves nothing.\<close>

lemma chain_one_tick: "chain s \<le> 1 \<Longrightarrow> x \<in> set (tk_ticks s) \<Longrightarrow> tk_ticks s = [x] \<and> tk_armed s = []"
  by (cases "tk_ticks s") (auto simp: chain_def)

lemma chain_one_timer: "chain s \<le> 1 \<Longrightarrow> t \<in> set (tk_armed s) \<Longrightarrow> tk_armed s = [t] \<and> tk_ticks s = []"
  by (cases "tk_armed s") (auto simp: chain_def)

lemma one_stopper: "stopper_at i p s \<Longrightarrow> stop_phase (tk_stoppers s) s \<Longrightarrow> i = 0 \<and> tk_stoppers s = [p]"
  by (erule stop_phase_cases) (auto simp: stopper_at_def)

lemma one_chain_phase:
  assumes "one_chain s"
  obtains "tk_stoppers s = []" | "tk_stoppers s = [Entering]" | t where "tk_stoppers s = [Detached t]"
  | "tk_stoppers s = [WaitingBusy]" | "tk_stoppers s = [Woken]"
  using assms stop_phase_cases [of "tk_stoppers s" s] by (auto simp: one_chain_def)

lemma lone_step_chain:
  assumes "tstep s s'" and "length (tk_stoppers s') \<le> 1" and "ticker_inv s" and "one_chain s"
  shows "one_chain s'"
  using assms
proof (induction rule: tstep.induct)
  case (wake s)
  then show ?case
    by (cases rule: one_chain_phase [OF wake(3)]) (auto simp: Wake_def start_flush_def one_chain_def chain_def split: if_splits)
next
  case (fire t s)
  then have "tk_armed s = [t] \<and> tk_ticks s = []" by (intro chain_one_timer) (simp_all add: one_chain_def)
  with fire show ?case by (cases rule: one_chain_phase [OF fire(4)]) (auto simp: one_chain_def chain_def)
next
  case (rearm s)
  then have "tk_ticks s = [Flushing] \<and> tk_armed s = []" by (intro chain_one_tick) (simp_all add: one_chain_def)
  with rearm show ?case by (cases rule: one_chain_phase [OF rearm(5)]) (auto simp: one_chain_def chain_def tick_stops_def)
next
  case (leave s)
  then have "tk_ticks s = [Flushing] \<and> tk_armed s = []" by (intro chain_one_tick) (simp_all add: one_chain_def)
  with leave show ?case by (cases rule: one_chain_phase [OF leave(5)]) (auto simp: one_chain_def chain_def tick_stops_def)
next
  case (tick_done s)
  then have "tk_ticks s = [Leaving] \<and> tk_armed s = []" by (intro chain_one_tick) (simp_all add: one_chain_def)
  with tick_done show ?case by (cases rule: one_chain_phase [OF tick_done(4)]) (auto simp: one_chain_def chain_def)
next
  case (sleep s)
  then show ?case by (cases rule: one_chain_phase [OF sleep(3)]) (auto simp: one_chain_def chain_def)
next
  case (close s s')
  then show ?case by (cases rule: one_chain_phase [OF close(4)]) (auto simp: one_chain_def chain_def close_mark_def split: if_splits)
next
  case (nothing_to_stop i s s')
  then have "i = 0 \<and> tk_stoppers s = [Entering]" by (intro one_stopper) (simp_all add: one_chain_def)
  with nothing_to_stop show ?case by (auto simp: one_chain_def chain_def stop_enter_def split: option.splits)
next
  case (detach i s t s')
  then have "i = 0 \<and> tk_stoppers s = [Entering]" by (intro one_stopper) (simp_all add: one_chain_def)
  with detach show ?case by (auto simp: one_chain_def chain_def stop_enter_def split: option.splits)
next
  case (stop i t s)
  then have i: "i = 0 \<and> tk_stoppers s = [Detached t]" by (intro one_stopper) (simp_all add: one_chain_def)
  show ?case
  proof (cases "t \<in> set (tk_armed s)")
    case True
    then have "tk_armed s = [t] \<and> tk_ticks s = []" using stop by (intro chain_one_timer) (simp_all add: one_chain_def)
    with i stop show ?thesis by (simp add: one_chain_def chain_def stop_timer_def)
  next
    case False
    then have "tk_armed s = []" using i stop by (cases "tk_armed s") (auto simp: one_chain_def)
    with i stop show ?thesis by (simp add: one_chain_def chain_def stop_timer_def)
  qed
next
  case (waited i s)
  then have "i = 0 \<and> tk_stoppers s = [WaitingBusy]" by (intro one_stopper) (simp_all add: one_chain_def)
  with waited show ?case by (simp add: one_chain_def chain_def ticker_inv_def)
next
  case (resume i s)
  then have "i = 0 \<and> tk_stoppers s = [Woken]" by (intro one_stopper) (simp_all add: one_chain_def)
  with resume show ?case by (simp add: one_chain_def chain_def)
qed

lemma lone_steps_chain: "lone_step\<^sup>*\<^sup>* s s' \<Longrightarrow> ticker_inv s \<Longrightarrow> one_chain s \<Longrightarrow> ticker_inv s' \<and> one_chain s'"
  by (induction rule: rtranclp_induct) (auto simp: lone_step_def intro: tstep_inv lone_step_chain)

lemma new_ticker_chain: "Limiter_New (Some cl) rate = Inr l \<Longrightarrow> one_chain (new_ticker l)"
  by (auto simp: Limiter_New_def Let_def startFlushLocked_def one_chain_def chain_def new_ticker_def split: if_splits)

section \<open>A lone stop ends\<close>

fun tick_rank :: "tick \<Rightarrow> nat" where
  "tick_rank Flushing = 2"
| "tick_rank Leaving = 1"

fun stop_rank :: "stopper \<Rightarrow> nat" where
  "stop_rank Entering = 4"
| "stop_rank (Detached _) = 3"
| "stop_rank WaitingBusy = 2"
| "stop_rank Woken = 1"

definition rank :: "ticker \<Rightarrow> nat" where
  "rank s = sum_list (map stop_rank (tk_stoppers s)) + sum_list (map tick_rank (tk_ticks s))"

lemma lone_progress:
  assumes "ticker_inv s" and "one_chain s" and "tk_stoppers s \<noteq> []"
  shows "\<exists>s'. lone_step s s' \<and> rank s' < rank s"
proof (cases rule: one_chain_phase [OF assms(2)])
  case 2
  have at: "stopper_at 0 Entering s" using 2 by (simp add: stopper_at_def)
  show ?thesis
  proof (cases "tk_timer s")
    case None
    then have "tstep s (stopper_ends 0 (stopping_set False s))" using tstep.nothing_to_stop [OF at] by (simp add: stop_enter_def)
    then show ?thesis using 2 by (auto simp: lone_step_def rank_def)
  next
    case (Some t)
    then have "tstep s (stopper_goes 0 (Detached t) (timer_set None (stopping_set True s)))" using tstep.detach [OF at] by (simp add: stop_enter_def)
    then show ?thesis using 2 by (auto simp: lone_step_def rank_def)
  qed
next
  case (3 t)
  then have "tstep s (stopper_goes 0 WaitingBusy (stop_timer t s))" by (intro tstep.stop) (simp add: stopper_at_def)
  then show ?thesis using 3 by (auto simp: lone_step_def rank_def stop_timer_def)
next
  case 4
  then have stops: "tick_stops s" using assms(2) by (simp add: tick_stops_def one_chain_def)
  show ?thesis
  proof (cases "tk_ticks s")
    case Nil
    then have "tstep s (stopper_goes 0 Woken s)" using assms(1,2) 4 by (intro tstep.waited) (simp_all add: stopper_at_def ticker_inv_def one_chain_def)
    then show ?thesis using 4 by (auto simp: lone_step_def rank_def)
  next
    case (Cons x xs)
    then have x: "tk_ticks s = [x]" using assms(2) by (simp add: one_chain_def chain_def)
    show ?thesis
    proof (cases x)
      case Flushing
      then have "tstep s (s\<lparr>tk_ticks := [Leaving]\<rparr>)" using tstep.leave [OF _ stops] x by simp
      then show ?thesis using 4 x Flushing by (auto simp: lone_step_def rank_def)
    next
      case Leaving
      then have "tstep s (busy_add (- 1) (s\<lparr>tk_ticks := []\<rparr>))" using tstep.tick_done [of s] x by simp
      then show ?thesis using 4 x Leaving by (auto simp: lone_step_def rank_def)
    qed
  qed
next
  case 5
  then have "tstep s (stopper_ends 0 (stopping_set False s))" by (intro tstep.resume) (simp add: stopper_at_def)
  then show ?thesis using 5 by (auto simp: lone_step_def rank_def)
qed (use assms(3) in simp)

lemma lone_stop_ends:
  "ticker_inv s \<Longrightarrow> one_chain s \<Longrightarrow> \<exists>s'. lone_step\<^sup>*\<^sup>* s s' \<and> tk_stoppers s' = []"
proof (induction "rank s" arbitrary: s rule: less_induct)
  case less
  show ?case
  proof (cases "tk_stoppers s = []")
    case False
    obtain s1 where s1: "lone_step s s1" "rank s1 < rank s" using lone_progress [OF less.prems False] by blast
    then have "ticker_inv s1" "one_chain s1" using lone_steps_chain [OF r_into_rtranclp [of lone_step, OF s1(1)] less.prems] by blast+
    from less.hyps [OF s1(2) this] show ?thesis using s1(1) by (meson converse_rtranclp_into_rtranclp)
  qed blast
qed

text \<open>
  C33: The flush timer starts and stops cleanly. In every interleaving of \<open>Wake\<close>, \<open>Sleep\<close>, \<open>Close\<close> and ticks on a
  new limiter the wait group counts exactly the armed timers and running ticks, so it is never negative, and a waiter gets
  through only when there are none. When no \<open>Sleep\<close> or \<open>Close\<close> starts while another is in progress there is never more than one
  of them, a stop in progress can always finish, and after \<open>Close\<close> no timer is armed, no tick runs and \<open>Wake\<close> does nothing.
\<close>

theorem ticker_starts_and_stops:
  assumes "Limiter_New (Some cl) rate = Inr l" and "tstep\<^sup>*\<^sup>* (new_ticker l) s"
  shows "lm_flushBusy (tk_lim s) = int (length (tk_armed s) + length (tk_ticks s))
    \<and> (lone_step\<^sup>*\<^sup>* (new_ticker l) s \<longrightarrow>
        length (tk_armed s) + length (tk_ticks s) \<le> 1
        \<and> (\<exists>s'. lone_step\<^sup>*\<^sup>* s s' \<and> tk_stoppers s' = [])
        \<and> (lm_closed (tk_lim s) \<and> tk_stoppers s = [] \<longrightarrow> tk_armed s = [] \<and> tk_ticks s = [] \<and> Wake s = s))"
proof -
  have "ticker_inv s" by (rule tsteps_inv [OF assms(2) new_ticker_inv(1) [OF assms(1)]])
  moreover have "ticker_inv s \<and> one_chain s" if "lone_step\<^sup>*\<^sup>* (new_ticker l) s"
    by (rule lone_steps_chain [OF that new_ticker_inv(1) [OF assms(1)] new_ticker_chain [OF assms(1)]])
  ultimately show ?thesis using lone_stop_ends [of s] by (auto simp: ticker_inv_def one_chain_def chain_def Wake_def)
qed

section \<open>Two stops at once\<close>

text \<open>The states of a run: whether it is stopping, the wait group, the timers, the ticks and the stops.\<close>

definition tick_at :: "bool \<Rightarrow> int \<Rightarrow> nat option \<Rightarrow> nat list \<Rightarrow> nat \<Rightarrow> tick list \<Rightarrow> stopper list \<Rightarrow> ticker" where
  "tick_at b n t armed nxt ts ps =
     \<lparr>tk_lim = buffered_limiter\<lparr>lm_stopping := b, lm_flushBusy := n, lm_flushTimer := (t \<noteq> None)\<rparr>, tk_timer = t, tk_armed = armed,
      tk_next = nxt, tk_ticks = ts, tk_stoppers = ps\<rparr>"

lemmas run_defs = tick_at_def buffered_limiter_def Wake_def start_flush_def arm_def busy_add_def timer_set_def stopping_set_def
  stop_enter_def stop_timer_def stopper_at_def stopper_goes_def stopper_ends_def tick_stops_def Second_def

text \<open>
  C34: A second stop undoes the first. While a \<open>Sleep\<close> waits for a running tick, another \<open>Sleep\<close> finds no timer and clears the
  stopping mark; a \<open>Wake\<close> then arms a new timer, and the tick, which no longer sees the mark, arms another. Two chains of ticks run,
  one of them under a timer that the limiter no longer knows, and the first \<open>Sleep\<close> still waits.
\<close>

theorem second_sleep_revives_ticker:
  "\<exists>s. Limiter_New (Some cl) Second = Inr buffered_limiter \<and> tstep\<^sup>*\<^sup>* (new_ticker buffered_limiter) s
     \<and> tk_stoppers s = [WaitingBusy] \<and> \<not> lm_stopping (tk_lim s) \<and> length (tk_armed s) = 2 \<and> lm_flushBusy (tk_lim s) = 2"
proof -
  let ?s0 = "tick_at False 1 (Some 0) [0] 1 [] []" and ?s1 = "tick_at False 1 (Some 0) [] 1 [Flushing] []"
    and ?s2 = "tick_at False 1 (Some 0) [] 1 [Flushing] [Entering]" and ?s3 = "tick_at True 1 None [] 1 [Flushing] [Detached 0]"
    and ?s4 = "tick_at True 1 None [] 1 [Flushing] [WaitingBusy]" and ?s5 = "tick_at True 1 None [] 1 [Flushing] [Entering, WaitingBusy]"
    and ?s6 = "tick_at False 1 None [] 1 [Flushing] [WaitingBusy]" and ?s7 = "tick_at False 2 (Some 1) [1] 2 [Flushing] [WaitingBusy]"
    and ?s8 = "tick_at False 2 (Some 2) [2, 1] 3 [] [WaitingBusy]"
  have start: "new_ticker buffered_limiter = ?s0" by (simp add: new_ticker_def run_defs)
  have "tstep ?s0 ?s1" using tstep.fire [of 0 ?s0] by (simp add: run_defs)
  moreover have "tstep ?s1 ?s2" using tstep.sleep [of ?s1] by (simp add: run_defs)
  moreover have "tstep ?s2 ?s3" using tstep.detach [of 0 ?s2 0] by (simp add: run_defs)
  moreover have "tstep ?s3 ?s4" using tstep.stop [of 0 0 ?s3] by (simp add: run_defs)
  moreover have "tstep ?s4 ?s5" using tstep.sleep [of ?s4] by (simp add: run_defs)
  moreover have "tstep ?s5 ?s6" using tstep.nothing_to_stop [of 0 ?s5] by (simp add: run_defs)
  moreover have "tstep ?s6 ?s7" using tstep.wake [of ?s6] by (simp add: run_defs eval_nat_numeral)
  moreover have "tstep ?s7 ?s8" using tstep.rearm [of ?s7] by (simp add: run_defs eval_nat_numeral)
  ultimately have "tstep\<^sup>*\<^sup>* ?s0 ?s8" by (meson converse_rtranclp_into_rtranclp rtranclp.rtrancl_refl)
  then show ?thesis unfolding start [symmetric] using buffered_limiter_New by (intro exI [of _ ?s8]) (simp add: tick_at_def)
qed

theorem ticker_starts_and_stops_witness:
  "\<exists>s. tstep\<^sup>*\<^sup>* (new_ticker buffered_limiter) s \<and> tk_ticks s = [Flushing] \<and> lm_flushBusy (tk_lim s) = 1"
proof -
  let ?s1 = "tick_at False 1 (Some 0) [] 1 [Flushing] []"
  have start: "new_ticker buffered_limiter = tick_at False 1 (Some 0) [0] 1 [] []" by (simp add: new_ticker_def run_defs)
  have "tstep (tick_at False 1 (Some 0) [0] 1 [] []) ?s1" using tstep.fire [of 0 "tick_at False 1 (Some 0) [0] 1 [] []"] by (simp add: run_defs)
  then have run: "tstep\<^sup>*\<^sup>* (new_ticker buffered_limiter) ?s1" unfolding start by blast
  then show ?thesis using ticker_starts_and_stops [OF buffered_limiter_New run] by (intro exI [of _ ?s1]) (simp add: tick_at_def)
qed

end
