(* ===== verification/Alias.thy ===== *)
theory Alias
  imports Resp
begin

text \<open>
  The data of the reclaim table (\<open>src/reclaim/table.go\<close>) and its public names
  (\<open>src/reclaim/alias.go\<close>). Slots and alias entries are Go objects that several fields point at, so the
  table carries a store of each, by address. Every operation here runs under the table's mutex.

  A value of type \<open>any\<close> is nil, a nil pointer of some type, a pointer, or something compared with \<open>==\<close>. A hook is
  there or not; what a call of it does is not the table's business, except whether it panics. A watcher's
  callback may not call back into the table, so a delivery is recorded and has no other effect.
\<close>

section \<open>The table's data\<close>

datatype any_value = NilValue | NilPtr string | Ptr nat | Plain string

record Hooks =
  hk_Sleep :: bool
  hk_Wake :: bool
  hk_Close :: bool
  hk_EnforceCloseBeforeOpen :: bool

datatype slotState = slotBusy | slotAwake | slotAsleep | slotGone

datatype reclaim_err =
  ErrNilTable | ErrNilLogger | ErrNilCreate | ErrUninitialized
| ErrCreate string | ErrCreatePanic string | ErrWakePanic string | ErrCtx ctx_err
| ErrWrongType | ErrNoMappedKey string string | ErrAliasHeld string string

text \<open>Channels and timers are numbers; a ready channel in \<open>tb_closed\<close> has been closed. A slot has at most one finished channel in
  its life: the field says whether it is not nil, and \<open>tb_ended\<close> lists the slots whose finished channel has been closed.\<close>

record slot =
  st_value :: any_value
  st_hooks :: Hooks
  st_createErr :: "reclaim_err option"
  st_state :: slotState
  st_holders :: int
  st_ready :: nat
  st_graceTimer :: "nat option"
  st_finished :: bool
  st_aliases :: "nat list"

record aliasWatcher =
  aw_id :: nat
  aw_changed :: bool
  aw_last :: any_value

record aliasEntry =
  ae_incarnation :: "nat option"
  ae_publisher :: string
  ae_group :: string
  ae_empty :: any_value
  ae_watchers :: "aliasWatcher list"

text \<open>An armed timer: its number, the key and the slot it will expire.\<close>

type_synonym grace_timer = "nat \<times> string \<times> nat"

record Table =
  tb_grace :: duration
  tb_init :: bool
  tb_items :: "(string, nat) gomap"
  tb_aliases :: "(string, nat) gomap"
  tb_slots :: "nat \<Rightarrow> slot"
  tb_nextSlot :: nat
  tb_entries :: "nat \<Rightarrow> aliasEntry"
  tb_nextEntry :: nat
  tb_closed :: "nat list"
  tb_ended :: "nat list"
  tb_nextChan :: nat
  tb_timers :: "grace_timer list"
  tb_nextTimer :: nat
  tb_delivered :: "(nat \<times> any_value) list"

definition DefaultGrace :: duration where
  "DefaultGrace = 10 * Second"

text \<open>Addresses that are not in use hold blank objects.\<close>

definition no_slot :: slot where
  "no_slot = \<lparr>st_value = NilValue, st_hooks = \<lparr>hk_Sleep = False, hk_Wake = False, hk_Close = False, hk_EnforceCloseBeforeOpen = False\<rparr>,
     st_createErr = None, st_state = slotGone, st_holders = 0, st_ready = 0, st_graceTimer = None, st_finished = False, st_aliases = []\<rparr>"

definition no_entry :: aliasEntry where
  "no_entry = \<lparr>ae_incarnation = None, ae_publisher = [], ae_group = [], ae_empty = NilValue, ae_watchers = []\<rparr>"

definition Table_New :: "duration \<Rightarrow> Table" where
  "Table_New grace =
     \<lparr>tb_grace = (if grace < 0 then DefaultGrace else grace), tb_init = True, tb_items = [], tb_aliases = [],
      tb_slots = (\<lambda>_. no_slot), tb_nextSlot = 0, tb_entries = (\<lambda>_. no_entry), tb_nextEntry = 0,
      tb_closed = [], tb_ended = [], tb_nextChan = 0, tb_timers = [], tb_nextTimer = 0, tb_delivered = []\<rparr>"

definition set_slot :: "nat \<Rightarrow> slot \<Rightarrow> Table \<Rightarrow> Table" where
  "set_slot a s t = t\<lparr>tb_slots := (tb_slots t)(a := s)\<rparr>"

definition set_entry :: "nat \<Rightarrow> aliasEntry \<Rightarrow> Table \<Rightarrow> Table" where
  "set_entry e x t = t\<lparr>tb_entries := (tb_entries t)(e := x)\<rparr>"

section \<open>Values and deliveries\<close>

definition isNilValue :: "any_value \<Rightarrow> bool" where
  "isNilValue v \<longleftrightarrow> (case v of NilValue \<Rightarrow> True | NilPtr _ \<Rightarrow> True | _ \<Rightarrow> False)"

definition sameValue :: "any_value \<Rightarrow> any_value \<Rightarrow> bool" where
  "sameValue l r \<longleftrightarrow>
     (if isNilValue l \<and> isNilValue r then True
      else if isNilValue l \<or> isNilValue r then False
      else case (l, r) of (Ptr p, Ptr q) \<Rightarrow> p = q | _ \<Rightarrow> l = r)"

text \<open>The watcher after the delivery, and the calls of \<open>changed\<close> it made.\<close>

definition deliverLocked :: "any_value \<Rightarrow> aliasWatcher \<Rightarrow> aliasWatcher \<times> (nat \<times> any_value) list" where
  "deliverLocked v w =
     (if sameValue (aw_last w) v then (w, [])
      else (w\<lparr>aw_last := v\<rparr>, if aw_changed w then [(aw_id w, v)] else []))"

definition storeWatchersLocked :: "nat \<Rightarrow> any_value \<Rightarrow> Table \<Rightarrow> Table" where
  "storeWatchersLocked e current t =
     (let entry = tb_entries t e;
          v = (if isNilValue current then ae_empty entry else current);
          out = map (deliverLocked v) (ae_watchers entry)
      in (set_entry e (entry\<lparr>ae_watchers := map fst out\<rparr>) t)\<lparr>tb_delivered := tb_delivered t @ concat (map snd out)\<rparr>)"

definition detachAliasLocked :: "nat \<Rightarrow> Table \<Rightarrow> Table" where
  "detachAliasLocked e t =
     (case ae_incarnation (tb_entries t e) of
        None \<Rightarrow> t
      | Some a \<Rightarrow>
          set_entry e ((tb_entries t e)\<lparr>ae_incarnation := None\<rparr>)
            (set_slot a ((tb_slots t a)\<lparr>st_aliases := filter (\<lambda>x. x \<noteq> e) (st_aliases (tb_slots t a))\<rparr>) t))"

definition release_name :: "nat \<Rightarrow> Table \<Rightarrow> Table" where
  "release_name e t = set_entry e ((tb_entries t e)\<lparr>ae_publisher := [], ae_group := []\<rparr>) t"

definition clearAliasLocked :: "nat \<Rightarrow> Table \<Rightarrow> Table" where
  "clearAliasLocked e t =
     (let t1 = release_name e (detachAliasLocked e t) in storeWatchersLocked e (ae_empty (tb_entries t1 e)) t1)"

definition unbind_entry :: "nat \<Rightarrow> Table \<Rightarrow> Table" where
  "unbind_entry e t =
     (let t1 = release_name e (set_entry e ((tb_entries t e)\<lparr>ae_incarnation := None\<rparr>) t)
      in storeWatchersLocked e (ae_empty (tb_entries t1 e)) t1)"

definition unbindIncarnationLocked :: "nat \<Rightarrow> Table \<Rightarrow> Table" where
  "unbindIncarnationLocked a t =
     fold unbind_entry (st_aliases (tb_slots t a)) (set_slot a ((tb_slots t a)\<lparr>st_aliases := []\<rparr>) t)"

section \<open>SetAlias, Watch and ClearPublisher\<close>

definition peekable :: "slotState \<Rightarrow> bool" where
  "peekable s \<longleftrightarrow> s = slotAwake \<or> s = slotAsleep"

text \<open>The entries other than one that a publisher holds in a group, in the order the map gives them.\<close>

definition held_entries :: "string \<Rightarrow> string \<Rightarrow> nat option \<Rightarrow> Table \<Rightarrow> nat list" where
  "held_entries publisher grp except t =
     filter (\<lambda>e. Some e \<noteq> except \<and> ae_publisher (tb_entries t e) = publisher \<and> ae_group (tb_entries t e) = grp) (map snd (tb_aliases t))"

definition name_entry :: "string \<Rightarrow> any_value \<Rightarrow> Table \<Rightarrow> nat \<times> Table" where
  "name_entry alias emp t =
     (case go_get (tb_aliases t) alias of
        Some e \<Rightarrow> (e, t)
      | None \<Rightarrow>
          (tb_nextEntry t,
           (set_entry (tb_nextEntry t)
              (no_entry\<lparr>ae_empty := emp\<rparr>) t)
             \<lparr>tb_aliases := go_set alias (tb_nextEntry t) (tb_aliases t), tb_nextEntry := Suc (tb_nextEntry t)\<rparr>))"

definition bind_entry :: "nat \<Rightarrow> nat \<Rightarrow> Table \<Rightarrow> Table" where
  "bind_entry e a t =
     (if ae_incarnation (tb_entries t e) = Some a then t
      else
        let t1 = detachAliasLocked e t;
            t2 = set_slot a ((tb_slots t1 a)\<lparr>st_aliases := st_aliases (tb_slots t1 a) @ [e]\<rparr>) t1
        in set_entry e ((tb_entries t2 e)\<lparr>ae_incarnation := Some a\<rparr>) t2)"

definition SetAlias :: "string \<Rightarrow> string \<Rightarrow> string \<Rightarrow> string \<Rightarrow> Table \<Rightarrow> reclaim_err option \<times> Table" where
  "SetAlias key alias publisher grp t =
     (if alias = [] \<or> key = [] then (None, t)
      else case go_get (tb_items t) key of
        None \<Rightarrow> (Some (ErrNoMappedKey alias key), t)
      | Some a \<Rightarrow>
          if \<not> peekable (st_state (tb_slots t a)) then (Some (ErrNoMappedKey alias key), t)
          else
            let holder = (case go_get (tb_aliases t) alias of None \<Rightarrow> [] | Some e \<Rightarrow> ae_publisher (tb_entries t e))
            in if holder \<noteq> [] \<and> holder \<noteq> publisher then (Some (ErrAliasHeld alias holder), t)
               else
                 let t1 = fold clearAliasLocked (held_entries publisher grp (go_get (tb_aliases t) alias) t) t
                 in case name_entry alias NilValue t1 of
                      (e, t2) \<Rightarrow>
                        let t3 = bind_entry e a t2;
                            t4 = set_entry e ((tb_entries t3 e)\<lparr>ae_publisher := publisher, ae_group := grp\<rparr>) t3
                        in (None, storeWatchersLocked e (st_value (tb_slots t4 a)) t4))"

text \<open>The value a name stands for.\<close>

definition current_value :: "nat \<Rightarrow> Table \<Rightarrow> any_value" where
  "current_value e t =
     (case ae_incarnation (tb_entries t e) of
        None \<Rightarrow> ae_empty (tb_entries t e)
      | Some a \<Rightarrow> if isNilValue (st_value (tb_slots t a)) then ae_empty (tb_entries t e) else st_value (tb_slots t a))"

definition stick_empty :: "nat \<Rightarrow> any_value \<Rightarrow> Table \<Rightarrow> Table" where
  "stick_empty e emp t =
     (if ae_empty (tb_entries t e) = NilValue \<and> emp \<noteq> NilValue then set_entry e ((tb_entries t e)\<lparr>ae_empty := emp\<rparr>) t else t)"

text \<open>\<open>Watch\<close> with the number of the new watcher; \<open>dropWatcher\<close> runs when its context is done.\<close>

definition Watch :: "string \<Rightarrow> any_value \<Rightarrow> bool \<Rightarrow> nat \<Rightarrow> Table \<Rightarrow> Table" where
  "Watch alias emp changed i t =
     (if alias = [] then t
      else case name_entry alias emp t of
        (e, t1) \<Rightarrow>
          let t2 = stick_empty e emp t1;
              out = deliverLocked (current_value e t2) \<lparr>aw_id = i, aw_changed = changed, aw_last = NilValue\<rparr>;
              entry = tb_entries t2 e
          in (set_entry e (entry\<lparr>ae_watchers := ae_watchers entry @ [fst out]\<rparr>) t2)\<lparr>tb_delivered := tb_delivered t2 @ snd out\<rparr>)"

definition dropWatcher :: "string \<Rightarrow> nat \<Rightarrow> Table \<Rightarrow> Table" where
  "dropWatcher alias i t =
     (if alias = [] then t
      else case go_get (tb_aliases t) alias of
        None \<Rightarrow> t
      | Some e \<Rightarrow> set_entry e ((tb_entries t e)\<lparr>ae_watchers := filter (\<lambda>w. aw_id w \<noteq> i) (ae_watchers (tb_entries t e))\<rparr>) t)"

definition ClearPublisher :: "string \<Rightarrow> string \<Rightarrow> Table \<Rightarrow> Table" where
  "ClearPublisher publisher grp t =
     (if publisher = [] \<or> grp = [] then t else fold clearAliasLocked (held_entries publisher grp None t) t)"

section \<open>Names, slots and watchers agree\<close>

lemma sameValue_iff: "sameValue l r \<longleftrightarrow> isNilValue l \<and> isNilValue r \<or> l = r"
  by (cases l; cases r) (auto simp: sameValue_def isNilValue_def)

lemma table_fields [simp]:
  "tb_slots (set_slot a s t) = (tb_slots t)(a := s)" "tb_entries (set_slot a s t) = tb_entries t" "tb_aliases (set_slot a s t) = tb_aliases t"
  "tb_items (set_slot a s t) = tb_items t" "tb_nextEntry (set_slot a s t) = tb_nextEntry t"
  "tb_slots (set_entry e x t) = tb_slots t" "tb_entries (set_entry e x t) = (tb_entries t)(e := x)" "tb_aliases (set_entry e x t) = tb_aliases t"
  "tb_items (set_entry e x t) = tb_items t" "tb_nextEntry (set_entry e x t) = tb_nextEntry t"
  by (simp_all add: set_slot_def set_entry_def)

text \<open>
  The forward link of an entry and the reverse links of the slots say the same; names have entries of their own.
\<close>

definition links_ok :: "Table \<Rightarrow> bool" where
  "links_ok t \<longleftrightarrow> (\<forall>e a. ae_incarnation (tb_entries t e) = Some a \<longleftrightarrow> e \<in> set (st_aliases (tb_slots t a)))
     \<and> (\<forall>a. distinct (st_aliases (tb_slots t a)))"

definition names_ok :: "Table \<Rightarrow> bool" where
  "names_ok t \<longleftrightarrow> wf_map (tb_aliases t) \<and> distinct (map snd (tb_aliases t)) \<and> (\<forall>e \<in> snd ` set (tb_aliases t). e < tb_nextEntry t)
     \<and> (\<forall>e \<ge> tb_nextEntry t. ae_incarnation (tb_entries t e) = None \<and> ae_watchers (tb_entries t e) = [])"

text \<open>
  What a watcher was told last is what the name stands for. The one exception: a watcher that has been told nothing is not
  told an empty value that a later \<open>Watch\<close> brought.
\<close>

definition told :: "any_value \<Rightarrow> any_value \<Rightarrow> aliasWatcher \<Rightarrow> bool" where
  "told emp v w \<longleftrightarrow> sameValue (aw_last w) v \<or> isNilValue (aw_last w) \<and> v = emp"

definition entry_told :: "nat \<Rightarrow> Table \<Rightarrow> bool" where
  "entry_told e t \<longleftrightarrow> (\<forall>w \<in> set (ae_watchers (tb_entries t e)). told (ae_empty (tb_entries t e)) (current_value e t) w)"

definition alias_inv :: "Table \<Rightarrow> bool" where
  "alias_inv t \<longleftrightarrow> links_ok t \<and> names_ok t \<and> (\<forall>e. entry_told e t)"

lemma deliver_told [simp]: "told emp v (fst (deliverLocked v w))"
  by (simp add: deliverLocked_def told_def sameValue_iff)

lemma deliver_id [simp]: "aw_id (fst (deliverLocked v w)) = aw_id w"
  by (simp add: deliverLocked_def)

lemma store_fields [simp]:
  "tb_slots (storeWatchersLocked e v t) = tb_slots t" "tb_aliases (storeWatchersLocked e v t) = tb_aliases t"
  "tb_items (storeWatchersLocked e v t) = tb_items t" "tb_nextEntry (storeWatchersLocked e v t) = tb_nextEntry t"
  "x \<noteq> e \<Longrightarrow> tb_entries (storeWatchersLocked e v t) x = tb_entries t x"
  "ae_incarnation (tb_entries (storeWatchersLocked e v t) x) = ae_incarnation (tb_entries t x)"
  "ae_publisher (tb_entries (storeWatchersLocked e v t) x) = ae_publisher (tb_entries t x)"
  "ae_group (tb_entries (storeWatchersLocked e v t) x) = ae_group (tb_entries t x)"
  "ae_empty (tb_entries (storeWatchersLocked e v t) x) = ae_empty (tb_entries t x)"
  by (simp_all add: storeWatchersLocked_def Let_def)

lemma store_watchers: "ae_watchers (tb_entries (storeWatchersLocked e v t) e) =
    map (\<lambda>w. fst (deliverLocked (if isNilValue v then ae_empty (tb_entries t e) else v) w)) (ae_watchers (tb_entries t e))"
  by (simp add: storeWatchersLocked_def Let_def)

lemma current_value_cong:
  "tb_slots t' = tb_slots t \<Longrightarrow> ae_incarnation (tb_entries t' e) = ae_incarnation (tb_entries t e) \<Longrightarrow>
     ae_empty (tb_entries t' e) = ae_empty (tb_entries t e) \<Longrightarrow> current_value e t' = current_value e t"
  by (simp add: current_value_def split: option.split)

lemma store_told:
  assumes "current_value e t = (if isNilValue v then ae_empty (tb_entries t e) else v)"
  shows "entry_told e (storeWatchersLocked e v t)"
proof -
  have "current_value e (storeWatchersLocked e v t) = (if isNilValue v then ae_empty (tb_entries t e) else v)"
    using assms current_value_cong [of "storeWatchersLocked e v t" t e] by simp
  then show ?thesis by (simp add: entry_told_def store_watchers)
qed

text \<open>An operation on one entry leaves what the others were told.\<close>

lemma other_told:
  assumes "tb_entries t' x = tb_entries t x" and "\<And>a. ae_incarnation (tb_entries t x) = Some a \<Longrightarrow> st_value (tb_slots t' a) = st_value (tb_slots t a)"
  shows "entry_told x t' = entry_told x t"
proof -
  have "current_value x t' = current_value x t" using assms by (simp add: current_value_def split: option.splits)
  then show ?thesis using assms(1) by (simp add: entry_told_def)
qed

lemma links_entry:
  assumes "links_ok t"
  shows "ae_incarnation (tb_entries t e) = Some a \<longleftrightarrow> e \<in> set (st_aliases (tb_slots t a))" and "distinct (st_aliases (tb_slots t a))"
  using assms by (simp_all add: links_ok_def)

lemma detach_entries:
  "tb_entries (detachAliasLocked e t) = (tb_entries t)(e := (tb_entries t e)\<lparr>ae_incarnation := None\<rparr>)"
  "tb_aliases (detachAliasLocked e t) = tb_aliases t" "tb_nextEntry (detachAliasLocked e t) = tb_nextEntry t" "tb_items (detachAliasLocked e t) = tb_items t"
  "st_value (tb_slots (detachAliasLocked e t) a) = st_value (tb_slots t a)"
  by (auto simp: detachAliasLocked_def fun_eq_iff split: option.splits)

lemma filter_absent: "e \<notin> set xs \<Longrightarrow> filter (\<lambda>x. x \<noteq> e) xs = xs"
  by (induction xs) auto

lemma detach_links:
  assumes "links_ok t"
  shows "st_aliases (tb_slots (detachAliasLocked e t) a) = filter (\<lambda>x. x \<noteq> e) (st_aliases (tb_slots t a))"
proof (cases "ae_incarnation (tb_entries t e) = Some a")
  case True
  then show ?thesis by (simp add: detachAliasLocked_def)
next
  case False
  then have "e \<notin> set (st_aliases (tb_slots t a))" using links_entry(1) [OF assms, of e a] by simp
  moreover have "tb_slots (detachAliasLocked e t) a = tb_slots t a" using False by (auto simp: detachAliasLocked_def split: option.splits)
  ultimately show ?thesis by (simp add: filter_absent)
qed

lemma detach_links_ok:
  assumes "links_ok t"
  shows "links_ok (detachAliasLocked e t)"
  unfolding links_ok_def detach_links [OF assms] detach_entries
  using links_entry [OF assms] by simp

lemma clearAlias_eq:
  "clearAliasLocked e t = storeWatchersLocked e (ae_empty (tb_entries t e)) (release_name e (detachAliasLocked e t))"
  by (simp add: clearAliasLocked_def Let_def release_name_def detach_entries)

lemma release_fields [simp]:
  "tb_slots (release_name e t) = tb_slots t" "tb_aliases (release_name e t) = tb_aliases t" "tb_items (release_name e t) = tb_items t"
  "tb_nextEntry (release_name e t) = tb_nextEntry t" "x \<noteq> e \<Longrightarrow> tb_entries (release_name e t) x = tb_entries t x"
  "ae_incarnation (tb_entries (release_name e t) x) = ae_incarnation (tb_entries t x)"
  "ae_watchers (tb_entries (release_name e t) x) = ae_watchers (tb_entries t x)"
  "ae_empty (tb_entries (release_name e t) x) = ae_empty (tb_entries t x)"
  "ae_publisher (tb_entries (release_name e t) x) = (if x = e then [] else ae_publisher (tb_entries t x))"
  "ae_group (tb_entries (release_name e t) x) = (if x = e then [] else ae_group (tb_entries t x))"
  by (simp_all add: release_name_def)

lemma links_ok_cong:
  "(\<And>e. ae_incarnation (tb_entries t' e) = ae_incarnation (tb_entries t e)) \<Longrightarrow> tb_slots t' = tb_slots t \<Longrightarrow> links_ok t' = links_ok t"
  by (simp add: links_ok_def)

lemma names_okI:
  assumes "names_ok t" and "tb_aliases t' = tb_aliases t" and "tb_nextEntry t' = tb_nextEntry t"
    and "\<And>e. tb_nextEntry t \<le> e \<Longrightarrow> ae_incarnation (tb_entries t' e) = None \<and> ae_watchers (tb_entries t' e) = []"
  shows "names_ok t'"
  using assms by (simp add: names_ok_def)

lemma fresh_entry: "names_ok t \<Longrightarrow> tb_nextEntry t \<le> e \<Longrightarrow> ae_incarnation (tb_entries t e) = None \<and> ae_watchers (tb_entries t e) = []"
  by (simp add: names_ok_def)

lemma store_fresh: "ae_watchers (tb_entries (storeWatchersLocked e v t) x) = [] \<longleftrightarrow> ae_watchers (tb_entries t x) = []"
  by (cases "x = e") (simp_all add: store_watchers)

text \<open>An entry loses its slot, its publisher and its group, and its watchers are told the empty value.\<close>

definition entry_freed :: "nat \<Rightarrow> Table \<Rightarrow> Table \<Rightarrow> bool" where
  "entry_freed e t t' \<longleftrightarrow> tb_items t' = tb_items t \<and> tb_aliases t' = tb_aliases t \<and> tb_nextEntry t' = tb_nextEntry t
     \<and> (\<forall>a. st_value (tb_slots t' a) = st_value (tb_slots t a) \<and> st_state (tb_slots t' a) = st_state (tb_slots t a))
     \<and> (\<forall>x. x \<noteq> e \<longrightarrow> tb_entries t' x = tb_entries t x)
     \<and> ae_incarnation (tb_entries t' e) = None \<and> ae_publisher (tb_entries t' e) = [] \<and> ae_group (tb_entries t' e) = []
     \<and> ae_empty (tb_entries t' e) = ae_empty (tb_entries t e)"

lemma clearAlias_freed: "entry_freed e t (clearAliasLocked e t)"
  by (auto simp: entry_freed_def clearAlias_eq detach_entries detachAliasLocked_def split: option.splits)

lemma clearAlias_inv:
  assumes "alias_inv t"
  shows "alias_inv (clearAliasLocked e t)"
proof -
  let ?t = "release_name e (detachAliasLocked e t)"
  have l: "links_ok t" and n: "names_ok t" and told: "\<And>x. entry_told x t" using assms by (simp_all add: alias_inv_def)
  have "links_ok (clearAliasLocked e t)"
    using detach_links_ok [OF l, of e] links_ok_cong [of "clearAliasLocked e t" "detachAliasLocked e t"] by (simp add: clearAlias_eq)
  moreover have "names_ok (clearAliasLocked e t)"
    by (rule names_okI [OF n]) (auto simp: clearAlias_eq detach_entries store_fresh fresh_entry [OF n])
  moreover have "entry_told x (clearAliasLocked e t)" for x
  proof (cases "x = e")
    case True
    have "current_value e ?t = ae_empty (tb_entries t e)" by (simp add: current_value_def detach_entries)
    then show ?thesis unfolding True clearAlias_eq by (intro store_told) (simp add: detach_entries)
  next
    case False
    then have "entry_told x (clearAliasLocked e t) = entry_told x t" by (intro other_told) (simp_all add: clearAlias_eq detach_entries)
    then show ?thesis using told by simp
  qed
  ultimately show ?thesis by (simp add: alias_inv_def)
qed

lemma clearAliases_inv: "alias_inv t \<Longrightarrow> alias_inv (fold clearAliasLocked es t)"
  by (induction es arbitrary: t) (simp_all add: clearAlias_inv)

section \<open>The end of an incarnation frees its names\<close>

definition no_names :: "nat \<Rightarrow> Table \<Rightarrow> Table" where
  "no_names a t = set_slot a ((tb_slots t a)\<lparr>st_aliases := []\<rparr>) t"

lemma unbind_entry_clears:
  assumes "ae_incarnation (tb_entries t e) = Some a"
  shows "unbind_entry e (no_names a t) = no_names a (clearAliasLocked e t)"
  using assms
  by (simp add: unbind_entry_def clearAliasLocked_def detachAliasLocked_def no_names_def release_name_def storeWatchersLocked_def set_slot_def set_entry_def Let_def)

lemma unbind_fold:
  assumes "distinct es" and "\<And>e. e \<in> set es \<Longrightarrow> ae_incarnation (tb_entries t e) = Some a"
  shows "fold unbind_entry es (no_names a t) = no_names a (fold clearAliasLocked es t)"
  using assms
proof (induction es arbitrary: t)
  case (Cons e es)
  have "ae_incarnation (tb_entries (clearAliasLocked e t) x) = Some a" if "x \<in> set es" for x
  proof -
    have "x \<noteq> e" using Cons.prems(1) that by auto
    then have "tb_entries (clearAliasLocked e t) x = tb_entries t x" using clearAlias_freed [of e t] by (simp add: entry_freed_def)
    then show ?thesis using Cons.prems(2) [of x] that by simp
  qed
  then have "fold unbind_entry es (no_names a (clearAliasLocked e t)) = no_names a (fold clearAliasLocked es (clearAliasLocked e t))"
    using Cons.prems(1) by (intro Cons.IH) simp_all
  then show ?case using unbind_entry_clears [OF Cons.prems(2) [of e]] by simp
qed simp

lemma clear_links: "links_ok t \<Longrightarrow> links_ok (clearAliasLocked e t)"
  using detach_links_ok [of t e] links_ok_cong [of "clearAliasLocked e t" "detachAliasLocked e t"] by (simp add: clearAlias_eq)

lemma clear_st_aliases: "links_ok t \<Longrightarrow> st_aliases (tb_slots (clearAliasLocked e t) a) = filter (\<lambda>x. x \<noteq> e) (st_aliases (tb_slots t a))"
  by (simp add: clearAlias_eq detach_links)

lemma clear_fold_st_aliases:
  "links_ok t \<Longrightarrow> st_aliases (tb_slots (fold clearAliasLocked es t) a) = filter (\<lambda>x. x \<notin> set es) (st_aliases (tb_slots t a))"
  by (induction es arbitrary: t) (auto simp: clear_links clear_st_aliases intro: filter_cong)

lemma unbind_is_clear:
  assumes "links_ok t"
  shows "unbindIncarnationLocked a t = fold clearAliasLocked (st_aliases (tb_slots t a)) t"
proof -
  let ?es = "st_aliases (tb_slots t a)"
  have "st_aliases (tb_slots (fold clearAliasLocked ?es t) a) = []" by (simp add: clear_fold_st_aliases [OF assms])
  then have "no_names a (fold clearAliasLocked ?es t) = fold clearAliasLocked ?es t" by (simp add: no_names_def set_slot_def fun_upd_idem)
  moreover have "unbindIncarnationLocked a t = fold unbind_entry ?es (no_names a t)" by (simp add: unbindIncarnationLocked_def no_names_def)
  ultimately show ?thesis using links_entry [OF assms] by (simp add: unbind_fold)
qed

lemma unbind_inv: "alias_inv t \<Longrightarrow> alias_inv (unbindIncarnationLocked a t)"
  by (simp add: unbind_is_clear clearAliases_inv alias_inv_def [of t])

section \<open>Operations keep the agreement\<close>

lemma alias_entry_known: "names_ok t \<Longrightarrow> go_get (tb_aliases t) n = Some e \<Longrightarrow> e < tb_nextEntry t"
  by (auto simp: names_ok_def dest!: map_of_SomeD)

lemma name_entry_known: "go_get (tb_aliases t) n = Some e \<Longrightarrow> name_entry n emp t = (e, t)"
  by (simp add: name_entry_def)

lemma name_entry_new:
  assumes "go_get (tb_aliases t) n = None" and "name_entry n emp t = (e, t')"
  shows "e = tb_nextEntry t" and "tb_nextEntry t' = Suc (tb_nextEntry t)" and "tb_slots t' = tb_slots t" and "tb_items t' = tb_items t"
    and "tb_entries t' = (tb_entries t)(e := no_entry\<lparr>ae_empty := emp\<rparr>)"
    and "tb_aliases t' = go_set n e (tb_aliases t)"
  using assms by (auto simp: name_entry_def)

lemma go_set_new: "go_get m n = None \<Longrightarrow> go_set n v m = m @ [(n, v)]"
  by (induction m) (auto split: if_splits)

lemma name_entry_inv:
  assumes inv: "alias_inv t" and new: "name_entry n emp t = (e, t')"
  shows "alias_inv t'" and "go_get (tb_aliases t') n = Some e" and "tb_slots t' = tb_slots t" and "tb_items t' = tb_items t"
    and "x < tb_nextEntry t \<Longrightarrow> tb_entries t' x = tb_entries t x"
    and "m \<noteq> n \<Longrightarrow> go_get (tb_aliases t') m = go_get (tb_aliases t) m"
proof -
  have l: "links_ok t" and n: "names_ok t" and told: "\<And>x. entry_told x t" using inv by (simp_all add: alias_inv_def)
  have "alias_inv t' \<and> go_get (tb_aliases t') n = Some e \<and> tb_slots t' = tb_slots t \<and> tb_items t' = tb_items t
    \<and> (x < tb_nextEntry t \<longrightarrow> tb_entries t' x = tb_entries t x) \<and> (m \<noteq> n \<longrightarrow> go_get (tb_aliases t') m = go_get (tb_aliases t) m)"
  proof (cases "go_get (tb_aliases t) n")
    case (Some y)
    then show ?thesis using new inv by (simp add: name_entry_known)
  next
    case None
    note f = name_entry_new [OF None new]
    have fresh: "ae_incarnation (tb_entries t e) = None" using fresh_entry [OF n, of e] f(1) by simp
    have "links_ok t'" using l fresh by (subst links_ok_cong [of t' t]) (simp_all add: f no_entry_def)
    moreover have "names_ok t'"
      using n f(1) go_set_new [OF None, of e] by (auto simp: names_ok_def no_entry_def f(2,5,6) wf_map_def map_of_eq_None_iff [symmetric] None)
    moreover have "entry_told x t'" for x
    proof (cases "x = e")
      case True
      then show ?thesis by (simp add: entry_told_def f(5) no_entry_def)
    next
      case False
      then have "entry_told x t' = entry_told x t" by (intro other_told) (simp_all add: f)
      then show ?thesis using told by simp
    qed
    ultimately show ?thesis using f by (auto simp: alias_inv_def update_conv)
  qed
  then show "alias_inv t'" and "go_get (tb_aliases t') n = Some e" and "tb_slots t' = tb_slots t" and "tb_items t' = tb_items t"
    and "x < tb_nextEntry t \<Longrightarrow> tb_entries t' x = tb_entries t x" and "m \<noteq> n \<Longrightarrow> go_get (tb_aliases t') m = go_get (tb_aliases t) m" by blast+
qed

lemma bind_entry_inv:
  assumes l: "links_ok t"
  shows "links_ok (bind_entry e a t)"
    and "tb_entries (bind_entry e a t) = (tb_entries t)(e := (tb_entries t e)\<lparr>ae_incarnation := Some a\<rparr>)"
    and "st_value (tb_slots (bind_entry e a t) b) = st_value (tb_slots t b)" and "st_state (tb_slots (bind_entry e a t) b) = st_state (tb_slots t b)"
    and "tb_aliases (bind_entry e a t) = tb_aliases t" and "tb_nextEntry (bind_entry e a t) = tb_nextEntry t" and "tb_items (bind_entry e a t) = tb_items t"
proof -
  show entries: "tb_entries (bind_entry e a t) = (tb_entries t)(e := (tb_entries t e)\<lparr>ae_incarnation := Some a\<rparr>)"
    by (auto simp: bind_entry_def Let_def detach_entries fun_eq_iff)
  show "st_value (tb_slots (bind_entry e a t) b) = st_value (tb_slots t b)" "st_state (tb_slots (bind_entry e a t) b) = st_state (tb_slots t b)"
    by (auto simp: bind_entry_def Let_def detachAliasLocked_def split: option.splits)
  show "tb_aliases (bind_entry e a t) = tb_aliases t" "tb_nextEntry (bind_entry e a t) = tb_nextEntry t" "tb_items (bind_entry e a t) = tb_items t"
    by (simp_all add: bind_entry_def Let_def detach_entries)
  have slots: "st_aliases (tb_slots (bind_entry e a t) b) =
      (if ae_incarnation (tb_entries t e) = Some a then st_aliases (tb_slots t b)
       else filter (\<lambda>x. x \<noteq> e) (st_aliases (tb_slots t b)) @ (if b = a then [e] else []))" for b
    by (auto simp: bind_entry_def Let_def detach_links [OF l])
  show "links_ok (bind_entry e a t)"
  proof (cases "ae_incarnation (tb_entries t e) = Some a")
    case True
    then show ?thesis using l by (simp add: bind_entry_def)
  next
    case False
    then show ?thesis unfolding links_ok_def entries slots using links_entry [OF l] by auto
  qed
qed

lemma publish_inv:
  assumes inv: "alias_inv t" and e: "e < tb_nextEntry t"
    and t': "t' = set_entry e ((tb_entries (bind_entry e a t) e)\<lparr>ae_publisher := p, ae_group := g\<rparr>) (bind_entry e a t)"
  shows "alias_inv (storeWatchersLocked e (st_value (tb_slots t' a)) t')"
    and "current_value e (storeWatchersLocked e (st_value (tb_slots t' a)) t') =
      (if isNilValue (st_value (tb_slots t a)) then ae_empty (tb_entries t e) else st_value (tb_slots t a))"
proof -
  let ?t = "storeWatchersLocked e (st_value (tb_slots t' a)) t'"
  have l: "links_ok t" and n: "names_ok t" and told: "\<And>x. entry_told x t" using inv by (simp_all add: alias_inv_def)
  note b = bind_entry_inv [OF l, of e a]
  have cur: "current_value e t' = (if isNilValue (st_value (tb_slots t' a)) then ae_empty (tb_entries t' e) else st_value (tb_slots t' a))"
    by (simp add: current_value_def t' b(2))
  have "links_ok ?t" using b(1) links_ok_cong [of ?t "bind_entry e a t"] by (simp add: t')
  moreover have "names_ok ?t" using e fresh_entry [OF n] by (intro names_okI [OF n]) (auto simp: t' b store_fresh)
  moreover have "entry_told x ?t" for x
  proof (cases "x = e")
    case True
    then show ?thesis using store_told [OF cur] by simp
  next
    case False
    then have "entry_told x ?t = entry_told x t" by (intro other_told) (simp_all add: t' b)
    then show ?thesis using told by simp
  qed
  ultimately show "alias_inv ?t" by (simp add: alias_inv_def)
  show "current_value e ?t = (if isNilValue (st_value (tb_slots t a)) then ae_empty (tb_entries t e) else st_value (tb_slots t a))"
    using cur current_value_cong [of ?t t' e] by (simp add: t' b)
qed

lemma clear_other: "x \<noteq> e \<Longrightarrow> tb_entries (clearAliasLocked e t) x = tb_entries t x"
  using clearAlias_freed [of e t] by (simp add: entry_freed_def)

lemma clear_fields:
  "tb_items (clearAliasLocked e t) = tb_items t" "tb_aliases (clearAliasLocked e t) = tb_aliases t" "tb_nextEntry (clearAliasLocked e t) = tb_nextEntry t"
  "st_value (tb_slots (clearAliasLocked e t) a) = st_value (tb_slots t a)" "ae_publisher (tb_entries (clearAliasLocked e t) e) = []"
  using clearAlias_freed [of e t] by (simp_all add: entry_freed_def)

lemma clear_fold_entries:
  "x \<notin> set es \<Longrightarrow> tb_entries (fold clearAliasLocked es t) x = tb_entries t x"
  "x \<in> set es \<Longrightarrow> ae_publisher (tb_entries (fold clearAliasLocked es t) x) = []"
  "tb_items (fold clearAliasLocked es t) = tb_items t" "tb_aliases (fold clearAliasLocked es t) = tb_aliases t"
  "tb_nextEntry (fold clearAliasLocked es t) = tb_nextEntry t" "st_value (tb_slots (fold clearAliasLocked es t) a) = st_value (tb_slots t a)"
proof (induction es arbitrary: t)
  case (Cons e es)
  { case 1 then show ?case using Cons.IH(1) [of "clearAliasLocked e t"] by (simp add: clear_other)
  next
    case 2
    then show ?case using Cons.IH(1,2) [of "clearAliasLocked e t"] by (cases "x \<in> set es") (auto simp: clear_fields)
  next
    case 3 then show ?case using Cons.IH(3) by (simp add: clear_fields)
  next
    case 4 then show ?case using Cons.IH(4) by (simp add: clear_fields)
  next
    case 5 then show ?case using Cons.IH(5) by (simp add: clear_fields)
  next
    case 6 then show ?case using Cons.IH(6) by (simp add: clear_fields) }
qed simp_all

lemma held_iff:
  "x \<in> set (held_entries p g except t) \<longleftrightarrow> x \<in> snd ` set (tb_aliases t) \<and> Some x \<noteq> except
     \<and> ae_publisher (tb_entries t x) = p \<and> ae_group (tb_entries t x) = g"
  by (auto simp: held_entries_def)

lemma SetAlias_cases:
  assumes "SetAlias key n p g t = (r, t')" and "n \<noteq> []" and "key \<noteq> []"
  obtains (refused) err where "r = Some err" "t' = t"
      "(\<forall>a. go_get (tb_items t) key = Some a \<longrightarrow> \<not> peekable (st_state (tb_slots t a)))
        \<or> (\<exists>e. go_get (tb_aliases t) n = Some e \<and> ae_publisher (tb_entries t e) \<noteq> [] \<and> ae_publisher (tb_entries t e) \<noteq> p)"
  | (published) a t1 e t2 t3 where "r = None" "go_get (tb_items t) key = Some a"
      "t1 = fold clearAliasLocked (held_entries p g (go_get (tb_aliases t) n) t) t" "name_entry n NilValue t1 = (e, t2)"
      "t3 = set_entry e ((tb_entries (bind_entry e a t2) e)\<lparr>ae_publisher := p, ae_group := g\<rparr>) (bind_entry e a t2)"
      "t' = storeWatchersLocked e (st_value (tb_slots t3 a)) t3"
  using assms by (auto simp: SetAlias_def Let_def split: option.splits if_splits prod.splits)

lemma SetAlias_inv:
  assumes "alias_inv t" and "SetAlias key n p g t = (r, t')"
  shows "alias_inv t'"
proof (cases "n = [] \<or> key = []")
  case True
  then show ?thesis using assms by (auto simp: SetAlias_def)
next
  case False
  then have "n \<noteq> []" "key \<noteq> []" by simp_all
  then show ?thesis
  proof (rule SetAlias_cases [OF assms(2)])
    fix a t1 e t2 t3 assume published: "r = None" "go_get (tb_items t) key = Some a"
      "t1 = fold clearAliasLocked (held_entries p g (go_get (tb_aliases t) n) t) t" "name_entry n NilValue t1 = (e, t2)"
      "t3 = set_entry e ((tb_entries (bind_entry e a t2) e)\<lparr>ae_publisher := p, ae_group := g\<rparr>) (bind_entry e a t2)"
      "t' = storeWatchersLocked e (st_value (tb_slots t3 a)) t3"
    have inv2: "alias_inv t2" using name_entry_inv(1) [OF _ published(4)] clearAliases_inv [OF assms(1)] published(3) by simp
    moreover have "go_get (tb_aliases t2) n = Some e" using name_entry_inv(2) [OF _ published(4)] clearAliases_inv [OF assms(1)] published(3) by simp
    ultimately have "e < tb_nextEntry t2" using alias_entry_known [of t2 n e] by (simp add: alias_inv_def)
    then show ?thesis using publish_inv(1) [OF inv2 _ published(5)] published(6) by simp
  qed (use assms in simp)
qed

lemma told_fresh: "told emp v (fst (deliverLocked v w))"
  by simp

lemma stick_inv:
  assumes inv: "alias_inv t" and e: "e < tb_nextEntry t"
  shows "alias_inv (stick_empty e emp t)"
proof (cases "ae_empty (tb_entries t e) = NilValue \<and> emp \<noteq> NilValue")
  case True
  let ?t = "stick_empty e emp t"
  have t': "?t = set_entry e ((tb_entries t e)\<lparr>ae_empty := emp\<rparr>) t" using True by (simp add: stick_empty_def)
  have l: "links_ok t" and n: "names_ok t" and told: "\<And>x. entry_told x t" using inv by (simp_all add: alias_inv_def)
  have "links_ok ?t" using l by (subst links_ok_cong [of ?t t]) (simp_all add: t')
  moreover have "names_ok ?t" by (rule names_okI [OF n]) (use e in \<open>auto simp: t' fresh_entry [OF n]\<close>)
  moreover have "entry_told x ?t" for x
  proof (cases "x = e")
    case False
    then have "entry_told x ?t = entry_told x t" by (intro other_told) (simp_all add: t')
    then show ?thesis using told by simp
  next
    case eq: True
    have nil: "isNilValue NilValue" by (simp add: isNilValue_def)
    show ?thesis unfolding entry_told_def eq
    proof
      fix w assume "w \<in> set (ae_watchers (tb_entries ?t e))"
      then have w: "told NilValue (current_value e t) w" using told [of e] True by (simp add: entry_told_def t')
      show "told (ae_empty (tb_entries ?t e)) (current_value e ?t) w"
        using w True nil by (auto simp: told_def t' current_value_def sameValue_iff split: option.splits if_splits)
    qed
  qed
  ultimately show ?thesis by (simp add: alias_inv_def)
next
  case False
  then have "stick_empty e emp t = t" by (auto simp: stick_empty_def)
  then show ?thesis using inv by simp
qed

lemma add_watcher_inv:
  assumes inv: "alias_inv t" and e: "e < tb_nextEntry t" and t': "t' = (set_entry e ((tb_entries t e)\<lparr>ae_watchers := ws\<rparr>) t)\<lparr>tb_delivered := d\<rparr>"
    and ws: "\<forall>w \<in> set ws. told (ae_empty (tb_entries t e)) (current_value e t) w"
  shows "alias_inv t'"
proof -
  have l: "links_ok t" and n: "names_ok t" and told: "\<And>x. entry_told x t" using inv by (simp_all add: alias_inv_def)
  have "links_ok t'" using l by (subst links_ok_cong [of t' t]) (simp_all add: t')
  moreover have "names_ok t'" by (rule names_okI [OF n]) (use e in \<open>auto simp: t' fresh_entry [OF n]\<close>)
  moreover have "entry_told x t'" for x
  proof (cases "x = e")
    case True
    have "current_value e t' = current_value e t" by (rule current_value_cong) (simp_all add: t')
    then show ?thesis using True ws by (simp add: entry_told_def t')
  next
    case False
    then have "entry_told x t' = entry_told x t" by (intro other_told) (simp_all add: t')
    then show ?thesis using told by simp
  qed
  ultimately show ?thesis by (simp add: alias_inv_def)
qed

lemma Watch_inv:
  assumes inv: "alias_inv t"
  shows "alias_inv (Watch n emp changed i t)"
proof (cases "n = []")
  case False
  obtain e t1 where new: "name_entry n emp t = (e, t1)" by (cases "name_entry n emp t")
  have inv1: "alias_inv t1" and "go_get (tb_aliases t1) n = Some e" using name_entry_inv [OF inv new] by simp_all
  then have e: "e < tb_nextEntry t1" using alias_entry_known [of t1 n e] by (simp add: alias_inv_def)
  let ?t = "stick_empty e emp t1"
  have inv2: "alias_inv ?t" and e2: "e < tb_nextEntry ?t" using stick_inv [OF inv1 e] e by (simp_all add: stick_empty_def)
  let ?out = "deliverLocked (current_value e ?t) \<lparr>aw_id = i, aw_changed = changed, aw_last = NilValue\<rparr>"
  have "\<forall>w \<in> set (ae_watchers (tb_entries ?t e) @ [fst ?out]). told (ae_empty (tb_entries ?t e)) (current_value e ?t) w"
    using inv2 by (auto simp: alias_inv_def entry_told_def)
  from add_watcher_inv [OF inv2 e2 refl this, where d = "tb_delivered ?t @ snd ?out"] show ?thesis using False new by (simp add: Watch_def Let_def)
qed (use inv in \<open>simp add: Watch_def\<close>)

lemma dropWatcher_inv:
  assumes inv: "alias_inv t"
  shows "alias_inv (dropWatcher n i t)"
proof (cases "n = [] \<or> go_get (tb_aliases t) n = None")
  case False
  then obtain e where e: "go_get (tb_aliases t) n = Some e" "n \<noteq> []" by auto
  then have lt: "e < tb_nextEntry t" using inv alias_entry_known [of t n e] by (simp add: alias_inv_def)
  let ?ws = "filter (\<lambda>w. aw_id w \<noteq> i) (ae_watchers (tb_entries t e))"
  have "\<forall>w \<in> set ?ws. told (ae_empty (tb_entries t e)) (current_value e t) w"
    using inv by (auto simp: alias_inv_def entry_told_def)
  from add_watcher_inv [OF inv lt refl this, where d = "tb_delivered t"] show ?thesis using e by (simp add: dropWatcher_def set_entry_def)
qed (use inv in \<open>auto simp: dropWatcher_def\<close>)

text \<open>Any sequence of operations on the names; an incarnation's end is one of them.\<close>

datatype alias_op =
  OpSet string string string string | OpWatch string any_value bool nat | OpDrop string nat | OpClear string string | OpEnd nat

fun alias_do :: "alias_op \<Rightarrow> Table \<Rightarrow> Table" where
  "alias_do (OpSet key n p g) t = snd (SetAlias key n p g t)"
| "alias_do (OpWatch n emp changed i) t = Watch n emp changed i t"
| "alias_do (OpDrop n i) t = dropWatcher n i t"
| "alias_do (OpClear p g) t = ClearPublisher p g t"
| "alias_do (OpEnd a) t = unbindIncarnationLocked a t"

lemma alias_do_inv: "alias_inv t \<Longrightarrow> alias_inv (alias_do x t)"
  by (cases x) (auto simp: Watch_inv dropWatcher_inv unbind_inv ClearPublisher_def clearAliases_inv intro: SetAlias_inv [OF _ prod.collapse [symmetric]])

lemma alias_dos_inv: "alias_inv t \<Longrightarrow> alias_inv (fold alias_do xs t)"
  by (induction xs arbitrary: t) (simp_all add: alias_do_inv)

text \<open>A table whose slots have no names yet.\<close>

definition unnamed :: "Table \<Rightarrow> bool" where
  "unnamed t \<longleftrightarrow> tb_aliases t = [] \<and> (\<forall>a. st_aliases (tb_slots t a) = []) \<and> (\<forall>e. ae_incarnation (tb_entries t e) = None \<and> ae_watchers (tb_entries t e) = [])"

lemma unnamed_inv: "unnamed t \<Longrightarrow> alias_inv t"
  by (simp add: unnamed_def alias_inv_def links_ok_def names_ok_def entry_told_def)

lemma New_unnamed: "unnamed (Table_New grace)"
  by (simp add: unnamed_def Table_New_def no_slot_def no_entry_def)


text \<open>A publisher has one name in a group after \<open>SetAlias\<close>: every other name it held there was cleared first.\<close>

lemma one_name_in_group:
  assumes inv: "alias_inv t" and p: "p \<noteq> []"
    and published: "t1 = fold clearAliasLocked (held_entries p g (go_get (tb_aliases t) n) t) t" "name_entry n NilValue t1 = (e, t2)"
      "t3 = set_entry e ((tb_entries (bind_entry e a t2) e)\<lparr>ae_publisher := p, ae_group := g\<rparr>) (bind_entry e a t2)"
      "t' = storeWatchersLocked e (st_value (tb_slots t3 a)) t3"
    and m: "m \<noteq> n" "go_get (tb_aliases t') m = Some x"
  shows "\<not> (ae_publisher (tb_entries t' x) = p \<and> ae_group (tb_entries t' x) = g)"
proof -
  have inv1: "alias_inv t1" using clearAliases_inv [OF inv] published(1) by simp
  note new = name_entry_inv [OF inv1 published(2)]
  have l2: "links_ok t2" and n2: "names_ok t2" using new(1) by (simp_all add: alias_inv_def)
  note b = bind_entry_inv [OF l2, of e a]
  have aliases: "tb_aliases t' = tb_aliases t2" by (simp add: published(3,4) b)
  have m2: "go_get (tb_aliases t2) m = Some x" using m(2) aliases by simp
  have m1: "go_get (tb_aliases t1) m = Some x" using new(6) [OF m(1)] m2 by simp
  have m0: "go_get (tb_aliases t) m = Some x" using m1 by (simp add: published(1) clear_fold_entries)
  have "x \<noteq> e" using n2 m(1) m2 new(2) by (auto simp: names_ok_def wf_map_def dest!: map_of_SomeD) (metis distinct_map inj_onD prod.inject snd_conv)
  then have "tb_entries t' x = tb_entries t2 x" by (simp add: published(3,4) b)
  also have "\<dots> = tb_entries t1 x" using new(5) alias_entry_known [OF _ m1] inv1 by (simp add: alias_inv_def)
  finally have x: "tb_entries t' x = tb_entries t1 x" .
  have "Some x \<noteq> go_get (tb_aliases t) n"
  proof
    assume "Some x = go_get (tb_aliases t) n"
    then have "name_entry n NilValue t1 = (x, t1)" by (intro name_entry_known) (simp add: published(1) clear_fold_entries)
    then show False using published(2) \<open>x \<noteq> e\<close> by simp
  qed
  moreover have "x \<in> snd ` set (tb_aliases t)" using map_of_SomeD [OF m0] by force
  ultimately show ?thesis
    using p clear_fold_entries(1,2) [of x "held_entries p g (go_get (tb_aliases t) n) t" t] unfolding x published(1)
    by (cases "x \<in> set (held_entries p g (go_get (tb_aliases t) n) t)") (auto simp: held_iff)
qed


text \<open>A table with one awake value, without names.\<close>

definition one_value :: Table where
  "one_value = (Table_New 0)\<lparr>tb_items := [(''k'', 0)], tb_slots := (\<lambda>_. no_slot)(0 := no_slot\<lparr>st_state := slotAwake, st_value := Ptr 7\<rparr>), tb_nextSlot := 1\<rparr>"

definition watch_then_set :: "alias_op list" where
  "watch_then_set = [OpWatch ''n'' (Plain ''none'') True 3, OpSet ''k'' ''n'' ''p'' ''g'', OpEnd 0]"

lemma one_value_unnamed: "unnamed one_value"
  by (simp add: unnamed_def one_value_def Table_New_def no_slot_def no_entry_def)



end
