(* ===== verification/Reclaim.thy ===== *)
theory Reclaim
  imports Alias
begin

text \<open>
  The operations of the reclaim table (\<open>src/reclaim/table.go\<close>), one definition per critical section, in the order of the
  code. What runs between them, outside the mutex (\<open>create\<close> and the hooks), is in theory \<open>Lifecycle\<close>, which
  composes them into goroutines. A channel is made by taking the next number and closed by recording it.
\<close>

section \<open>Slots, channels and timers\<close>

abbreviation slot_at :: "Table \<Rightarrow> nat \<Rightarrow> slot" where
  "slot_at t a \<equiv> tb_slots t a"

abbreviation mapped_at :: "Table \<Rightarrow> string \<Rightarrow> nat option" where
  "mapped_at t key \<equiv> go_get (tb_items t) key"

definition make_chan :: "Table \<Rightarrow> nat \<times> Table" where
  "make_chan t = (tb_nextChan t, t\<lparr>tb_nextChan := Suc (tb_nextChan t)\<rparr>)"

definition close_chan :: "nat \<Rightarrow> Table \<Rightarrow> Table" where
  "close_chan c t = t\<lparr>tb_closed := c # tb_closed t\<rparr>"

definition unmap_if :: "string \<Rightarrow> nat \<Rightarrow> Table \<Rightarrow> Table" where
  "unmap_if key a t = (if mapped_at t key = Some a then t\<lparr>tb_items := go_delete key (tb_items t)\<rparr> else t)"

definition set_state :: "nat \<Rightarrow> slotState \<Rightarrow> Table \<Rightarrow> Table" where
  "set_state a st t = set_slot a ((slot_at t a)\<lparr>st_state := st\<rparr>) t"

text \<open>A slot becomes busy with a new ready channel.\<close>

definition make_busy :: "nat \<Rightarrow> Table \<Rightarrow> Table" where
  "make_busy a t =
     (case make_chan t of (c, t1) \<Rightarrow> set_slot a ((slot_at t1 a)\<lparr>st_state := slotBusy, st_ready := c\<rparr>) t1)"

definition closeFinished :: "nat \<Rightarrow> Table \<Rightarrow> Table" where
  "closeFinished a t =
     (if st_finished (slot_at t a) then set_slot a ((slot_at t a)\<lparr>st_finished := False\<rparr>) (t\<lparr>tb_ended := a # tb_ended t\<rparr>) else t)"

definition stop_grace :: "nat option \<Rightarrow> Table \<Rightarrow> Table" where
  "stop_grace i t = (case i of None \<Rightarrow> t | Some n \<Rightarrow> t\<lparr>tb_timers := filter (\<lambda>x. fst x \<noteq> n) (tb_timers t)\<rparr>)"

definition arm_grace :: "string \<Rightarrow> nat \<Rightarrow> Table \<Rightarrow> Table" where
  "arm_grace key a t =
     (set_slot a ((slot_at t a)\<lparr>st_graceTimer := Some (tb_nextTimer t)\<rparr>) t)
       \<lparr>tb_timers := (tb_nextTimer t, key, a) # tb_timers t, tb_nextTimer := Suc (tb_nextTimer t)\<rparr>"

section \<open>The end of an incarnation\<close>

definition end_incarnation :: "nat \<Rightarrow> reclaim_err option \<Rightarrow> Table \<Rightarrow> Table" where
  "end_incarnation a err t =
     unbindIncarnationLocked a (closeFinished a (set_slot a ((slot_at t a)\<lparr>st_createErr := err, st_state := slotGone\<rparr>) t))"

definition endBusySlot :: "string \<Rightarrow> nat \<Rightarrow> reclaim_err option \<Rightarrow> Table \<Rightarrow> Table" where
  "endBusySlot key a err t =
     (let t1 = unmap_if key a (end_incarnation a err t) in close_chan (st_ready (slot_at t1 a)) t1)"

definition unmapLocked :: "string \<Rightarrow> nat \<Rightarrow> Table \<Rightarrow> nat \<times> Table" where
  "unmapLocked key a t =
     (let t1 = unbindIncarnationLocked a (closeFinished a (set_state a slotGone (unmap_if key a t)))
      in (st_ready (slot_at t1 a), t1))"

definition unmapAfterClose :: "string \<Rightarrow> nat \<Rightarrow> Table \<Rightarrow> Table" where
  "unmapAfterClose key a t = (case unmapLocked key a t of (c, t1) \<Rightarrow> close_chan c t1)"

text \<open>The closer is a slot without a value that occupies the key; its address and the old ready channel.\<close>

definition installCloser :: "string \<Rightarrow> nat \<Rightarrow> reclaim_err option \<Rightarrow> Table \<Rightarrow> nat \<times> nat \<times> Table" where
  "installCloser key a err t =
     (let t1 = end_incarnation a err t; old = st_ready (slot_at t1 a)
      in case make_chan t1 of
           (c, t2) \<Rightarrow>
             (tb_nextSlot t2, old,
              (set_slot (tb_nextSlot t2) (no_slot\<lparr>st_state := slotBusy, st_ready := c\<rparr>) t2)
                \<lparr>tb_items := go_set key (tb_nextSlot t2) (tb_items t2), tb_nextSlot := Suc (tb_nextSlot t2)\<rparr>))"

section \<open>Open\<close>

datatype openStep = openCreate nat | openBind nat any_value | openWake nat any_value Hooks | openPark nat nat | openRetry

definition lookupOpen :: "string \<Rightarrow> Table \<Rightarrow> (reclaim_err + openStep) \<times> Table" where
  "lookupOpen key t =
     (if \<not> tb_init t then (Inl ErrUninitialized, t)
      else case mapped_at t key of
        None \<Rightarrow>
          (case make_chan t of
             (c, t1) \<Rightarrow>
               (Inr (openCreate (tb_nextSlot t1)),
                (set_slot (tb_nextSlot t1) (no_slot\<lparr>st_state := slotBusy, st_ready := c, st_finished := True\<rparr>) t1)
                  \<lparr>tb_items := go_set key (tb_nextSlot t1) (tb_items t1), tb_nextSlot := Suc (tb_nextSlot t1)\<rparr>))
      | Some a \<Rightarrow>
          (let s = slot_at t a in
           case st_state s of
             slotAwake \<Rightarrow> (Inr (openBind a (st_value s)), set_slot a (s\<lparr>st_holders := st_holders s + 1\<rparr>) t)
           | slotAsleep \<Rightarrow>
               (let t1 = make_busy a t; t2 = stop_grace (st_graceTimer s) t1; s2 = slot_at t2 a
                in (Inr (openWake a (st_value s) (st_hooks s)),
                    set_slot a (s2\<lparr>st_graceTimer := None, st_holders := st_holders s2 + 1\<rparr>) t2))
           | slotBusy \<Rightarrow> (Inr (openPark a (st_ready s)), t)
           | slotGone \<Rightarrow> (Inr openRetry, unmap_if key a t)))"

definition createErrOf :: "nat \<Rightarrow> Table \<Rightarrow> reclaim_err option" where
  "createErrOf a t = st_createErr (slot_at t a)"

datatype State = Awake | Asleep

definition Table_Peek :: "string \<Rightarrow> Table \<Rightarrow> (any_value \<times> State) option" where
  "Table_Peek key t =
     (if \<not> tb_init t then None
      else case mapped_at t key of
        None \<Rightarrow> None
      | Some a \<Rightarrow>
          (case st_state (slot_at t a) of
             slotAwake \<Rightarrow> Some (st_value (slot_at t a), Awake)
           | slotAsleep \<Rightarrow> Some (st_value (slot_at t a), Asleep)
           | _ \<Rightarrow> None))"

definition publishPut :: "string \<Rightarrow> nat \<Rightarrow> any_value \<Rightarrow> Hooks \<Rightarrow> Table \<Rightarrow> Table" where
  "publishPut key a v hooks t =
     (let s = slot_at t a;
          t1 = set_slot a (s\<lparr>st_value := v, st_hooks := hooks, st_state := slotAwake, st_holders := st_holders s + 1\<rparr>) t
      in close_chan (st_ready s) (t1\<lparr>tb_items := go_set key a (tb_items t1)\<rparr>))"

definition publishWake :: "nat \<Rightarrow> Table \<Rightarrow> Table" where
  "publishWake a t = close_chan (st_ready (slot_at t a)) (set_state a slotAwake t)"

definition finishedAtBind :: "nat \<Rightarrow> Table \<Rightarrow> bool" where
  "finishedAtBind a t = st_finished (slot_at t a)"

section \<open>Drop and expire\<close>

definition releaseHolder :: "nat \<Rightarrow> Table \<Rightarrow> Table" where
  "releaseHolder a t = set_slot a ((slot_at t a)\<lparr>st_holders := st_holders (slot_at t a) - 1\<rparr>) t"

datatype dropStep = dropPark nat | dropStop | dropClaim Hooks duration

definition claimDrop :: "nat \<Rightarrow> Table \<Rightarrow> dropStep \<times> Table" where
  "claimDrop a t =
     (let s = slot_at t a in
      if st_state s = slotBusy then (dropPark (st_ready s), t)
      else if st_holders s = 0 \<and> st_state s = slotAwake then (dropClaim (st_hooks s) (tb_grace t), make_busy a t)
      else (dropStop, t))"

definition parkAsleep :: "string \<Rightarrow> nat \<Rightarrow> duration \<Rightarrow> Table \<Rightarrow> bool \<times> Table" where
  "parkAsleep key a grace t =
     (let t1 = close_chan (st_ready (slot_at t a)) (set_state a slotAsleep t) in
      if mapped_at t1 key \<noteq> Some a then (False, t1)
      else if grace \<le> 0 then (False, t1\<lparr>tb_items := go_delete key (tb_items t1)\<rparr>)
      else (True, arm_grace key a t1))"

datatype expireStep = expireSkip | expireEnforce Hooks | expireDispose Hooks

definition claimExpire :: "string \<Rightarrow> nat \<Rightarrow> Table \<Rightarrow> expireStep \<times> Table" where
  "claimExpire key a t =
     (let s = slot_at t a in
      if st_state s = slotAsleep \<and> st_holders s = 0 then
        if hk_EnforceCloseBeforeOpen (st_hooks s) then (expireEnforce (st_hooks s), make_busy a t)
        else (expireDispose (st_hooks s), unmap_if key a (closeFinished a (set_state a slotGone t)))
      else (expireSkip, t))"

section \<open>Reset\<close>

definition takeAll :: "Table \<Rightarrow> (string, nat) gomap \<times> Table" where
  "takeAll t =
     (let items = tb_items t;
          t1 = fold (\<lambda>(key, a). unbindIncarnationLocked a) items (t\<lparr>tb_items := [], tb_init := True\<rparr>);
          t2 = t1\<lparr>tb_aliases := []\<rparr>
      in (items, fold (\<lambda>(key, a) t. set_slot a ((slot_at t a)\<lparr>st_graceTimer := None\<rparr>) (stop_grace (st_graceTimer (slot_at t a)) t)) items t2))"

definition endResetSlot :: "nat \<Rightarrow> Table \<Rightarrow> slotState \<times> Hooks \<times> Table" where
  "endResetSlot a t =
     (let s = slot_at t a in
      (st_state s, st_hooks s,
       if st_state s = slotAwake \<or> st_state s = slotAsleep then closeFinished a (set_state a slotGone t) else t))"

text \<open>The lines of the log, with the incarnation they are about, and whether a hook panicked.\<close>

datatype event =
  MsgPut nat | MsgBind nat | MsgOrphan nat | MsgReclaim nat | MsgDispose nat | MsgHookPanic nat string

text \<open>\<open>runHook\<close>: an unset hook does nothing, a set one may panic.\<close>

definition runHook :: "bool \<Rightarrow> bool \<Rightarrow> bool" where
  "runHook isset panics \<longleftrightarrow> isset \<and> panics"

definition dispose :: "nat \<Rightarrow> Hooks \<Rightarrow> bool \<Rightarrow> event list" where
  "dispose a hooks panics = (if runHook (hk_Close hooks) panics then [MsgHookPanic a ''close''] else []) @ [MsgDispose a]"

definition reset_slot :: "(nat \<Rightarrow> bool) \<Rightarrow> (nat \<Rightarrow> bool) \<Rightarrow> nat \<Rightarrow> event list \<times> Table \<Rightarrow> event list \<times> Table" where
  "reset_slot sleepPanics closePanics a = (\<lambda>(evs, t).
     case endResetSlot a t of
       (st, hooks, t1) \<Rightarrow>
         (case st of
            slotAwake \<Rightarrow>
              (evs @ (if runHook (hk_Sleep hooks) (sleepPanics a) then [MsgHookPanic a ''sleep''] else [MsgOrphan a])
                 @ dispose a hooks (closePanics a), t1)
          | slotAsleep \<Rightarrow> (evs @ dispose a hooks (closePanics a), t1)
          | _ \<Rightarrow> (evs, t1)))"

definition Reset :: "(nat \<Rightarrow> bool) \<Rightarrow> (nat \<Rightarrow> bool) \<Rightarrow> Table \<Rightarrow> event list \<times> Table" where
  "Reset sleepPanics closePanics t =
     (case takeAll t of (items, t1) \<Rightarrow> if \<not> tb_init t then ([], t1) else fold (reset_slot sleepPanics closePanics) (map snd items) ([], t1))"

section \<open>OpenTyped\<close>

text \<open>The type assertion on what \<open>OpenWithHooks\<close> returned, with the test of the dynamic type as an argument.\<close>

definition OpenTyped :: "(any_value \<Rightarrow> bool) \<Rightarrow> reclaim_err + any_value \<Rightarrow> reclaim_err + any_value" where
  "OpenTyped isT r = (case r of Inl e \<Rightarrow> Inl e | Inr v \<Rightarrow> if isT v then Inr v else Inl ErrWrongType)"

end
