(* ===== verification/Lifecycle.thy ===== *)
theory Lifecycle
  imports Reclaim "HOL-Library.Multiset"
begin

text \<open>
  The goroutines of the reclaim table in every interleaving: \<open>Open\<close> with \<open>create\<close>, \<open>Wake\<close> and the bind, the holders and
  their drop with \<open>Sleep\<close>, the grace timers and \<open>expire\<close> with \<open>Close\<close>. A task is a goroutine at the place between two
  critical sections, with its key and slot; a step is one critical section, or the end of a
  hook. The close of a ready channel right after a critical section belongs to the step: until then it only delays those
  who wait on it. \<open>Reset\<close>, which the code reserves for tests that do not race \<open>Open\<close>, is not a step here. Beside
  the table the state has the log and the key each slot was made for.
\<close>

section \<open>Tasks and steps\<close>

datatype task =
  Looking string | Creating string nat | OpenParked string nat nat | Waking string nat | Binding string nat
| Holding string nat | Watching string nat | Releasing string nat | Claiming string nat | DropParked string nat nat
| Sleeping string nat | Parking string nat | PanicEnding string nat "reclaim_err option" | EndingMapped string nat | Unmapping string nat
| Expiring string nat | Disposing string nat | Unbinding string nat | LastClosing string nat | SwapClosing string nat nat | Uncovering string nat

record life =
  lf_table :: Table
  lf_tasks :: "task multiset"
  lf_log :: "event list"
  lf_key :: "nat \<Rightarrow> string"

definition life_start :: "duration \<Rightarrow> life" where
  "life_start grace = \<lparr>lf_table = Table_New grace, lf_tasks = {#}, lf_log = [], lf_key = (\<lambda>_. [])\<rparr>"

text \<open>A task goes on as some others (none when it ends), on a new table, with lines added to the log.\<close>

definition moves :: "task \<Rightarrow> task list \<Rightarrow> Table \<Rightarrow> event list \<Rightarrow> life \<Rightarrow> life" where
  "moves p qs t evs s = s\<lparr>lf_table := t, lf_tasks := lf_tasks s - {#p#} + mset qs, lf_log := lf_log s @ evs\<rparr>"

abbreviation hooks_at :: "life \<Rightarrow> nat \<Rightarrow> Hooks" where
  "hooks_at s a \<equiv> st_hooks (slot_at (lf_table s) a)"

definition after_sleep :: "life \<Rightarrow> string \<Rightarrow> nat \<Rightarrow> task" where
  "after_sleep s k a =
     (if hk_EnforceCloseBeforeOpen (hooks_at s a) \<and> tb_grace (lf_table s) \<le> 0 then EndingMapped k a else Parking k a)"

inductive lstep :: "life \<Rightarrow> life \<Rightarrow> bool" where
  open_call: "lstep s (s\<lparr>lf_tasks := add_mset (Looking k) (lf_tasks s)\<rparr>)"
| look_create: "Looking k \<in># lf_tasks s \<Longrightarrow> lookupOpen k (lf_table s) = (Inr (openCreate a), t) \<Longrightarrow>
    lstep s ((moves (Looking k) [Creating k a] t [] s)\<lparr>lf_key := (lf_key s)(a := k)\<rparr>)"
| look_bind: "Looking k \<in># lf_tasks s \<Longrightarrow> lookupOpen k (lf_table s) = (Inr (openBind a v), t) \<Longrightarrow>
    lstep s (moves (Looking k) [Binding k a] t [MsgBind a] s)"
| look_wake: "Looking k \<in># lf_tasks s \<Longrightarrow> lookupOpen k (lf_table s) = (Inr (openWake a v hooks), t) \<Longrightarrow>
    lstep s (moves (Looking k) [Waking k a] t [] s)"
| look_park: "Looking k \<in># lf_tasks s \<Longrightarrow> lookupOpen k (lf_table s) = (Inr (openPark a c), t) \<Longrightarrow>
    lstep s (moves (Looking k) [OpenParked k a c] t [] s)"
| look_retry: "Looking k \<in># lf_tasks s \<Longrightarrow> lookupOpen k (lf_table s) = (Inr openRetry, t) \<Longrightarrow>
    lstep s (moves (Looking k) [Looking k] t [] s)"
| unpark: "OpenParked k a c \<in># lf_tasks s \<Longrightarrow> c \<in> set (tb_closed (lf_table s)) \<Longrightarrow>
    lstep s (moves (OpenParked k a c) (if createErrOf a (lf_table s) = None then [Looking k] else []) (lf_table s) [] s)"
| create_fails: "Creating k a \<in># lf_tasks s \<Longrightarrow> lstep s (moves (Creating k a) [] (endBusySlot k a (Some err) (lf_table s)) [] s)"
| create_works: "Creating k a \<in># lf_tasks s \<Longrightarrow>
    lstep s (moves (Creating k a) [Binding k a] (publishPut k a v hooks (lf_table s)) [MsgPut a, MsgBind a] s)"
| wake_works: "Waking k a \<in># lf_tasks s \<Longrightarrow>
    lstep s (moves (Waking k a) [Binding k a] (publishWake a (lf_table s)) [MsgReclaim a, MsgBind a] s)"
| wake_panics: "Waking k a \<in># lf_tasks s \<Longrightarrow> runHook (hk_Wake (hooks_at s a)) True \<Longrightarrow>
    lstep s (moves (Waking k a) [PanicEnding k a (Some (ErrWakePanic msg))] (lf_table s) [] s)"
| bind_live: "Binding k a \<in># lf_tasks s \<Longrightarrow> lstep s (moves (Binding k a) [Holding k a] (lf_table s) [] s)"
| bind_poll: "Binding k a \<in># lf_tasks s \<Longrightarrow>
    lstep s (moves (Binding k a) (if finishedAtBind a (lf_table s) then [Watching k a] else []) (lf_table s) [] s)"
| bind_late: "Binding k a \<in># lf_tasks s \<Longrightarrow> lstep s (moves (Binding k a) [Releasing k a] (lf_table s) [] s)"
| holder_done: "Holding k a \<in># lf_tasks s \<Longrightarrow> lstep s (moves (Holding k a) [Releasing k a] (lf_table s) [] s)"
| watch_ends: "Watching k a \<in># lf_tasks s \<Longrightarrow>
    lstep s (moves (Watching k a) (if a \<in> set (tb_ended (lf_table s)) then [] else [Releasing k a]) (lf_table s) [] s)"
| release: "Releasing k a \<in># lf_tasks s \<Longrightarrow> lstep s (moves (Releasing k a) [Claiming k a] (releaseHolder a (lf_table s)) [] s)"
| claim_parks: "Claiming k a \<in># lf_tasks s \<Longrightarrow> claimDrop a (lf_table s) = (dropPark c, t) \<Longrightarrow>
    lstep s (moves (Claiming k a) [DropParked k a c] t [] s)"
| claim_stops: "Claiming k a \<in># lf_tasks s \<Longrightarrow> claimDrop a (lf_table s) = (dropStop, t) \<Longrightarrow> lstep s (moves (Claiming k a) [] t [] s)"
| claim_takes: "Claiming k a \<in># lf_tasks s \<Longrightarrow> claimDrop a (lf_table s) = (dropClaim hooks grace, t) \<Longrightarrow>
    lstep s (moves (Claiming k a) [Sleeping k a] t [] s)"
| drop_unpark: "DropParked k a c \<in># lf_tasks s \<Longrightarrow> c \<in> set (tb_closed (lf_table s)) \<Longrightarrow>
    lstep s (moves (DropParked k a c) [Claiming k a] (lf_table s) [] s)"
| sleep_works: "Sleeping k a \<in># lf_tasks s \<Longrightarrow> lstep s (moves (Sleeping k a) [after_sleep s k a] (lf_table s) [MsgOrphan a] s)"
| sleep_panics: "Sleeping k a \<in># lf_tasks s \<Longrightarrow> runHook (hk_Sleep (hooks_at s a)) True \<Longrightarrow>
    lstep s (moves (Sleeping k a) [PanicEnding k a None] (lf_table s) [MsgHookPanic a ''sleep''] s)"
| park: "Parking k a \<in># lf_tasks s \<Longrightarrow> parkAsleep k a (tb_grace (lf_table s)) (lf_table s) = (m, t) \<Longrightarrow>
    lstep s (moves (Parking k a) (if m then [] else [Expiring k a]) t [] s)"
| panic_swaps: "PanicEnding k a err \<in># lf_tasks s \<Longrightarrow> hk_EnforceCloseBeforeOpen (hooks_at s a) \<Longrightarrow>
    installCloser k a err (lf_table s) = (c, old, t) \<Longrightarrow>
    lstep s ((moves (PanicEnding k a err) [SwapClosing k a c] (close_chan old t) [] s)\<lparr>lf_key := (lf_key s)(c := k)\<rparr>)"
| panic_unmaps: "PanicEnding k a err \<in># lf_tasks s \<Longrightarrow> \<not> hk_EnforceCloseBeforeOpen (hooks_at s a) \<Longrightarrow>
    lstep s (moves (PanicEnding k a err) [LastClosing k a] (endBusySlot k a err (lf_table s)) [] s)"
| swap_closed: "SwapClosing k a c \<in># lf_tasks s \<Longrightarrow>
    lstep s (moves (SwapClosing k a c) [Uncovering k c] (lf_table s) (dispose a (hooks_at s a) panics) s)"
| uncover: "Uncovering k c \<in># lf_tasks s \<Longrightarrow> lstep s (moves (Uncovering k c) [] (unmapAfterClose k c (lf_table s)) [] s)"
| last_closed: "LastClosing k a \<in># lf_tasks s \<Longrightarrow>
    lstep s (moves (LastClosing k a) [] (lf_table s) (dispose a (hooks_at s a) panics) s)"
| fire: "(i, k, a) \<in> set (tb_timers (lf_table s)) \<Longrightarrow>
    lstep s (s\<lparr>lf_table := (lf_table s)\<lparr>tb_timers := filter (\<lambda>x. fst x \<noteq> i) (tb_timers (lf_table s))\<rparr>, lf_tasks := add_mset (Expiring k a) (lf_tasks s)\<rparr>)"
| expire_skips: "Expiring k a \<in># lf_tasks s \<Longrightarrow> claimExpire k a (lf_table s) = (expireSkip, t) \<Longrightarrow> lstep s (moves (Expiring k a) [] t [] s)"
| expire_enforces: "Expiring k a \<in># lf_tasks s \<Longrightarrow> claimExpire k a (lf_table s) = (expireEnforce hooks, t) \<Longrightarrow>
    lstep s (moves (Expiring k a) [EndingMapped k a] t [] s)"
| expire_disposes: "Expiring k a \<in># lf_tasks s \<Longrightarrow> claimExpire k a (lf_table s) = (expireDispose hooks, t) \<Longrightarrow>
    lstep s (moves (Expiring k a) [Disposing k a] t [] s)"
| mapped_closed: "EndingMapped k a \<in># lf_tasks s \<Longrightarrow>
    lstep s (moves (EndingMapped k a) [Unmapping k a] (lf_table s) (dispose a (hooks_at s a) panics) s)"
| unmap: "Unmapping k a \<in># lf_tasks s \<Longrightarrow> lstep s (moves (Unmapping k a) [] (unmapAfterClose k a (lf_table s)) [] s)"
| disposed: "Disposing k a \<in># lf_tasks s \<Longrightarrow>
    lstep s (moves (Disposing k a) [Unbinding k a] (lf_table s) (dispose a (hooks_at s a) panics) s)"
| unbind: "Unbinding k a \<in># lf_tasks s \<Longrightarrow> lstep s (moves (Unbinding k a) [] (unbindIncarnationLocked a (lf_table s)) [] s)"
| set_alias: "SetAlias k n p g (lf_table s) = (r, t) \<Longrightarrow> lstep s (s\<lparr>lf_table := t\<rparr>)"
| watch: "lstep s (s\<lparr>lf_table := Watch n emp changed i (lf_table s)\<rparr>)"
| drop_watcher: "lstep s (s\<lparr>lf_table := dropWatcher n i (lf_table s)\<rparr>)"
| clear_publisher: "lstep s (s\<lparr>lf_table := ClearPublisher p g (lf_table s)\<rparr>)"

section \<open>Names do not touch the lifecycle\<close>

text \<open>A table without what belongs to its names.\<close>

definition bare :: "Table \<Rightarrow> Table" where
  "bare t = t\<lparr>tb_aliases := [], tb_slots := (\<lambda>a. (tb_slots t a)\<lparr>st_aliases := []\<rparr>), tb_entries := (\<lambda>_. no_entry), tb_nextEntry := 0, tb_delivered := []\<rparr>"

lemma bare_set_entry [simp]: "bare (set_entry e x t) = bare t"
  by (simp add: bare_def set_entry_def)

lemma bare_names [simp]: "bare (t\<lparr>tb_aliases := n\<rparr>) = bare t" "bare (t\<lparr>tb_nextEntry := m\<rparr>) = bare t" "bare (t\<lparr>tb_delivered := d\<rparr>) = bare t"
  by (simp_all add: bare_def)

lemma bare_set_aliases: "bare (set_slot a ((tb_slots t a)\<lparr>st_aliases := es\<rparr>) t) = bare t"
  by (simp add: bare_def set_slot_def fun_eq_iff)

lemma bare_store [simp]: "bare (storeWatchersLocked e v t) = bare t"
  by (simp add: storeWatchersLocked_def Let_def)

lemma bare_release [simp]: "bare (release_name e t) = bare t"
  by (simp add: release_name_def)

lemma bare_detach [simp]: "bare (detachAliasLocked e t) = bare t"
  by (simp add: detachAliasLocked_def bare_set_aliases split: option.split)

lemma bare_clear [simp]: "bare (clearAliasLocked e t) = bare t"
  by (simp add: clearAliasLocked_def Let_def)

lemma bare_unbind_entry [simp]: "bare (unbind_entry e t) = bare t"
  by (simp add: unbind_entry_def Let_def)

lemma bare_fold: "(\<And>e t. bare (f e t) = bare t) \<Longrightarrow> bare (fold f es t) = bare t"
  by (induction es arbitrary: t) simp_all

lemma bare_unbind [simp]: "bare (unbindIncarnationLocked a t) = bare t"
  by (simp add: unbindIncarnationLocked_def bare_fold bare_set_aliases)

lemma bare_name_entry: "name_entry n emp t = (e, t') \<Longrightarrow> bare t' = bare t"
  by (auto simp: name_entry_def split: option.splits)

lemma bare_bind [simp]: "bare (bind_entry e a t) = bare t"
  by (simp add: bind_entry_def Let_def bare_set_aliases)

lemma bare_SetAlias: "SetAlias k n p g t = (r, t') \<Longrightarrow> bare t' = bare t"
  by (auto simp: SetAlias_def Let_def bare_fold split: option.splits if_splits prod.splits dest!: bare_name_entry)

lemma bare_Watch [simp]: "bare (Watch n emp changed i t) = bare t"
  by (auto simp: Watch_def Let_def stick_empty_def split: option.split prod.split dest!: bare_name_entry)

lemma bare_dropWatcher [simp]: "bare (dropWatcher n i t) = bare t"
  by (simp add: dropWatcher_def split: option.split)

lemma bare_ClearPublisher [simp]: "bare (ClearPublisher p g t) = bare t"
  by (simp add: ClearPublisher_def bare_fold)

lemma bare_sel:
  "tb_grace (bare t) = tb_grace t" "tb_init (bare t) = tb_init t" "tb_items (bare t) = tb_items t" 
    "tb_nextSlot (bare t) = tb_nextSlot t" "tb_closed (bare t) = tb_closed t" "tb_ended (bare t) = tb_ended t" "tb_nextChan (bare t) = tb_nextChan t" "tb_timers (bare t) = tb_timers t" "tb_nextTimer (bare t) = tb_nextTimer t"
  "st_hooks (tb_slots (bare t) a) = st_hooks (tb_slots t a)" "st_createErr (tb_slots (bare t) a) = st_createErr (tb_slots t a)" "st_state (tb_slots (bare t) a) = st_state (tb_slots t a)" 
    "st_holders (tb_slots (bare t) a) = st_holders (tb_slots t a)" "st_ready (tb_slots (bare t) a) = st_ready (tb_slots t a)" "st_graceTimer (tb_slots (bare t) a) = st_graceTimer (tb_slots t a)" "st_finished (tb_slots (bare t) a) = st_finished (tb_slots t a)"
  by (simp_all add: bare_def)

lemma bare_fields:
  assumes "bare t' = bare t"
  shows "tb_grace t' = tb_grace t" "tb_init t' = tb_init t" "tb_items t' = tb_items t" 
    "tb_nextSlot t' = tb_nextSlot t" "tb_closed t' = tb_closed t" "tb_ended t' = tb_ended t" "tb_nextChan t' = tb_nextChan t" "tb_timers t' = tb_timers t" "tb_nextTimer t' = tb_nextTimer t"
    "st_hooks (tb_slots t' a) = st_hooks (tb_slots t a)" "st_createErr (tb_slots t' a) = st_createErr (tb_slots t a)" "st_state (tb_slots t' a) = st_state (tb_slots t a)" 
    "st_holders (tb_slots t' a) = st_holders (tb_slots t a)" "st_ready (tb_slots t' a) = st_ready (tb_slots t a)" "st_graceTimer (tb_slots t' a) = st_graceTimer (tb_slots t a)" "st_finished (tb_slots t' a) = st_finished (tb_slots t a)"
  by (simp_all only: bare_sel [of t', unfolded assms, unfolded bare_sel])

lemmas unbind_core [simp] = bare_fields [OF bare_unbind]

section \<open>The invariant\<close>

text \<open>What a task does to the slots it is about.\<close>

datatype role = Rcreate | Rwake | Rhold | Rclaim | Rsleep | Rpark | Rpanic | Rend | Runmap | Rexpire | Rdispose | Rswap | Rcloser

fun roles :: "task \<Rightarrow> (nat \<times> role) list" where
  "roles (Looking k) = []"
| "roles (Creating k a) = [(a, Rcreate)]"
| "roles (OpenParked k a c) = []"
| "roles (Waking k a) = [(a, Rwake)]"
| "roles (Binding k a) = [(a, Rhold)]"
| "roles (Holding k a) = [(a, Rhold)]"
| "roles (Watching k a) = [(a, Rhold)]"
| "roles (Releasing k a) = [(a, Rhold)]"
| "roles (Claiming k a) = [(a, Rclaim)]"
| "roles (DropParked k a c) = []"
| "roles (Sleeping k a) = [(a, Rsleep)]"
| "roles (Parking k a) = [(a, Rpark)]"
| "roles (PanicEnding k a err) = [(a, Rpanic)]"
| "roles (EndingMapped k a) = [(a, Rend)]"
| "roles (Unmapping k a) = [(a, Runmap)]"
| "roles (Expiring k a) = [(a, Rexpire)]"
| "roles (Disposing k a) = [(a, Rdispose)]"
| "roles (Unbinding k a) = []"
| "roles (LastClosing k a) = [(a, Rdispose)]"
| "roles (SwapClosing k a c) = [(a, Rswap), (c, Rcloser)]"
| "roles (Uncovering k c) = [(c, Rcloser)]"

text \<open>The slots a task names, with the key it names them under.\<close>

fun subjects :: "task \<Rightarrow> (string \<times> nat) list" where
  "subjects (Looking k) = []"
| "subjects (Creating k a) = [(k, a)]"
| "subjects (OpenParked k a c) = [(k, a)]"
| "subjects (Waking k a) = [(k, a)]"
| "subjects (Binding k a) = [(k, a)]"
| "subjects (Holding k a) = [(k, a)]"
| "subjects (Watching k a) = [(k, a)]"
| "subjects (Releasing k a) = [(k, a)]"
| "subjects (Claiming k a) = [(k, a)]"
| "subjects (DropParked k a c) = [(k, a)]"
| "subjects (Sleeping k a) = [(k, a)]"
| "subjects (Parking k a) = [(k, a)]"
| "subjects (PanicEnding k a err) = [(k, a)]"
| "subjects (EndingMapped k a) = [(k, a)]"
| "subjects (Unmapping k a) = [(k, a)]"
| "subjects (Expiring k a) = [(k, a)]"
| "subjects (Disposing k a) = [(k, a)]"
| "subjects (Unbinding k a) = [(k, a)]"
| "subjects (LastClosing k a) = [(k, a)]"
| "subjects (SwapClosing k a c) = [(k, a), (k, c)]"
| "subjects (Uncovering k c) = [(k, c)]"

fun parked_on :: "task \<Rightarrow> (nat \<times> nat) option" where
  "parked_on (OpenParked k a c) = Some (a, c)"
| "parked_on (DropParked k a c) = Some (a, c)"
| "parked_on _ = None"

fun event_slot :: "event \<Rightarrow> nat" where
  "event_slot (MsgPut a) = a"
| "event_slot (MsgBind a) = a"
| "event_slot (MsgOrphan a) = a"
| "event_slot (MsgReclaim a) = a"
| "event_slot (MsgDispose a) = a"
| "event_slot (MsgHookPanic a h) = a"

definition cnt :: "task multiset \<Rightarrow> nat \<Rightarrow> role \<Rightarrow> nat" where
  "cnt M a r = size {#p \<in># M. (a, r) \<in> set (roles p)#}"

definition closes :: "event list \<Rightarrow> nat \<Rightarrow> nat" where
  "closes evs a = length (filter (\<lambda>e. e = MsgDispose a) evs)"

definition created :: "event list \<Rightarrow> nat \<Rightarrow> bool" where
  "created evs a \<longleftrightarrow> MsgPut a \<in> set evs"

definition timers_of :: "Table \<Rightarrow> nat \<Rightarrow> nat" where
  "timers_of t a = length (filter (\<lambda>x. snd (snd x) = a) (tb_timers t))"

definition owners :: "(role \<Rightarrow> nat) \<Rightarrow> nat" where
  "owners c = c Rcreate + c Rwake + c Rsleep + c Rpark + c Rpanic + c Rend + c Runmap + c Rcloser"

definition ending :: "(role \<Rightarrow> nat) \<Rightarrow> nat" where
  "ending c = c Rdispose + c Rswap"

text \<open>
  A slot by its state: whether its key leads to it, how many timers it has, the tasks that are about it by role,
  how often it was closed, whether \<open>create\<close> worked, and whether the table keeps values for a while.
\<close>

definition phase_ok :: "slot \<Rightarrow> bool \<Rightarrow> nat \<Rightarrow> (role \<Rightarrow> nat) \<Rightarrow> nat \<Rightarrow> bool \<Rightarrow> bool \<Rightarrow> bool" where
  "phase_ok s mapped timers c n made keeps \<longleftrightarrow>
     (case st_state s of
        slotBusy \<Rightarrow> owners c = 1 \<and> mapped \<and> c Rhold = 0 \<and> ending c = 0 \<and> n = c Runmap \<and> (made \<longleftrightarrow> c Rcreate + c Rcloser = 0)
          \<and> (c Rpanic = 0 \<longrightarrow> st_holders s = int (c Rwake)) \<and> (c Rcloser = 0 \<longrightarrow> st_finished s)
          \<and> (0 < c Rpark \<and> hk_EnforceCloseBeforeOpen (st_hooks s) \<longrightarrow> keeps)
      | slotAwake \<Rightarrow> owners c = 0 \<and> mapped \<and> ending c = 0 \<and> n = 0 \<and> made \<and> st_finished s
          \<and> st_holders s = int (c Rhold) \<and> (c Rhold = 0 \<longrightarrow> 0 < c Rclaim)
      | slotAsleep \<Rightarrow> owners c = 0 \<and> c Rhold = 0 \<and> ending c = 0 \<and> n = 0 \<and> made \<and> st_finished s
          \<and> st_holders s = 0 \<and> 0 < timers + c Rexpire \<and> (\<not> mapped \<longrightarrow> 0 < c Rexpire) \<and> (hk_EnforceCloseBeforeOpen (st_hooks s) \<longrightarrow> mapped)
      | slotGone \<Rightarrow> owners c = 0 \<and> \<not> mapped \<and> c Rhold = 0 \<and> (made \<longrightarrow> n + ending c = 1) \<and> (\<not> made \<longrightarrow> n = 0 \<and> ending c = 0)
          \<and> (hk_EnforceCloseBeforeOpen (st_hooks s) \<longrightarrow> c Rdispose = 0))"

definition maps_ok :: "Table \<Rightarrow> (nat \<Rightarrow> string) \<Rightarrow> bool" where
  "maps_ok t key \<longleftrightarrow> tb_init t \<and> wf_map (tb_items t) \<and> (\<forall>k a. mapped_at t k = Some a \<longrightarrow> a < tb_nextSlot t \<and> key a = k)"

definition timers_ok :: "Table \<Rightarrow> (nat \<Rightarrow> string) \<Rightarrow> bool" where
  "timers_ok t key \<longleftrightarrow> distinct (map fst (tb_timers t))
     \<and> (\<forall>x \<in> set (tb_timers t). fst x < tb_nextTimer t \<and> snd (snd x) < tb_nextSlot t \<and> key (snd (snd x)) = fst (snd x))
     \<and> (\<forall>a < tb_nextSlot t. \<forall>i. st_graceTimer (slot_at t a) = Some i \<longrightarrow>
          i < tb_nextTimer t \<and> (\<forall>x \<in> set (tb_timers t). fst x = i \<longrightarrow> snd (snd x) = a))"

definition chans_ok :: "Table \<Rightarrow> bool" where
  "chans_ok t \<longleftrightarrow> distinct (tb_closed t) \<and> (\<forall>c \<in> set (tb_closed t). c < tb_nextChan t)
     \<and> (\<forall>a < tb_nextSlot t. st_state (slot_at t a) = slotBusy \<longrightarrow> st_ready (slot_at t a) < tb_nextChan t \<and> st_ready (slot_at t a) \<notin> set (tb_closed t))
     \<and> (\<forall>a < tb_nextSlot t. \<forall>b < tb_nextSlot t. st_state (slot_at t a) = slotBusy \<longrightarrow> st_state (slot_at t b) = slotBusy \<longrightarrow>
          st_ready (slot_at t a) = st_ready (slot_at t b) \<longrightarrow> a = b)"

definition ends_ok :: "Table \<Rightarrow> bool" where
  "ends_ok t \<longleftrightarrow> distinct (tb_ended t) \<and> (\<forall>a \<in> set (tb_ended t). a < tb_nextSlot t \<and> \<not> st_finished (slot_at t a))"

definition waits :: "Table \<Rightarrow> nat \<Rightarrow> nat \<Rightarrow> bool" where
  "waits t a c \<longleftrightarrow> c \<in> set (tb_closed t) \<or> st_state (slot_at t a) = slotBusy \<and> st_ready (slot_at t a) = c"

definition task_ok :: "Table \<Rightarrow> (nat \<Rightarrow> string) \<Rightarrow> task \<Rightarrow> bool" where
  "task_ok t key p \<longleftrightarrow> (\<forall>x \<in> set (subjects p). snd x < tb_nextSlot t \<and> key (snd x) = fst x)
     \<and> (case parked_on p of None \<Rightarrow> True | Some (a, c) \<Rightarrow> waits t a c)"

definition slots_ok :: "life \<Rightarrow> bool" where
  "slots_ok s \<longleftrightarrow> (\<forall>a < tb_nextSlot (lf_table s).
     phase_ok (slot_at (lf_table s) a) (mapped_at (lf_table s) (lf_key s a) = Some a) (timers_of (lf_table s) a)
       (cnt (lf_tasks s) a) (closes (lf_log s) a) (created (lf_log s) a) (0 < tb_grace (lf_table s)))"

definition life_inv :: "life \<Rightarrow> bool" where
  "life_inv s \<longleftrightarrow> slots_ok s \<and> maps_ok (lf_table s) (lf_key s) \<and> timers_ok (lf_table s) (lf_key s) \<and> chans_ok (lf_table s) \<and> ends_ok (lf_table s)
     \<and> (\<forall>p \<in># lf_tasks s. task_ok (lf_table s) (lf_key s) p) \<and> (\<forall>e \<in> set (lf_log s). event_slot e < tb_nextSlot (lf_table s))"

section \<open>Steps that touch one slot\<close>

lemma cnt_pos: "p \<in># M \<Longrightarrow> (a, r) \<in> set (roles p) \<Longrightarrow> 0 < cnt M a r"
  unfolding cnt_def by (metis (mono_tags, lifting) filter_mset_eq_conv mem_Collect_eq nonempty_has_size set_mset_filter empty_iff set_mset_empty)

lemma cnt_member: "0 < cnt M a r \<Longrightarrow> \<exists>p \<in># M. (a, r) \<in> set (roles p)"
  unfolding cnt_def nonempty_has_size [symmetric] by (auto simp: multiset_eq_iff split: if_splits)

definition has_role :: "nat \<Rightarrow> role \<Rightarrow> task \<Rightarrow> nat" where
  "has_role a r p = (if (a, r) \<in> set (roles p) then 1 else 0)"

lemma has_role_le: "p \<in># M \<Longrightarrow> has_role a r p \<le> cnt M a r"
  using cnt_pos [of p M a r] by (auto simp: has_role_def Suc_le_eq)

lemma cnt_add [simp]: "cnt (add_mset p M) a r = has_role a r p + cnt M a r"
  by (simp add: cnt_def has_role_def)

lemma cnt_empty [simp]: "cnt {#} a r = 0"
  by (simp add: cnt_def)

lemma cnt_remove: "p \<in># M \<Longrightarrow> cnt (M - {#p#}) a r = cnt M a r - has_role a r p"
  by (metis add_diff_cancel_left' cnt_add insert_DiffM)

lemma cnt_swap: "p \<in># M \<Longrightarrow> cnt (M - {#p#} + mset qs) a r = cnt M a r - has_role a r p + sum_list (map (has_role a r) qs)"
  by (induction qs) (simp_all add: cnt_remove)

lemma moves_fields [simp]:
  "lf_table (moves p qs t evs s) = t" "lf_tasks (moves p qs t evs s) = lf_tasks s - {#p#} + mset qs"
  "lf_log (moves p qs t evs s) = lf_log s @ evs" "lf_key (moves p qs t evs s) = lf_key s"
  by (simp_all add: moves_def)

lemma closes_append [simp]: "closes (xs @ ys) a = closes xs a + closes ys a"
  by (simp add: closes_def)

lemma created_append [simp]: "created (xs @ ys) a \<longleftrightarrow> created xs a \<or> created ys a"
  by (auto simp: created_def)

lemma closes_other: "\<forall>e \<in> set evs. event_slot e = a \<Longrightarrow> b \<noteq> a \<Longrightarrow> closes evs b = 0"
  by (auto simp: closes_def filter_empty_conv)

lemma created_other: "\<forall>e \<in> set evs. event_slot e = a \<Longrightarrow> b \<noteq> a \<Longrightarrow> \<not> created evs b"
  by (auto simp: created_def)

text \<open>
  A new table that differs from an old one in one slot. The last condition is that nobody who waits is forgotten:
  a slot that stops being busy, or that becomes busy again, has closed the channel.
\<close>

definition same_slot :: "slot \<Rightarrow> slot \<Rightarrow> bool" where
  "same_slot s s' \<longleftrightarrow> st_hooks s' = st_hooks s \<and> st_state s' = st_state s \<and> st_holders s' = st_holders s \<and> st_ready s' = st_ready s
     \<and> st_graceTimer s' = st_graceTimer s \<and> st_finished s' = st_finished s"

definition only_slot :: "nat \<Rightarrow> (nat \<Rightarrow> string) \<Rightarrow> Table \<Rightarrow> Table \<Rightarrow> bool" where
  "only_slot a key t t' \<longleftrightarrow> tb_nextSlot t' = tb_nextSlot t \<and> tb_grace t' = tb_grace t
     \<and> (\<forall>b. b \<noteq> a \<longrightarrow> same_slot (slot_at t b) (slot_at t' b) \<and> (mapped_at t' (key b) = Some b \<longleftrightarrow> mapped_at t (key b) = Some b) \<and> timers_of t' b = timers_of t b)
     \<and> set (tb_closed t) \<subseteq> set (tb_closed t') \<and> (\<forall>c. waits t a c \<longrightarrow> waits t' a c)"

definition table_ok :: "Table \<Rightarrow> (nat \<Rightarrow> string) \<Rightarrow> bool" where
  "table_ok t key \<longleftrightarrow> maps_ok t key \<and> timers_ok t key \<and> chans_ok t \<and> ends_ok t"

lemma phase_ok_same: "same_slot s s' \<Longrightarrow> phase_ok s' m tm c n made keeps = phase_ok s m tm c n made keeps"
  unfolding same_slot_def phase_ok_def by (cases "st_state s") simp_all

lemma same_slot_refl [simp]: "same_slot s s"
  by (simp add: same_slot_def)

lemma only_waits: "only_slot a key t t' \<Longrightarrow> waits t b c \<Longrightarrow> waits t' b c"
  by (cases "b = a") (auto simp: only_slot_def waits_def same_slot_def)

lemma only_task_ok: "only_slot a key t t' \<Longrightarrow> task_ok t key p \<Longrightarrow> task_ok t' key p"
  using only_waits [of a key t t'] by (auto simp: task_ok_def only_slot_def split: option.splits)

lemma life_inv_iff: "life_inv s \<longleftrightarrow> slots_ok s \<and> table_ok (lf_table s) (lf_key s)
     \<and> (\<forall>p \<in># lf_tasks s. task_ok (lf_table s) (lf_key s) p) \<and> (\<forall>e \<in> set (lf_log s). event_slot e < tb_nextSlot (lf_table s))"
  by (auto simp: life_inv_def table_ok_def)

lemma slots_okD:
  assumes "slots_ok s" "a < tb_nextSlot (lf_table s)"
  shows "phase_ok (slot_at (lf_table s) a) (mapped_at (lf_table s) (lf_key s a) = Some a) (timers_of (lf_table s) a)
       (cnt (lf_tasks s) a) (closes (lf_log s) a) (created (lf_log s) a) (0 < tb_grace (lf_table s))"
  using assms by (simp add: slots_ok_def)

lemma life_inv_moves:
  assumes inv: "life_inv s" and p: "p \<in># lf_tasks s" and only: "only_slot a (lf_key s) (lf_table s) t" and tab: "table_ok t (lf_key s)"
    and a: "a < tb_nextSlot (lf_table s)"
    and about: "\<And>b r. b \<noteq> a \<Longrightarrow> has_role b r p = sum_list (map (has_role b r) qs)" "\<forall>e \<in> set evs. event_slot e = a"
    and tasks: "\<forall>q \<in> set qs. task_ok t (lf_key s) q"
    and ok: "phase_ok (slot_at t a) (mapped_at t (lf_key s a) = Some a) (timers_of t a)
      (\<lambda>r. cnt (lf_tasks s) a r - has_role a r p + sum_list (map (has_role a r) qs)) (closes (lf_log s) a + closes evs a)
      (created (lf_log s) a \<or> created evs a) (0 < tb_grace t)"
  shows "life_inv (moves p qs t evs s)"
proof -
  have next': "tb_nextSlot t = tb_nextSlot (lf_table s)"
    using only by (simp add: only_slot_def)
  have "slots_ok (moves p qs t evs s)"
    unfolding slots_ok_def
  proof (intro allI impI)
    fix b assume b: "b < tb_nextSlot (lf_table (moves p qs t evs s))"
    show "phase_ok (slot_at (lf_table (moves p qs t evs s)) b) (mapped_at (lf_table (moves p qs t evs s)) (lf_key (moves p qs t evs s) b) = Some b)
      (timers_of (lf_table (moves p qs t evs s)) b) (cnt (lf_tasks (moves p qs t evs s)) b) (closes (lf_log (moves p qs t evs s)) b)
      (created (lf_log (moves p qs t evs s)) b) (0 < tb_grace (lf_table (moves p qs t evs s)))"
    proof (cases "b = a")
      case True
      have "cnt (lf_tasks s - {#p#} + mset qs) a = (\<lambda>r. cnt (lf_tasks s) a r - has_role a r p + sum_list (map (has_role a r) qs))"
        using p by (intro ext cnt_swap)
      with ok True show ?thesis
        by simp
    next
      case False
      have "cnt (lf_tasks s - {#p#} + mset qs) b r = cnt (lf_tasks s) b r" for r
        using cnt_swap [OF p, of qs b r] about(1) [OF False, of r] has_role_le [OF p, of b r] by linarith
      then have "cnt (lf_tasks s - {#p#} + mset qs) b = cnt (lf_tasks s) b"
        by blast
      moreover have sm: "same_slot (slot_at (lf_table s) b) (slot_at t b)"
        using only False by (simp add: only_slot_def)
      ultimately show ?thesis
        using slots_okD [of s b] False b inv only closes_other [OF about(2) False] created_other [OF about(2) False]
        by (simp add: only_slot_def next' phase_ok_same [OF sm] life_inv_def)
    qed
  qed
  moreover have "\<forall>q \<in># lf_tasks (moves p qs t evs s). task_ok t (lf_key s) q"
    using inv tasks only_task_ok [OF only] by (auto simp: life_inv_def dest: in_diffD)
  ultimately show ?thesis
    using tab inv about(2) a by (auto simp: life_inv_iff next')
qed

section \<open>What the critical sections do to the table\<close>

lemma set_slot_fields [simp]:
  "tb_grace (set_slot a s t) = tb_grace t" "tb_init (set_slot a s t) = tb_init t" "tb_nextSlot (set_slot a s t) = tb_nextSlot t"
  "tb_closed (set_slot a s t) = tb_closed t" "tb_ended (set_slot a s t) = tb_ended t" "tb_nextChan (set_slot a s t) = tb_nextChan t"
  "tb_timers (set_slot a s t) = tb_timers t" "tb_nextTimer (set_slot a s t) = tb_nextTimer t"
  by (simp_all add: set_slot_def)

lemma close_chan_fields [simp]:
  "tb_grace (close_chan c t) = tb_grace t" "tb_init (close_chan c t) = tb_init t" "tb_nextSlot (close_chan c t) = tb_nextSlot t"
  "tb_closed (close_chan c t) = c # tb_closed t" "tb_ended (close_chan c t) = tb_ended t" "tb_nextChan (close_chan c t) = tb_nextChan t"
  "tb_timers (close_chan c t) = tb_timers t" "tb_nextTimer (close_chan c t) = tb_nextTimer t" "tb_slots (close_chan c t) = tb_slots t"
  "tb_items (close_chan c t) = tb_items t"
  by (simp_all add: close_chan_def)

lemma unmap_if_fields [simp]:
  "tb_grace (unmap_if k a t) = tb_grace t" "tb_init (unmap_if k a t) = tb_init t" "tb_nextSlot (unmap_if k a t) = tb_nextSlot t"
  "tb_closed (unmap_if k a t) = tb_closed t" "tb_ended (unmap_if k a t) = tb_ended t" "tb_nextChan (unmap_if k a t) = tb_nextChan t"
  "tb_timers (unmap_if k a t) = tb_timers t" "tb_nextTimer (unmap_if k a t) = tb_nextTimer t" "tb_slots (unmap_if k a t) = tb_slots t"
  by (simp_all add: unmap_if_def)

lemma mapped_unmap_if: "mapped_at (unmap_if k a t) j = (if j = k \<and> mapped_at t k = Some a then None else mapped_at t j)"
  by (auto simp: unmap_if_def delete_conv')

lemma wf_unmap_if [simp]: "wf_map (tb_items t) \<Longrightarrow> wf_map (tb_items (unmap_if k a t))"
  by (simp add: unmap_if_def)

lemma timers_of_cong: "tb_timers t' = tb_timers t \<Longrightarrow> timers_of t' b = timers_of t b"
  by (simp add: timers_of_def)

text \<open>Parts of the table that a step leaves alone stay as they were.\<close>

lemma maps_ok_cong: "tb_init t' = tb_init t \<Longrightarrow> tb_items t' = tb_items t \<Longrightarrow> tb_nextSlot t' = tb_nextSlot t \<Longrightarrow> maps_ok t' key = maps_ok t key"
  by (simp add: maps_ok_def)

lemma timers_ok_cong:
  assumes "tb_timers t' = tb_timers t" "tb_nextTimer t' = tb_nextTimer t" "tb_nextSlot t' = tb_nextSlot t"
    and "\<forall>b. st_graceTimer (slot_at t' b) = st_graceTimer (slot_at t b)"
  shows "timers_ok t' key = timers_ok t key"
  using assms by (simp add: timers_ok_def)

lemma ends_ok_cong:
  assumes "tb_ended t' = tb_ended t" "tb_nextSlot t' = tb_nextSlot t" "\<forall>b. st_finished (slot_at t' b) = st_finished (slot_at t b)"
  shows "ends_ok t' = ends_ok t"
  using assms by (simp add: ends_ok_def)

lemma chans_ok_cong:
  assumes "tb_closed t' = tb_closed t" "tb_nextChan t' = tb_nextChan t" "tb_nextSlot t' = tb_nextSlot t"
    and "\<forall>b. st_ready (slot_at t' b) = st_ready (slot_at t b) \<and> (st_state (slot_at t' b) = slotBusy \<longleftrightarrow> st_state (slot_at t b) = slotBusy)"
  shows "chans_ok t' = chans_ok t"
  using assms by (simp add: chans_ok_def)

text \<open>A slot takes a new ready channel and becomes busy; a busy slot stops being busy and closes its channel.\<close>

lemma chans_okD:
  assumes "chans_ok t"
  shows "a < tb_nextSlot t \<Longrightarrow> st_state (slot_at t a) = slotBusy \<Longrightarrow> st_ready (slot_at t a) < tb_nextChan t \<and> st_ready (slot_at t a) \<notin> set (tb_closed t)"
    and "a < tb_nextSlot t \<Longrightarrow> b < tb_nextSlot t \<Longrightarrow> st_state (slot_at t a) = slotBusy \<Longrightarrow> st_state (slot_at t b) = slotBusy \<Longrightarrow>
      st_ready (slot_at t a) = st_ready (slot_at t b) \<Longrightarrow> a = b"
    and "distinct (tb_closed t)" "\<forall>c \<in> set (tb_closed t). c < tb_nextChan t"
  using assms unfolding chans_ok_def by blast+

lemma chans_ok_busy:
  assumes ok: "chans_ok t" and eqs: "tb_closed t' = tb_closed t" "tb_nextChan t' = Suc (tb_nextChan t)" "st_ready (slot_at t' a) = tb_nextChan t"
    and known: "\<And>b. b \<noteq> a \<Longrightarrow> b < tb_nextSlot t' \<Longrightarrow> b < tb_nextSlot t"
    and others: "\<And>b. b \<noteq> a \<Longrightarrow> st_ready (slot_at t' b) = st_ready (slot_at t b) \<and> st_state (slot_at t' b) = st_state (slot_at t b)"
  shows "chans_ok t'"
  unfolding chans_ok_def
proof (intro conjI allI impI)
  fix x y
  assume "x < tb_nextSlot t'" "y < tb_nextSlot t'" "st_state (slot_at t' x) = slotBusy" "st_state (slot_at t' y) = slotBusy"
    "st_ready (slot_at t' x) = st_ready (slot_at t' y)"
  with chans_okD(1) [OF ok, of x] chans_okD(1) [OF ok, of y] eqs known [of x] known [of y] others [of x] others [of y] show "x = y"
    by (cases "x = a"; cases "y = a") (auto intro: chans_okD(2) [OF ok])
next
  fix x
  assume "x < tb_nextSlot t'" "st_state (slot_at t' x) = slotBusy"
  with chans_okD(1) [OF ok, of x] chans_okD(4) [OF ok] eqs known [of x] others [of x]
  show "st_ready (slot_at t' x) < tb_nextChan t'" "st_ready (slot_at t' x) \<notin> set (tb_closed t')"
    by (cases "x = a"; auto)+
qed (use chans_okD(3,4) [OF ok] eqs in auto)

lemma chans_ok_leave:
  assumes ok: "chans_ok t" and a: "a < tb_nextSlot t" "st_state (slot_at t a) = slotBusy"
    and eqs: "tb_closed t' = st_ready (slot_at t a) # tb_closed t" "tb_nextChan t' = tb_nextChan t" "tb_nextSlot t' = tb_nextSlot t"
    "st_state (slot_at t' a) \<noteq> slotBusy"
    and others: "\<And>b. b \<noteq> a \<Longrightarrow> st_ready (slot_at t' b) = st_ready (slot_at t b) \<and> st_state (slot_at t' b) = st_state (slot_at t b)"
  shows "chans_ok t'"
  unfolding chans_ok_def
proof (intro conjI allI impI)
  fix x y
  assume "x < tb_nextSlot t'" "y < tb_nextSlot t'" "st_state (slot_at t' x) = slotBusy" "st_state (slot_at t' y) = slotBusy"
    "st_ready (slot_at t' x) = st_ready (slot_at t' y)"
  with eqs others [of x] others [of y] show "x = y"
    by (cases "x = a"; cases "y = a") (auto intro: chans_okD(2) [OF ok])
next
  fix x
  assume "x < tb_nextSlot t'" "st_state (slot_at t' x) = slotBusy"
  with chans_okD(1) [OF ok, of x] chans_okD(2) [OF ok, of x a, THEN notE [rotated]] a eqs others [of x]
  show "st_ready (slot_at t' x) < tb_nextChan t'" "st_ready (slot_at t' x) \<notin> set (tb_closed t')"
    by (cases "x = a"; auto)+
qed (use chans_okD [OF ok] a eqs in auto)

lemma ends_ok_close:
  assumes "ends_ok t" "a < tb_nextSlot t" "tb_ended t' = (if st_finished (slot_at t a) then a # tb_ended t else tb_ended t)" "tb_nextSlot t' = tb_nextSlot t"
    and "\<not> st_finished (slot_at t' a)" "\<forall>b. b \<noteq> a \<longrightarrow> st_finished (slot_at t' b) = st_finished (slot_at t b)"
  shows "ends_ok t'"
  unfolding ends_ok_def
proof (intro conjI ballI)
  show "distinct (tb_ended t')"
    using assms by (auto simp: ends_ok_def)
  fix b assume "b \<in> set (tb_ended t')"
  with assms show "b < tb_nextSlot t'" "\<not> st_finished (slot_at t' b)"
    by (cases "b = a"; auto simp: ends_ok_def split: if_splits)+
qed

lemma maps_ok_unmap:
  assumes "maps_ok t key" "tb_init t' = tb_init t" "tb_items t' = tb_items (unmap_if k a t)" "tb_nextSlot t' = tb_nextSlot t"
  shows "maps_ok t' key"
  using assms by (auto simp: maps_ok_def mapped_unmap_if split: if_splits)

definition table_step :: "nat \<Rightarrow> (nat \<Rightarrow> string) \<Rightarrow> Table \<Rightarrow> Table \<Rightarrow> bool" where
  "table_step a key t t' \<longleftrightarrow> table_ok t' key \<and> only_slot a key t t'"

lemma table_step_bare:
  assumes "bare t' = bare t" "table_ok t key"
  shows "table_step a key t t'"
proof -
  note f = bare_fields [OF assms(1)]
  have "table_ok t' key"
    using assms(2) by (simp add: table_ok_def maps_ok_def timers_ok_def chans_ok_def ends_ok_def f)
  then show ?thesis
    by (simp add: table_step_def only_slot_def same_slot_def timers_of_def waits_def f)
qed

lemma table_step_refl: "table_ok t key \<Longrightarrow> table_step a key t t"
  by (rule table_step_bare) simp_all

lemma table_step_holders:
  assumes "table_ok t key"
  shows "table_step a key t (set_slot a ((slot_at t a)\<lparr>st_holders := n\<rparr>) t)"
proof -
  let ?t = "set_slot a ((slot_at t a)\<lparr>st_holders := n\<rparr>) t"
  have "maps_ok ?t key = maps_ok t key" "timers_ok ?t key = timers_ok t key" "chans_ok ?t = chans_ok t" "ends_ok ?t = ends_ok t"
    by (intro maps_ok_cong timers_ok_cong chans_ok_cong ends_ok_cong; simp)+
  with assms show ?thesis
    by (simp add: table_step_def table_ok_def only_slot_def timers_of_def waits_def)
qed

lemma make_busy_fields [simp]:
  "tb_grace (make_busy a t) = tb_grace t" "tb_init (make_busy a t) = tb_init t" "tb_nextSlot (make_busy a t) = tb_nextSlot t"
  "tb_closed (make_busy a t) = tb_closed t" "tb_ended (make_busy a t) = tb_ended t" "tb_nextChan (make_busy a t) = Suc (tb_nextChan t)"
  "tb_timers (make_busy a t) = tb_timers t" "tb_nextTimer (make_busy a t) = tb_nextTimer t" "tb_items (make_busy a t) = tb_items t"
  "tb_slots (make_busy a t) = (tb_slots t)(a := (tb_slots t a)\<lparr>st_state := slotBusy, st_ready := tb_nextChan t\<rparr>)"
  by (simp_all add: make_busy_def make_chan_def)

lemma table_step_busy:
  assumes ok: "table_ok t key" and idle: "st_state (slot_at t a) \<noteq> slotBusy"
  shows "table_step a key t (make_busy a t)"
proof -
  have "maps_ok (make_busy a t) key = maps_ok t key" "timers_ok (make_busy a t) key = timers_ok t key" "ends_ok (make_busy a t) = ends_ok t"
    by (intro maps_ok_cong timers_ok_cong ends_ok_cong; simp)+
  moreover have "chans_ok (make_busy a t)"
    by (rule chans_ok_busy [of t _ a]) (use ok in \<open>simp_all add: table_ok_def\<close>)
  ultimately show ?thesis
    using ok idle by (simp add: table_step_def table_ok_def only_slot_def timers_of_def waits_def)
qed

text \<open>The sleeping slot that an \<open>Open\<close> wakes: busy, with its timer stopped and a holder more.\<close>

definition woken :: "nat \<Rightarrow> Table \<Rightarrow> Table" where
  "woken a t = (let t2 = stop_grace (st_graceTimer (slot_at t a)) (make_busy a t)
     in set_slot a ((slot_at t2 a)\<lparr>st_graceTimer := None, st_holders := st_holders (slot_at t2 a) + 1\<rparr>) t2)"

lemma stop_grace_fields [simp]:
  "tb_grace (stop_grace i t) = tb_grace t" "tb_init (stop_grace i t) = tb_init t" "tb_nextSlot (stop_grace i t) = tb_nextSlot t"
  "tb_closed (stop_grace i t) = tb_closed t" "tb_ended (stop_grace i t) = tb_ended t" "tb_nextChan (stop_grace i t) = tb_nextChan t"
  "tb_nextTimer (stop_grace i t) = tb_nextTimer t" "tb_items (stop_grace i t) = tb_items t" "tb_slots (stop_grace i t) = tb_slots t"
  "tb_timers (stop_grace i t) = filter (\<lambda>x. i \<noteq> Some (fst x)) (tb_timers t)"
  by (auto simp: stop_grace_def split: option.split intro: filter_cong)

lemma woken_fields [simp]:
  "tb_grace (woken a t) = tb_grace t" "tb_init (woken a t) = tb_init t" "tb_nextSlot (woken a t) = tb_nextSlot t"
  "tb_closed (woken a t) = tb_closed t" "tb_ended (woken a t) = tb_ended t" "tb_nextChan (woken a t) = Suc (tb_nextChan t)"
  "tb_nextTimer (woken a t) = tb_nextTimer t" "tb_items (woken a t) = tb_items t"
  "tb_timers (woken a t) = filter (\<lambda>x. st_graceTimer (slot_at t a) \<noteq> Some (fst x)) (tb_timers t)"
  "tb_slots (woken a t) = (tb_slots t)(a := (tb_slots t a)\<lparr>st_state := slotBusy, st_ready := tb_nextChan t, st_graceTimer := None,
     st_holders := st_holders (slot_at t a) + 1\<rparr>)"
  by (simp_all add: woken_def Let_def)

lemma timers_okD:
  assumes "timers_ok t key"
  shows "distinct (map fst (tb_timers t))"
    "x \<in> set (tb_timers t) \<Longrightarrow> fst x < tb_nextTimer t \<and> snd (snd x) < tb_nextSlot t \<and> key (snd (snd x)) = fst (snd x)"
    "a < tb_nextSlot t \<Longrightarrow> st_graceTimer (slot_at t a) = Some i \<Longrightarrow> i < tb_nextTimer t"
    "a < tb_nextSlot t \<Longrightarrow> st_graceTimer (slot_at t a) = Some i \<Longrightarrow> x \<in> set (tb_timers t) \<Longrightarrow> fst x = i \<Longrightarrow> snd (snd x) = a"
  using assms unfolding timers_ok_def by blast+

lemma timers_ok_less:
  assumes ok: "timers_ok t key" and eqs: "tb_timers t' = filter P (tb_timers t)" "tb_nextTimer t' = tb_nextTimer t" "tb_nextSlot t' = tb_nextSlot t"
    and timer: "\<And>b. st_graceTimer (slot_at t' b) = st_graceTimer (slot_at t b) \<or> st_graceTimer (slot_at t' b) = None"
  shows "timers_ok t' key"
  unfolding timers_ok_def
proof (intro conjI allI impI ballI)
  show "distinct (map fst (tb_timers t'))"
    using timers_okD(1) [OF ok] by (simp add: eqs distinct_map_filter)
next
  fix b i x
  assume "b < tb_nextSlot t'" "st_graceTimer (slot_at t' b) = Some i"
  then have b: "b < tb_nextSlot t" "st_graceTimer (slot_at t b) = Some i"
    using timer [of b] by (simp_all add: eqs)
  then show "i < tb_nextTimer t'"
    using timers_okD(3) [OF ok] by (simp add: eqs)
  assume "x \<in> set (tb_timers t')" "fst x = i"
  with b show "snd (snd x) = b"
    using timers_okD(4) [OF ok] by (simp add: eqs)
qed (use timers_okD(2) [OF ok] in \<open>auto simp: eqs\<close>)

lemma table_step_woken:
  assumes ok: "table_ok t key" and a: "a < tb_nextSlot t" "st_state (slot_at t a) \<noteq> slotBusy"
  shows "table_step a key t (woken a t)"
proof -
  from ok have tm: "timers_ok t key" and ch: "chans_ok t"
    by (simp_all add: table_ok_def)
  have "maps_ok (woken a t) key = maps_ok t key" "ends_ok (woken a t) = ends_ok t"
    by (intro maps_ok_cong ends_ok_cong; simp)+
  moreover have "timers_ok (woken a t) key"
    by (rule timers_ok_less [OF tm]) simp_all
  moreover have "chans_ok (woken a t)"
    using ch by (rule chans_ok_busy [of t _ a]) simp_all
  moreover have "timers_of (woken a t) b = timers_of t b" if "b \<noteq> a" for b
    using timers_okD(4) [OF tm a(1)] that by (auto simp: timers_of_def intro!: arg_cong [of _ _ length] filter_cong)
  ultimately show ?thesis
    using ok a by (simp add: table_step_def table_ok_def only_slot_def waits_def)
qed

lemma table_step_leave:
  assumes ok: "table_ok t key" and a: "a < tb_nextSlot t" "st_state (slot_at t a) = slotBusy"
    and maps: "maps_ok t' key" and timers: "timers_ok t' key" and ends: "ends_ok t'"
    and eqs: "tb_closed t' = st_ready (slot_at t a) # tb_closed t" "tb_nextChan t' = tb_nextChan t" "tb_nextSlot t' = tb_nextSlot t"
      "tb_grace t' = tb_grace t" "st_state (slot_at t' a) \<noteq> slotBusy"
    and others: "\<And>b. b \<noteq> a \<Longrightarrow> same_slot (slot_at t b) (slot_at t' b) \<and> (mapped_at t' (key b) = Some b \<longleftrightarrow> mapped_at t (key b) = Some b) \<and> timers_of t' b = timers_of t b"
  shows "table_step a key t t'"
proof -
  have "chans_ok t'"
    by (rule chans_ok_leave [OF _ a eqs(1,2,3,5)]) (use ok others in \<open>auto simp: table_ok_def same_slot_def\<close>)
  moreover have "only_slot a key t t'"
    using others a eqs by (auto simp: only_slot_def waits_def)
  ultimately show ?thesis
    using maps timers ends by (simp add: table_step_def table_ok_def)
qed

lemma closeFinished_fields [simp]:
  "tb_grace (closeFinished a t) = tb_grace t" "tb_init (closeFinished a t) = tb_init t" "tb_nextSlot (closeFinished a t) = tb_nextSlot t"
  "tb_closed (closeFinished a t) = tb_closed t" "tb_nextChan (closeFinished a t) = tb_nextChan t" "tb_items (closeFinished a t) = tb_items t"
  "tb_timers (closeFinished a t) = tb_timers t" "tb_nextTimer (closeFinished a t) = tb_nextTimer t"
  "tb_ended (closeFinished a t) = (if st_finished (slot_at t a) then a # tb_ended t else tb_ended t)"
  "tb_slots (closeFinished a t) = (tb_slots t)(a := (tb_slots t a)\<lparr>st_finished := False\<rparr>)"
  by (cases "tb_slots t a"; simp add: closeFinished_def fun_upd_idem)+

lemma set_state_fields [simp]:
  "tb_grace (set_state a st t) = tb_grace t" "tb_init (set_state a st t) = tb_init t" "tb_nextSlot (set_state a st t) = tb_nextSlot t"
  "tb_closed (set_state a st t) = tb_closed t" "tb_ended (set_state a st t) = tb_ended t" "tb_nextChan (set_state a st t) = tb_nextChan t"
  "tb_timers (set_state a st t) = tb_timers t" "tb_nextTimer (set_state a st t) = tb_nextTimer t" "tb_items (set_state a st t) = tb_items t"
  "tb_slots (set_state a st t) = (tb_slots t)(a := (tb_slots t a)\<lparr>st_state := st\<rparr>)"
  by (simp_all add: set_state_def)

lemma maps_ok_self: "maps_ok t key \<Longrightarrow> mapped_at t k = Some a \<Longrightarrow> key a = k \<and> a < tb_nextSlot t"
  by (simp add: maps_ok_def)

lemma table_step_publishPut:
  assumes ok: "table_ok t key" and a: "a < tb_nextSlot t" "st_state (slot_at t a) = slotBusy" and m: "mapped_at t k = Some a"
  shows "table_step a key t (publishPut k a v hooks t)"
proof -
  let ?t = "publishPut k a v hooks t"
  have same: "mapped_at ?t j = mapped_at t j" for j
    using m by (simp add: publishPut_def Let_def update_conv)
  have "maps_ok ?t key"
    using ok same by (auto simp: table_ok_def maps_ok_def) (simp add: publishPut_def Let_def)+
  moreover have "timers_ok ?t key = timers_ok t key" "ends_ok ?t = ends_ok t"
    by (intro timers_ok_cong ends_ok_cong; simp add: publishPut_def Let_def)+
  ultimately show ?thesis
    by (intro table_step_leave [OF ok a]) (use ok same in \<open>simp_all add: table_ok_def\<close>, simp_all add: publishPut_def Let_def timers_of_def)
qed

lemma table_step_publishWake:
  assumes ok: "table_ok t key" and a: "a < tb_nextSlot t" "st_state (slot_at t a) = slotBusy"
  shows "table_step a key t (publishWake a t)"
proof -
  have "maps_ok (publishWake a t) key = maps_ok t key" "timers_ok (publishWake a t) key = timers_ok t key" "ends_ok (publishWake a t) = ends_ok t"
    by (intro maps_ok_cong timers_ok_cong ends_ok_cong; simp add: publishWake_def)+
  then show ?thesis
    by (intro table_step_leave [OF ok a]) (use ok in \<open>simp_all add: table_ok_def publishWake_def timers_of_def\<close>)
qed

text \<open>The three ways to end a slot share their effect: unmapped if mapped, gone, finished closed once.\<close>

definition ends_slot :: "string \<Rightarrow> nat \<Rightarrow> Table \<Rightarrow> Table \<Rightarrow> bool" where
  "ends_slot k a t t' \<longleftrightarrow> tb_grace t' = tb_grace t \<and> tb_init t' = tb_init t \<and> tb_nextSlot t' = tb_nextSlot t
     \<and> tb_nextChan t' = tb_nextChan t \<and> tb_timers t' = tb_timers t \<and> tb_nextTimer t' = tb_nextTimer t \<and> tb_items t' = tb_items (unmap_if k a t)
     \<and> tb_ended t' = (if st_finished (slot_at t a) then a # tb_ended t else tb_ended t)
     \<and> (\<forall>b. b \<noteq> a \<longrightarrow> same_slot (slot_at t b) (slot_at t' b))
     \<and> st_state (slot_at t' a) = slotGone \<and> \<not> st_finished (slot_at t' a) \<and> st_hooks (slot_at t' a) = st_hooks (slot_at t a)
     \<and> st_graceTimer (slot_at t' a) = st_graceTimer (slot_at t a)"

lemma ends_endBusySlot: "ends_slot k a t (endBusySlot k a err t)" "tb_closed (endBusySlot k a err t) = st_ready (slot_at t a) # tb_closed t"
  by (simp_all add: ends_slot_def endBusySlot_def end_incarnation_def Let_def same_slot_def unmap_if_def)

lemma ends_unmapAfterClose: "ends_slot k a t (unmapAfterClose k a t)" "tb_closed (unmapAfterClose k a t) = st_ready (slot_at t a) # tb_closed t"
  by (simp_all add: ends_slot_def unmapAfterClose_def unmapLocked_def Let_def same_slot_def)

lemma ends_slot_parts:
  assumes e: "ends_slot k a t t'" and ok: "table_ok t key" and a: "a < tb_nextSlot t"
  shows "maps_ok t' key" "timers_ok t' key" "ends_ok t'"
    "b \<noteq> a \<Longrightarrow> (mapped_at t' (key b) = Some b \<longleftrightarrow> mapped_at t (key b) = Some b)"
proof -
  show "maps_ok t' key"
    using e ok by (auto simp: ends_slot_def table_ok_def intro: maps_ok_unmap)
  have "st_graceTimer (slot_at t' b) = st_graceTimer (slot_at t b)" for b
    using e by (cases "b = a") (auto simp: ends_slot_def same_slot_def)
  then have "timers_ok t' key = timers_ok t key"
    using e by (intro timers_ok_cong) (auto simp: ends_slot_def)
  with ok show "timers_ok t' key"
    by (simp add: table_ok_def)
  show "ends_ok t'"
    by (rule ends_ok_close [of t a]) (use e ok a in \<open>auto simp: ends_slot_def table_ok_def same_slot_def\<close>)
  show "b \<noteq> a \<Longrightarrow> (mapped_at t' (key b) = Some b \<longleftrightarrow> mapped_at t (key b) = Some b)"
    using e by (auto simp: ends_slot_def mapped_unmap_if)
qed

lemma table_step_ends:
  assumes e: "ends_slot k a t t'" and closed: "tb_closed t' = st_ready (slot_at t a) # tb_closed t"
    and ok: "table_ok t key" and a: "a < tb_nextSlot t" "st_state (slot_at t a) = slotBusy"
  shows "table_step a key t t'"
  by (rule table_step_leave [OF ok a ends_slot_parts(1,2,3) [OF e ok a(1)] closed])
    (use e ends_slot_parts(4) [OF e ok a(1)] in \<open>auto simp: ends_slot_def timers_of_def\<close>)

text \<open>A sleeping slot whose time is over, without \<open>EnforceCloseBeforeOpen\<close>.\<close>

definition expired :: "string \<Rightarrow> nat \<Rightarrow> Table \<Rightarrow> Table" where
  "expired k a t = unmap_if k a (closeFinished a (set_state a slotGone t))"

lemma ends_expired: "ends_slot k a t (expired k a t)" "tb_closed (expired k a t) = tb_closed t"
  by (simp_all add: ends_slot_def expired_def same_slot_def unmap_if_def)

lemma table_step_expired:
  assumes ok: "table_ok t key" and a: "a < tb_nextSlot t" "st_state (slot_at t a) \<noteq> slotBusy"
  shows "table_step a key t (expired k a t)"
proof -
  note e = ends_expired(1) [of k a t]
  have "chans_ok (expired k a t) = chans_ok t"
    using a by (intro chans_ok_cong) (simp_all add: expired_def)
  with ok e a ends_slot_parts [OF e ok a(1)] show ?thesis
    by (auto simp: table_step_def table_ok_def only_slot_def ends_slot_def ends_expired(2) waits_def timers_of_def)
qed

lemma arm_grace_fields [simp]:
  "tb_grace (arm_grace k a t) = tb_grace t" "tb_init (arm_grace k a t) = tb_init t" "tb_nextSlot (arm_grace k a t) = tb_nextSlot t"
  "tb_closed (arm_grace k a t) = tb_closed t" "tb_ended (arm_grace k a t) = tb_ended t" "tb_nextChan (arm_grace k a t) = tb_nextChan t"
  "tb_timers (arm_grace k a t) = (tb_nextTimer t, k, a) # tb_timers t" "tb_nextTimer (arm_grace k a t) = Suc (tb_nextTimer t)"
  "tb_items (arm_grace k a t) = tb_items t" "tb_slots (arm_grace k a t) = (tb_slots t)(a := (tb_slots t a)\<lparr>st_graceTimer := Some (tb_nextTimer t)\<rparr>)"
  by (simp_all add: arm_grace_def)

lemma timers_ok_arm:
  assumes ok: "timers_ok t key" and a: "a < tb_nextSlot t" "key a = k"
  shows "timers_ok (arm_grace k a t) key"
  unfolding timers_ok_def
proof (intro conjI allI impI ballI)
  show "distinct (map fst (tb_timers (arm_grace k a t)))"
    using timers_okD(1) [OF ok] by (auto dest!: timers_okD(2) [OF ok])
next
  fix b i x
  assume b: "b < tb_nextSlot (arm_grace k a t)" "st_graceTimer (slot_at (arm_grace k a t) b) = Some i"
  then show "i < tb_nextTimer (arm_grace k a t)"
    using timers_okD(3) [OF ok, of b i] by (auto split: if_splits)
  assume "x \<in> set (tb_timers (arm_grace k a t))" "fst x = i"
  with b timers_okD(2) [OF ok, of x] timers_okD(3) [OF ok, of b i] timers_okD(4) [OF ok, of b i x] show "snd (snd x) = b"
    by (cases "b = a") (auto simp del: split_paired_All)
qed (use timers_okD(2) [OF ok] a in \<open>auto simp: less_Suc_eq\<close>)

text \<open>A slot that has slept: unmapped when values are not kept, else with a timer.\<close>

lemma table_step_parkAsleep:
  assumes ok: "table_ok t key" and a: "a < tb_nextSlot t" "st_state (slot_at t a) = slotBusy" and m: "mapped_at t k = Some a"
  shows "table_step a key t (snd (parkAsleep k a grace t))"
proof -
  let ?t = "close_chan (st_ready (slot_at t a)) (set_state a slotAsleep t)"
  have k: "key a = k"
    using ok m maps_ok_self by (auto simp: table_ok_def)
  have parts: "maps_ok ?t key = maps_ok t key" "timers_ok ?t key = timers_ok t key" "ends_ok ?t = ends_ok t"
    by (intro maps_ok_cong timers_ok_cong ends_ok_cong; simp)+
  show ?thesis
  proof (cases "grace \<le> 0")
    case True
    then have eq: "snd (parkAsleep k a grace t) = unmap_if k a ?t"
      using m by (simp add: parkAsleep_def Let_def unmap_if_def)
    have "maps_ok (unmap_if k a ?t) key"
      by (rule maps_ok_unmap [of ?t]) (use ok parts in \<open>simp_all add: table_ok_def\<close>)
    moreover have "timers_ok (unmap_if k a ?t) key = timers_ok ?t key" "ends_ok (unmap_if k a ?t) = ends_ok ?t"
      by (intro timers_ok_cong ends_ok_cong; simp)+
    ultimately show ?thesis
      unfolding eq by (intro table_step_leave [OF ok a]) (use ok parts in \<open>auto simp: table_ok_def timers_of_def mapped_unmap_if\<close>)
  next
    case False
    then have eq: "snd (parkAsleep k a grace t) = arm_grace k a ?t"
      using m by (simp add: parkAsleep_def Let_def)
    have "maps_ok (arm_grace k a ?t) key = maps_ok ?t key" "ends_ok (arm_grace k a ?t) = ends_ok ?t"
      by (intro maps_ok_cong ends_ok_cong; simp)+
    moreover have "timers_ok (arm_grace k a ?t) key"
      by (rule timers_ok_arm) (use ok parts a k in \<open>simp_all add: table_ok_def\<close>)
    ultimately show ?thesis
      unfolding eq by (intro table_step_leave [OF ok a]) (use ok parts in \<open>auto simp: table_ok_def timers_of_def\<close>)
  qed
qed

section \<open>A new slot\<close>

lemma roles_subjects: "(a, r) \<in> set (roles p) \<Longrightarrow> \<exists>k. (k, a) \<in> set (subjects p)"
  by (cases p) auto

lemma parked_subjects: "parked_on p = Some (a, c) \<Longrightarrow> \<exists>k. (k, a) \<in> set (subjects p)"
  by (cases p) auto

lemma cnt_fresh:
  assumes "\<forall>p \<in># M. task_ok t key p" "tb_nextSlot t \<le> n"
  shows "cnt M n r = 0"
proof (rule ccontr)
  assume "cnt M n r \<noteq> 0"
  then obtain p where p: "p \<in># M" "(n, r) \<in> set (roles p)"
    using cnt_member by blast
  then obtain k where "(k, n) \<in> set (subjects p)"
    using roles_subjects by blast
  with p assms show False
    by (fastforce simp: task_ok_def)
qed

lemma closes_fresh: "\<forall>e \<in> set evs. event_slot e < n \<Longrightarrow> closes evs n = 0"
  by (auto simp: closes_def filter_empty_conv)

lemma created_fresh: "\<forall>e \<in> set evs. event_slot e < n \<Longrightarrow> \<not> created evs n"
  by (auto simp: created_def)

lemma timers_fresh: "timers_ok t key \<Longrightarrow> timers_of t (tb_nextSlot t) = 0"
  using timers_okD(2) by (fastforce simp: timers_of_def filter_empty_conv)

text \<open>The new slot \<open>n\<close>, and beside it only slots of a set \<open>A\<close> change.\<close>

lemma life_inv_install:
  assumes inv: "life_inv s" and p: "p \<in># lf_tasks s" and n: "n = tb_nextSlot (lf_table s)" "tb_nextSlot t = Suc n" "tb_grace t = tb_grace (lf_table s)"
      "tb_timers t = tb_timers (lf_table s)"
    and others: "\<And>b. b < n \<Longrightarrow> b \<notin> A \<Longrightarrow> same_slot (slot_at (lf_table s) b) (slot_at t b) \<and>
      (mapped_at t (lf_key s b) = Some b \<longleftrightarrow> mapped_at (lf_table s) (lf_key s b) = Some b)"
    and waiting: "\<And>b c. b < n \<Longrightarrow> waits (lf_table s) b c \<Longrightarrow> waits t b c"
    and tab: "table_ok t ((lf_key s)(n := k))" and task: "task_ok t ((lf_key s)(n := k)) q"
    and about: "\<And>x. x \<in> set (roles p) \<Longrightarrow> fst x \<in> A" "\<And>x. x \<in> set (roles q) \<Longrightarrow> fst x \<in> insert n A"
    and touched: "\<And>b. b < n \<Longrightarrow> b \<in> A \<Longrightarrow> phase_ok (slot_at t b) (mapped_at t (lf_key s b) = Some b) (timers_of t b)
      (\<lambda>r. cnt (lf_tasks s) b r - has_role b r p + has_role b r q) (closes (lf_log s) b) (created (lf_log s) b) (0 < tb_grace t)"
    and fresh: "phase_ok (slot_at t n) (mapped_at t k = Some n) 0 (\<lambda>r. has_role n r q) 0 False (0 < tb_grace t)"
  shows "life_inv ((moves p [q] t [] s)\<lparr>lf_key := (lf_key s)(n := k)\<rparr>)" (is "life_inv ?s")
proof -
  from inv have slots: "slots_ok s" and tasks: "\<forall>p \<in># lf_tasks s. task_ok (lf_table s) (lf_key s) p" and old: "timers_ok (lf_table s) (lf_key s)"
    and evs: "\<forall>e \<in> set (lf_log s). event_slot e < n"
    by (auto simp: life_inv_def n)
  have cnt': "cnt (lf_tasks s - {#p#} + {#q#}) b = (\<lambda>r. cnt (lf_tasks s) b r - has_role b r p + has_role b r q)" for b
    using cnt_swap [OF p, of "[q]" b] by auto
  have "slots_ok ?s"
    unfolding slots_ok_def
  proof (intro allI impI)
    fix b assume "b < tb_nextSlot (lf_table ?s)"
    then consider "b = n" | "b < n" "b \<in> A" | "b < n" "b \<notin> A"
      by (fastforce simp: n(2) less_Suc_eq)
    then show "phase_ok (slot_at (lf_table ?s) b) (mapped_at (lf_table ?s) (lf_key ?s b) = Some b) (timers_of (lf_table ?s) b) (cnt (lf_tasks ?s) b)
      (closes (lf_log ?s) b) (created (lf_log ?s) b) (0 < tb_grace (lf_table ?s))"
    proof cases
      case 1
      have "timers_of t n = 0"
        using timers_fresh [OF old] by (simp add: n(1) timers_of_def n(4))
      then show ?thesis
        using fresh 1 cnt' [of n] cnt_fresh [OF tasks, of n] closes_fresh [OF evs] created_fresh [OF evs] by (simp add: n(1))
    next
      case 2
      with touched [of b] cnt' [of b] show ?thesis
        by simp
    next
      case 3
      have "has_role b r p = 0" "has_role b r q = 0" for r
        using about(1) [of "(b, r)"] about(2) [of "(b, r)"] 3 by (auto simp: has_role_def)
      moreover have sm: "same_slot (slot_at (lf_table s) b) (slot_at t b)"
        using others 3 by blast
      ultimately show ?thesis
        using slots_okD [OF slots, of b] 3 cnt' [of b] others [OF 3] by (simp add: n timers_of_def phase_ok_same [OF sm])
    qed
  qed
  moreover have "task_ok t ((lf_key s)(n := k)) x" if "x \<in># lf_tasks s" for x
  proof -
    have x: "task_ok (lf_table s) (lf_key s) x"
      using tasks that by blast
    have "waits t a c" if "parked_on x = Some (a, c)" for a c
      using waiting [of a c] x parked_subjects [OF that] that by (auto simp: task_ok_def n(1))
    with x show ?thesis
      by (auto simp: task_ok_def n split: option.split)
  qed
  ultimately show ?thesis
    using tab task evs by (auto simp: life_inv_iff n(2) less_Suc_eq dest!: in_diffD)
qed

definition installed :: "string \<Rightarrow> bool \<Rightarrow> Table \<Rightarrow> Table" where
  "installed k fin t = (set_slot (tb_nextSlot t) (no_slot\<lparr>st_state := slotBusy, st_ready := tb_nextChan t, st_finished := fin\<rparr>) t)
     \<lparr>tb_nextChan := Suc (tb_nextChan t), tb_items := go_set k (tb_nextSlot t) (tb_items t), tb_nextSlot := Suc (tb_nextSlot t)\<rparr>"

lemma installed_fields [simp]:
  "tb_grace (installed k fin t) = tb_grace t" "tb_init (installed k fin t) = tb_init t" "tb_nextSlot (installed k fin t) = Suc (tb_nextSlot t)"
  "tb_closed (installed k fin t) = tb_closed t" "tb_ended (installed k fin t) = tb_ended t" "tb_nextChan (installed k fin t) = Suc (tb_nextChan t)"
  "tb_timers (installed k fin t) = tb_timers t" "tb_nextTimer (installed k fin t) = tb_nextTimer t"
  "tb_items (installed k fin t) = go_set k (tb_nextSlot t) (tb_items t)"
  "tb_slots (installed k fin t) = (tb_slots t)(tb_nextSlot t := no_slot\<lparr>st_state := slotBusy, st_ready := tb_nextChan t, st_finished := fin\<rparr>)"
  by (simp_all add: installed_def)

lemma no_slot_fields [simp]: "st_holders no_slot = 0" "st_graceTimer no_slot = None" "st_finished no_slot = False" "st_state no_slot = slotGone"
  "hk_EnforceCloseBeforeOpen (st_hooks no_slot) = False"
  by (simp_all add: no_slot_def)

lemma table_ok_installed:
  assumes ok: "table_ok t key"
  shows "table_ok (installed k fin t) (key(tb_nextSlot t := k))"
proof -
  let ?t = "installed k fin t" and ?key = "key(tb_nextSlot t := k)"
  from ok have m: "maps_ok t key" and tm: "timers_ok t key" and ch: "chans_ok t" and en: "ends_ok t"
    by (simp_all add: table_ok_def)
  have "maps_ok ?t ?key"
    using m by (auto simp: maps_ok_def update_conv less_Suc_eq split: if_splits)
  moreover have "timers_ok ?t ?key"
    unfolding timers_ok_def
  proof (intro conjI allI impI ballI)
    fix b i x
    assume b: "b < tb_nextSlot ?t" "st_graceTimer (slot_at ?t b) = Some i"
    then have b: "b < tb_nextSlot t" "st_graceTimer (slot_at t b) = Some i"
      by (auto split: if_splits)
    then show "i < tb_nextTimer ?t"
      using timers_okD(3) [OF tm] by simp
    assume "x \<in> set (tb_timers ?t)" "fst x = i"
    with b show "snd (snd x) = b"
      using timers_okD(4) [OF tm] by simp
  qed (use timers_okD(1,2) [OF tm] in \<open>fastforce+\<close>)
  moreover have "chans_ok ?t"
    by (rule chans_ok_busy [OF ch, of _ "tb_nextSlot t"]) auto
  moreover have "ends_ok ?t"
    using en by (fastforce simp: ends_ok_def)
  ultimately show ?thesis
    by (simp add: table_ok_def)
qed

lemma lookup_create: "lookupOpen k t = (Inr (openCreate a), t') \<Longrightarrow> mapped_at t k = None \<and> a = tb_nextSlot t \<and> t' = installed k True t"
  by (auto simp: lookupOpen_def make_chan_def Let_def installed_def set_slot_def split: if_splits option.splits slotState.splits)

lemma lookup_bind: "lookupOpen k t = (Inr (openBind a v), t') \<Longrightarrow> mapped_at t k = Some a \<and> st_state (slot_at t a) = slotAwake
    \<and> t' = set_slot a ((slot_at t a)\<lparr>st_holders := st_holders (slot_at t a) + 1\<rparr>) t"
  by (auto simp: lookupOpen_def make_chan_def Let_def split: if_splits option.splits slotState.splits)

lemma lookup_wake: "lookupOpen k t = (Inr (openWake a v h), t') \<Longrightarrow> mapped_at t k = Some a \<and> st_state (slot_at t a) = slotAsleep \<and> t' = woken a t"
  by (auto simp: lookupOpen_def make_chan_def Let_def woken_def split: if_splits option.splits slotState.splits)

lemma lookup_park: "lookupOpen k t = (Inr (openPark a c), t') \<Longrightarrow> mapped_at t k = Some a \<and> st_state (slot_at t a) = slotBusy \<and> c = st_ready (slot_at t a) \<and> t' = t"
  by (auto simp: lookupOpen_def make_chan_def Let_def split: if_splits option.splits slotState.splits)

lemma lookup_retry: "lookupOpen k t = (Inr openRetry, t') \<Longrightarrow> \<exists>a. mapped_at t k = Some a \<and> st_state (slot_at t a) = slotGone"
  by (auto simp: lookupOpen_def make_chan_def Let_def split: if_splits option.splits slotState.splits)

lemma claim_cases:
  "claimDrop a t = (dropPark c, t') \<Longrightarrow> st_state (slot_at t a) = slotBusy \<and> c = st_ready (slot_at t a) \<and> t' = t"
  "claimDrop a t = (dropStop, t') \<Longrightarrow> st_state (slot_at t a) \<noteq> slotBusy \<and> \<not> (st_holders (slot_at t a) = 0 \<and> st_state (slot_at t a) = slotAwake) \<and> t' = t"
  "claimDrop a t = (dropClaim h g, t') \<Longrightarrow> st_holders (slot_at t a) = 0 \<and> st_state (slot_at t a) = slotAwake \<and> t' = make_busy a t"
  by (auto simp: claimDrop_def Let_def split: if_splits)

lemma expire_cases:
  "claimExpire k a t = (expireSkip, t') \<Longrightarrow> \<not> (st_holders (slot_at t a) = 0 \<and> st_state (slot_at t a) = slotAsleep) \<and> t' = t"
  "claimExpire k a t = (expireEnforce h, t') \<Longrightarrow> st_holders (slot_at t a) = 0 \<and> st_state (slot_at t a) = slotAsleep
     \<and> hk_EnforceCloseBeforeOpen (st_hooks (slot_at t a)) \<and> t' = make_busy a t"
  "claimExpire k a t = (expireDispose h, t') \<Longrightarrow> st_holders (slot_at t a) = 0 \<and> st_state (slot_at t a) = slotAsleep
     \<and> \<not> hk_EnforceCloseBeforeOpen (st_hooks (slot_at t a)) \<and> t' = expired k a t"
  by (auto simp: claimExpire_def Let_def expired_def split: if_splits)

text \<open>The swap: the slot ends, then the closer takes its key.\<close>

definition swapped :: "nat \<Rightarrow> reclaim_err option \<Rightarrow> Table \<Rightarrow> Table" where
  "swapped a err t = close_chan (st_ready (slot_at t a)) (end_incarnation a err t)"

lemma swapped_fields [simp]:
  "tb_grace (swapped a err t) = tb_grace t" "tb_init (swapped a err t) = tb_init t" "tb_nextSlot (swapped a err t) = tb_nextSlot t"
  "tb_closed (swapped a err t) = st_ready (slot_at t a) # tb_closed t" "tb_nextChan (swapped a err t) = tb_nextChan t"
  "tb_timers (swapped a err t) = tb_timers t" "tb_nextTimer (swapped a err t) = tb_nextTimer t" "tb_items (swapped a err t) = tb_items t"
  "tb_ended (swapped a err t) = (if st_finished (slot_at t a) then a # tb_ended t else tb_ended t)"
  "b \<noteq> a \<Longrightarrow> same_slot (slot_at t b) (slot_at (swapped a err t) b)"
  "st_state (slot_at (swapped a err t) a) = slotGone" "\<not> st_finished (slot_at (swapped a err t) a)"
  "st_hooks (slot_at (swapped a err t) a) = st_hooks (slot_at t a)"
  "st_graceTimer (slot_at (swapped a err t) b) = st_graceTimer (slot_at t b)"
  "b \<noteq> a \<Longrightarrow> st_finished (slot_at (swapped a err t) b) = st_finished (slot_at t b)"
  by (simp_all add: swapped_def end_incarnation_def same_slot_def)

lemma table_step_swapped:
  assumes ok: "table_ok t key" and a: "a < tb_nextSlot t" "st_state (slot_at t a) = slotBusy"
  shows "table_step a key t (swapped a err t)"
proof -
  have "maps_ok (swapped a err t) key = maps_ok t key" "timers_ok (swapped a err t) key = timers_ok t key"
    by (intro maps_ok_cong timers_ok_cong; simp)+
  moreover have "ends_ok (swapped a err t)"
    by (rule ends_ok_close [of t a]) (use ok a in \<open>simp_all add: table_ok_def\<close>)
  ultimately show ?thesis
    by (intro table_step_leave [OF ok a]) (use ok in \<open>simp_all add: table_ok_def timers_of_def\<close>)
qed

lemma installCloser_eq:
  assumes "installCloser k a err t = (c, old, t')"
  shows "c = tb_nextSlot t \<and> close_chan old t' = installed k False (swapped a err t)"
proof -
  have ready: "st_ready (slot_at (end_incarnation a err t) a) = st_ready (slot_at t a)" "tb_nextSlot (end_incarnation a err t) = tb_nextSlot t"
    by (simp_all add: end_incarnation_def)
  have no: "no_slot\<lparr>st_state := slotBusy, st_ready := n, st_finished := False\<rparr> = no_slot\<lparr>st_state := slotBusy, st_ready := n\<rparr>" for n
    by (simp add: no_slot_def)
  from assms ready show ?thesis
    by (auto simp: installCloser_def Let_def make_chan_def installed_def swapped_def close_chan_def set_slot_def no)
qed

section \<open>Every step keeps the invariant\<close>

lemma life_at:
  assumes "life_inv s" "p \<in># lf_tasks s" "(k, a) \<in> set (subjects p)"
  shows "a < tb_nextSlot (lf_table s)" "lf_key s a = k"
  using assms by (fastforce simp: life_inv_def task_ok_def)+

abbreviation phase_at :: "life \<Rightarrow> nat \<Rightarrow> bool" where
  "phase_at s a \<equiv> phase_ok (slot_at (lf_table s) a) (mapped_at (lf_table s) (lf_key s a) = Some a) (timers_of (lf_table s) a)
       (cnt (lf_tasks s) a) (closes (lf_log s) a) (created (lf_log s) a) (0 < tb_grace (lf_table s))"

lemma life_phase: "life_inv s \<Longrightarrow> a < tb_nextSlot (lf_table s) \<Longrightarrow> phase_at s a"
  using slots_okD by (simp add: life_inv_def)

lemma life_table: "life_inv s \<Longrightarrow> table_ok (lf_table s) (lf_key s)"
  by (simp add: life_inv_iff)

lemma life_mapped: "life_inv s \<Longrightarrow> mapped_at (lf_table s) k = Some a \<Longrightarrow> a < tb_nextSlot (lf_table s) \<and> lf_key s a = k"
  by (simp add: life_inv_def maps_ok_def)

lemma phase_busy:
  assumes "phase_ok s m tm c n made keeps" "0 < owners c"
  shows "st_state s = slotBusy"
  using assms by (cases "st_state s") (simp_all add: phase_ok_def)

lemma owner_busy:
  assumes inv: "life_inv s" and p: "p \<in># lf_tasks s" "(a, r) \<in> set (roles p)" and r: "r \<in> {Rcreate, Rwake, Rsleep, Rpark, Rpanic, Rend, Runmap, Rcloser}"
  shows "st_state (slot_at (lf_table s) a) = slotBusy"
proof -
  obtain k where "(k, a) \<in> set (subjects p)"
    using roles_subjects [OF p(2)] by blast
  then have "phase_at s a"
    using life_at [OF inv p(1)] life_phase [OF inv] by blast
  moreover have "0 < owners (cnt (lf_tasks s) a)"
    using cnt_pos [OF p] r by (auto simp: owners_def)
  ultimately show ?thesis
    by (rule phase_busy)
qed

lemma life_step:
  assumes inv: "life_inv s" and p: "p \<in># lf_tasks s" and subj: "a < tb_nextSlot (lf_table s)"
    and step: "table_step a (lf_key s) (lf_table s) t"
    and about: "\<And>b r. b \<noteq> a \<Longrightarrow> has_role b r p = sum_list (map (has_role b r) qs)" "\<forall>e \<in> set evs. event_slot e = a"
    and tasks: "\<forall>q \<in> set qs. task_ok t (lf_key s) q"
    and ok: "phase_at s a \<Longrightarrow> phase_ok (slot_at t a) (mapped_at t (lf_key s a) = Some a) (timers_of t a)
      (\<lambda>r. cnt (lf_tasks s) a r - has_role a r p + sum_list (map (has_role a r) qs)) (closes (lf_log s) a + closes evs a)
      (created (lf_log s) a \<or> created evs a) (0 < tb_grace t)"
  shows "life_inv (moves p qs t evs s)"
proof (rule life_inv_moves [OF inv p _ _ subj about tasks ok])
  show "only_slot a (lf_key s) (lf_table s) t" "table_ok t (lf_key s)"
    using step by (simp_all add: table_step_def)
  show "phase_at s a"
    by (rule life_phase [OF inv subj])
qed

lemmas phase_simps = phase_ok_def owners_def ending_def has_role_def closes_def created_def

lemma life_step_refl:
  assumes inv: "life_inv s" and p: "p \<in># lf_tasks s" and subj: "a < tb_nextSlot (lf_table s)"
    and rest: "\<And>b r. b \<noteq> a \<Longrightarrow> has_role b r p = sum_list (map (has_role b r) qs)" "\<forall>e \<in> set evs. event_slot e = a"
      "\<forall>q \<in> set qs. task_ok (lf_table s) (lf_key s) q"
    and ok: "phase_at s a \<Longrightarrow> phase_ok (slot_at (lf_table s) a) (mapped_at (lf_table s) (lf_key s a) = Some a) (timers_of (lf_table s) a)
      (\<lambda>r. cnt (lf_tasks s) a r - has_role a r p + sum_list (map (has_role a r) qs)) (closes (lf_log s) a + closes evs a)
      (created (lf_log s) a \<or> created evs a) (0 < tb_grace (lf_table s))"
  shows "life_inv (moves p qs (lf_table s) evs s)"
  by (rule life_step [OF inv p subj table_step_refl [OF life_table [OF inv]] rest ok])

lemma same_count [simp]: "0 < n \<Longrightarrow> n - Suc 0 + Suc 0 = (n :: nat)"
  by simp

lemma keeps_open:
  assumes "life_inv s"
  shows "life_inv (s\<lparr>lf_tasks := add_mset (Looking k) (lf_tasks s)\<rparr>)"
proof -
  have "cnt (add_mset (Looking k) M) a = cnt M a" for M a
    by (rule ext) (simp add: has_role_def)
  with assms show ?thesis
    by (auto simp: life_inv_def slots_ok_def task_ok_def)
qed

lemma keeps_look_park:
  assumes inv: "life_inv s" and p: "Looking k \<in># lf_tasks s" and l: "lookupOpen k (lf_table s) = (Inr (openPark a c), t)"
  shows "life_inv (moves (Looking k) [OpenParked k a c] t [] s)"
proof -
  have eq: "t = lf_table s" and facts: "mapped_at (lf_table s) k = Some a" "st_state (slot_at (lf_table s) a) = slotBusy" "c = st_ready (slot_at (lf_table s) a)"
    using lookup_park [OF l] by simp_all
  show ?thesis
    unfolding eq by (rule life_step_refl [OF inv p, of a];
      use facts life_mapped [OF inv facts(1)] in \<open>simp add: task_ok_def waits_def has_role_def closes_def created_def\<close>)
qed

lemma keeps_unpark:
  assumes inv: "life_inv s" and p: "OpenParked k a c \<in># lf_tasks s"
  shows "life_inv (moves (OpenParked k a c) (if b then [Looking k] else []) (lf_table s) [] s)"
  by (rule life_step_refl [OF inv p, of a]; use life_at [OF inv p, of k a] in \<open>simp add: task_ok_def has_role_def closes_def created_def\<close>)

lemma keeps_wake_panics:
  assumes inv: "life_inv s" and p: "Waking k a \<in># lf_tasks s"
  shows "life_inv (moves (Waking k a) [PanicEnding k a err] (lf_table s) [] s)"
  by (rule life_step_refl [OF inv p, of a]; use cnt_pos [OF p, of a Rwake] life_at [OF inv p, of k a] in \<open>simp add: task_ok_def phase_simps split: slotState.splits\<close>)

lemma keeps_bind:
  assumes inv: "life_inv s" and p: "Binding k a \<in># lf_tasks s"
  shows "life_inv (moves (Binding k a) [Holding k a] (lf_table s) [] s)" "life_inv (moves (Binding k a) [Watching k a] (lf_table s) [] s)"
    "life_inv (moves (Binding k a) [Releasing k a] (lf_table s) [] s)"
  by (rule life_step_refl [OF inv p, of a]; use cnt_pos [OF p, of a Rhold] life_at [OF inv p, of k a] in \<open>simp add: task_ok_def phase_simps split: slotState.splits\<close>)+

lemma keeps_holder_done:
  assumes inv: "life_inv s" and p: "Holding k a \<in># lf_tasks s"
  shows "life_inv (moves (Holding k a) [Releasing k a] (lf_table s) [] s)"
  by (rule life_step_refl [OF inv p, of a]; use cnt_pos [OF p, of a Rhold] life_at [OF inv p, of k a] in \<open>simp add: task_ok_def phase_simps split: slotState.splits\<close>)

lemma keeps_watch_done:
  assumes inv: "life_inv s" and p: "Watching k a \<in># lf_tasks s"
  shows "life_inv (moves (Watching k a) [Releasing k a] (lf_table s) [] s)"
  by (rule life_step_refl [OF inv p, of a]; use cnt_pos [OF p, of a Rhold] life_at [OF inv p, of k a] in \<open>simp add: task_ok_def phase_simps split: slotState.splits\<close>)

text \<open>A holder of any kind has the slot awake, with its finished channel open.\<close>

lemma holder_awake:
  assumes inv: "life_inv s" and p: "p \<in># lf_tasks s" "(a, Rhold) \<in> set (roles p)" "(k, a) \<in> set (subjects p)"
  shows "st_state (slot_at (lf_table s) a) = slotAwake" "finishedAtBind a (lf_table s)" "a \<notin> set (tb_ended (lf_table s))"
    "mapped_at (lf_table s) k = Some a" "closes (lf_log s) a = 0"
proof -
  note at = life_at [OF inv p(1) p(3)]
  have *: "st_state (slot_at (lf_table s) a) = slotAwake \<and> st_finished (slot_at (lf_table s) a) \<and> mapped_at (lf_table s) k = Some a \<and> closes (lf_log s) a = 0"
    using life_phase [OF inv at(1)] cnt_pos [OF p(1,2)] at(2) by (simp add: phase_ok_def split: slotState.splits)
  then show "st_state (slot_at (lf_table s) a) = slotAwake" "finishedAtBind a (lf_table s)" "mapped_at (lf_table s) k = Some a" "closes (lf_log s) a = 0"
    by (simp_all add: finishedAtBind_def)
  show "a \<notin> set (tb_ended (lf_table s))"
    using * inv by (auto simp: life_inv_def ends_ok_def)
qed

lemma keeps_claim_parks:
  assumes inv: "life_inv s" and p: "Claiming k a \<in># lf_tasks s" and c: "claimDrop a (lf_table s) = (dropPark c, t)"
  shows "life_inv (moves (Claiming k a) [DropParked k a c] t [] s)"
  unfolding claim_cases(1) [OF c, THEN conjunct2, THEN conjunct2]
  by (rule life_step_refl [OF inv p, of a]; use claim_cases(1) [OF c] life_at [OF inv p, of k a] in \<open>simp add: task_ok_def waits_def phase_simps\<close>)

lemma keeps_claim_stops:
  assumes inv: "life_inv s" and p: "Claiming k a \<in># lf_tasks s" and c: "claimDrop a (lf_table s) = (dropStop, t)"
  shows "life_inv (moves (Claiming k a) [] t [] s)"
  unfolding claim_cases(2) [OF c, THEN conjunct2, THEN conjunct2]
  by (rule life_step_refl [OF inv p, of a]; use claim_cases(2) [OF c] life_at [OF inv p, of k a] in \<open>simp add: task_ok_def phase_simps split: slotState.splits\<close>)

lemma keeps_drop_unpark:
  assumes inv: "life_inv s" and p: "DropParked k a c \<in># lf_tasks s"
  shows "life_inv (moves (DropParked k a c) [Claiming k a] (lf_table s) [] s)"
  by (rule life_step_refl [OF inv p, of a]; use life_at [OF inv p, of k a] in \<open>simp add: task_ok_def phase_simps split: slotState.splits\<close>)

lemma keeps_sleep:
  assumes inv: "life_inv s" and p: "Sleeping k a \<in># lf_tasks s"
  shows "life_inv (moves (Sleeping k a) [after_sleep s k a] (lf_table s) [MsgOrphan a] s)"
    "life_inv (moves (Sleeping k a) [PanicEnding k a None] (lf_table s) [MsgHookPanic a h] s)"
  by (rule life_step_refl [OF inv p, of a];
      use owner_busy [OF inv p, of a Rsleep] cnt_pos [OF p, of a Rsleep] life_at [OF inv p, of k a] in \<open>simp add: after_sleep_def task_ok_def phase_simps not_le\<close>)+

lemma dispose_events: "closes (dispose a hooks panics) b = (if b = a then 1 else 0)" "\<not> created (dispose a hooks panics) b"
  "\<forall>e \<in> set (dispose a hooks panics). event_slot e = a"
  by (auto simp: closes_def created_def dispose_def)

lemma keeps_mapped_closed:
  assumes inv: "life_inv s" and p: "EndingMapped k a \<in># lf_tasks s"
  shows "life_inv (moves (EndingMapped k a) [Unmapping k a] (lf_table s) (dispose a hooks panics) s)"
  by (rule life_step_refl [OF inv p, of a];
      use owner_busy [OF inv p, of a Rend] cnt_pos [OF p, of a Rend] life_at [OF inv p, of k a] dispose_events [of a hooks panics] in
        \<open>simp add: task_ok_def phase_ok_def owners_def ending_def has_role_def\<close>)

lemma phase_gone:
  assumes "phase_ok s m tm c n made keeps" "0 < ending c"
  shows "st_state s = slotGone"
  using assms by (cases "st_state s") (simp_all add: phase_ok_def)

lemma ending_gone:
  assumes inv: "life_inv s" and p: "p \<in># lf_tasks s" "(a, r) \<in> set (roles p)" and r: "r \<in> {Rdispose, Rswap}"
  shows "st_state (slot_at (lf_table s) a) = slotGone"
proof -
  obtain k where "(k, a) \<in> set (subjects p)"
    using roles_subjects [OF p(2)] by blast
  then have "phase_at s a"
    using life_at [OF inv p(1)] life_phase [OF inv] by blast
  moreover have "0 < ending (cnt (lf_tasks s) a)"
    using cnt_pos [OF p] r by (auto simp: ending_def)
  ultimately show ?thesis
    by (rule phase_gone)
qed

lemma keeps_closed:
  assumes inv: "life_inv s"
  shows "Disposing k a \<in># lf_tasks s \<Longrightarrow> life_inv (moves (Disposing k a) [Unbinding k a] (lf_table s) (dispose a hooks panics) s)" (is "?p \<in># _ \<Longrightarrow> ?l")
    "LastClosing k a \<in># lf_tasks s \<Longrightarrow> life_inv (moves (LastClosing k a) [] (lf_table s) (dispose a hooks panics) s)" (is "?q \<in># _ \<Longrightarrow> ?m")
proof -
  note facts = dispose_events [of a hooks panics]
  show ?l if p: "?p \<in># lf_tasks s"
    by (rule life_step_refl [OF inv p, of a];
      use ending_gone [OF inv p, of a Rdispose] cnt_pos [OF p, of a Rdispose] life_at [OF inv p, of k a] facts in
        \<open>simp add: task_ok_def phase_ok_def owners_def ending_def has_role_def split: if_splits\<close>)
  show ?m if p: "?q \<in># lf_tasks s"
    by (rule life_step_refl [OF inv p, of a];
      use ending_gone [OF inv p, of a Rdispose] cnt_pos [OF p, of a Rdispose] life_at [OF inv p, of k a] facts in
        \<open>simp add: task_ok_def phase_ok_def owners_def ending_def has_role_def split: if_splits\<close>)
qed

lemma keeps_swap_closed:
  assumes inv: "life_inv s" and p: "SwapClosing k a c \<in># lf_tasks s"
  shows "life_inv (moves (SwapClosing k a c) [Uncovering k c] (lf_table s) (dispose a hooks panics) s)"
proof -
  have "c \<noteq> a"
    using ending_gone [OF inv p, of a Rswap] owner_busy [OF inv p, of c Rcloser] by auto
  then show ?thesis
    by (intro life_step_refl [OF inv p, of a];
      use ending_gone [OF inv p, of a Rswap] cnt_pos [OF p, of a Rswap] life_at [OF inv p, of k a] life_at [OF inv p, of k c] dispose_events [of a hooks panics] in
        \<open>simp add: task_ok_def phase_ok_def owners_def ending_def has_role_def split: if_splits\<close>)
qed

lemma keeps_expire_skips:
  assumes inv: "life_inv s" and p: "Expiring k a \<in># lf_tasks s" and c: "claimExpire k a (lf_table s) = (expireSkip, t)"
  shows "life_inv (moves (Expiring k a) [] t [] s)"
  unfolding expire_cases(1) [OF c, THEN conjunct2]
  by (rule life_step_refl [OF inv p, of a]; use expire_cases(1) [OF c] life_at [OF inv p, of k a] in \<open>simp add: task_ok_def phase_simps split: slotState.splits\<close>)

lemma keeps_unbind:
  assumes inv: "life_inv s" and p: "Unbinding k a \<in># lf_tasks s"
  shows "life_inv (moves (Unbinding k a) [] (unbindIncarnationLocked a (lf_table s)) [] s)"
  by (rule life_step [OF inv p, of a]; (rule table_step_bare [OF bare_unbind life_table [OF inv]])?;
    use life_at [OF inv p, of k a] in \<open>simp add: phase_simps timers_of_def cong: slotState.case_cong\<close>)

lemma keeps_look_bind:
  assumes inv: "life_inv s" and p: "Looking k \<in># lf_tasks s" and l: "lookupOpen k (lf_table s) = (Inr (openBind a v), t)"
  shows "life_inv (moves (Looking k) [Binding k a] t [MsgBind a] s)"
proof -
  have eq: "t = set_slot a ((slot_at (lf_table s) a)\<lparr>st_holders := st_holders (slot_at (lf_table s) a) + 1\<rparr>) (lf_table s)"
    and facts: "mapped_at (lf_table s) k = Some a" "st_state (slot_at (lf_table s) a) = slotAwake"
    using lookup_bind [OF l] by simp_all
  note at = life_mapped [OF inv facts(1)]
  show ?thesis
    unfolding eq by (rule life_step [OF inv p, of a]; (rule table_step_holders [OF life_table [OF inv]])?;
      use facts at in \<open>simp add: task_ok_def phase_simps timers_of_def\<close>)
qed

lemma keeps_look_wake:
  assumes inv: "life_inv s" and p: "Looking k \<in># lf_tasks s" and l: "lookupOpen k (lf_table s) = (Inr (openWake a v hooks), t)"
  shows "life_inv (moves (Looking k) [Waking k a] t [] s)"
proof -
  have eq: "t = woken a (lf_table s)" and facts: "mapped_at (lf_table s) k = Some a" "st_state (slot_at (lf_table s) a) = slotAsleep"
    using lookup_wake [OF l] by simp_all
  note at = life_mapped [OF inv facts(1)]
  have "table_step a (lf_key s) (lf_table s) (woken a (lf_table s))"
    using facts at by (intro table_step_woken life_table [OF inv]) simp_all
  then show ?thesis
    unfolding eq by (rule life_step [OF inv p at [THEN conjunct1]]) (use facts at in \<open>simp_all add: task_ok_def phase_simps\<close>)
qed

lemma keeps_create_works:
  assumes inv: "life_inv s" and p: "Creating k a \<in># lf_tasks s"
  shows "life_inv (moves (Creating k a) [Binding k a] (publishPut k a v hooks (lf_table s)) [MsgPut a, MsgBind a] s)"
proof -
  note at = life_at [OF inv p, of k a, simplified]
  note busy = owner_busy [OF inv p, of a Rcreate, simplified] and pos = cnt_pos [OF p, of a Rcreate, simplified]
  have m: "mapped_at (lf_table s) k = Some a"
    using life_phase [OF inv at(1)] busy at(2) by (simp add: phase_ok_def)
  show ?thesis
    by (rule life_step [OF inv p at(1) table_step_publishPut [OF life_table [OF inv] at(1) busy m]])
      (use busy pos at m in \<open>simp_all add: task_ok_def phase_simps publishPut_def Let_def timers_of_def update_conv\<close>)
qed

lemma keeps_wake_works:
  assumes inv: "life_inv s" and p: "Waking k a \<in># lf_tasks s"
  shows "life_inv (moves (Waking k a) [Binding k a] (publishWake a (lf_table s)) [MsgReclaim a, MsgBind a] s)"
proof -
  note at = life_at [OF inv p, of k a, simplified]
  note busy = owner_busy [OF inv p, of a Rwake, simplified] and pos = cnt_pos [OF p, of a Rwake, simplified]
  show ?thesis
    by (rule life_step [OF inv p at(1) table_step_publishWake [OF life_table [OF inv] at(1) busy]])
      (use busy pos at in \<open>simp_all add: task_ok_def phase_simps publishWake_def timers_of_def\<close>)
qed

lemma keeps_release:
  assumes inv: "life_inv s" and p: "Releasing k a \<in># lf_tasks s"
  shows "life_inv (moves (Releasing k a) [Claiming k a] (releaseHolder a (lf_table s)) [] s)"
proof -
  note at = life_at [OF inv p, of k a, simplified]
  note awake = holder_awake [OF inv p, of a k, simplified] and pos = cnt_pos [OF p, of a Rhold, simplified]
  show ?thesis
    unfolding releaseHolder_def
    by (rule life_step [OF inv p at(1) table_step_holders [OF life_table [OF inv]]])
      (use awake pos at in \<open>simp_all add: task_ok_def phase_simps timers_of_def of_nat_diff Suc_le_eq\<close>)
qed

lemma keeps_claim_takes:
  assumes inv: "life_inv s" and p: "Claiming k a \<in># lf_tasks s" and c: "claimDrop a (lf_table s) = (dropClaim hooks grace, t)"
  shows "life_inv (moves (Claiming k a) [Sleeping k a] t [] s)"
proof -
  note at = life_at [OF inv p, of k a, simplified]
  have eq: "t = make_busy a (lf_table s)" and facts: "st_holders (slot_at (lf_table s) a) = 0" "st_state (slot_at (lf_table s) a) = slotAwake"
    using claim_cases(3) [OF c] by simp_all
  have "table_step a (lf_key s) (lf_table s) (make_busy a (lf_table s))"
    using facts by (intro table_step_busy life_table [OF inv]) simp
  then show ?thesis
    unfolding eq by (rule life_step [OF inv p at(1)]) (use facts at in \<open>simp_all add: task_ok_def phase_simps timers_of_def\<close>)
qed

lemma keeps_expire_enforces:
  assumes inv: "life_inv s" and p: "Expiring k a \<in># lf_tasks s" and c: "claimExpire k a (lf_table s) = (expireEnforce hooks, t)"
  shows "life_inv (moves (Expiring k a) [EndingMapped k a] t [] s)"
proof -
  note at = life_at [OF inv p, of k a, simplified]
  have eq: "t = make_busy a (lf_table s)" and facts: "st_holders (slot_at (lf_table s) a) = 0" "st_state (slot_at (lf_table s) a) = slotAsleep"
    "hk_EnforceCloseBeforeOpen (hooks_at s a)"
    using expire_cases(2) [OF c] by simp_all
  have "table_step a (lf_key s) (lf_table s) (make_busy a (lf_table s))"
    using facts by (intro table_step_busy life_table [OF inv]) simp
  then show ?thesis
    unfolding eq by (rule life_step [OF inv p at(1)]) (use facts at in \<open>simp_all add: task_ok_def phase_simps timers_of_def\<close>)
qed

lemma ends_slot_at:
  assumes "ends_slot k a t t'"
  shows "st_state (slot_at t' a) = slotGone" "st_hooks (slot_at t' a) = st_hooks (slot_at t a)" "mapped_at t' k \<noteq> Some a" "tb_grace t' = tb_grace t"
    "tb_nextSlot t' = tb_nextSlot t"
  using assms by (auto simp: ends_slot_def mapped_unmap_if)

lemma keeps_expire_disposes:
  assumes inv: "life_inv s" and p: "Expiring k a \<in># lf_tasks s" and c: "claimExpire k a (lf_table s) = (expireDispose hooks, t)"
  shows "life_inv (moves (Expiring k a) [Disposing k a] t [] s)"
proof -
  note at = life_at [OF inv p, of k a, simplified]
  have eq: "t = expired k a (lf_table s)" and facts: "st_holders (slot_at (lf_table s) a) = 0" "st_state (slot_at (lf_table s) a) = slotAsleep"
    "\<not> hk_EnforceCloseBeforeOpen (hooks_at s a)"
    using expire_cases(3) [OF c] by simp_all
  have "table_step a (lf_key s) (lf_table s) (expired k a (lf_table s))"
    using facts at by (intro table_step_expired life_table [OF inv]) simp_all
  then show ?thesis
    unfolding eq by (rule life_step [OF inv p at(1)]) (use facts at ends_slot_at [OF ends_expired(1)] in \<open>simp_all add: task_ok_def phase_simps\<close>)
qed

lemma keeps_unmap:
  assumes inv: "life_inv s"
  shows "Creating k a \<in># lf_tasks s \<Longrightarrow> life_inv (moves (Creating k a) [] (endBusySlot k a err (lf_table s)) [] s)"
    "Unmapping k a \<in># lf_tasks s \<Longrightarrow> life_inv (moves (Unmapping k a) [] (unmapAfterClose k a (lf_table s)) [] s)"
    "Uncovering k a \<in># lf_tasks s \<Longrightarrow> life_inv (moves (Uncovering k a) [] (unmapAfterClose k a (lf_table s)) [] s)"
    "PanicEnding k a err \<in># lf_tasks s \<Longrightarrow> \<not> hk_EnforceCloseBeforeOpen (hooks_at s a) \<Longrightarrow>
       life_inv (moves (PanicEnding k a err) [LastClosing k a] (endBusySlot k a err (lf_table s)) [] s)"
proof -
  note simps = task_ok_def phase_simps ends_slot_at [OF ends_endBusySlot(1)] ends_slot_at [OF ends_unmapAfterClose(1)]
  { assume p: "Creating k a \<in># lf_tasks s"
    note at = life_at [OF inv p, of k a, simplified]
    note busy = owner_busy [OF inv p, of a Rcreate, simplified] and pos = cnt_pos [OF p, of a Rcreate, simplified]
    show "life_inv (moves (Creating k a) [] (endBusySlot k a err (lf_table s)) [] s)"
      by (rule life_step [OF inv p at(1) table_step_ends [OF ends_endBusySlot life_table [OF inv] at(1) busy]])
        (use busy pos at in \<open>simp_all add: simps\<close>) }
  { assume p: "Unmapping k a \<in># lf_tasks s"
    note at = life_at [OF inv p, of k a, simplified]
    note busy = owner_busy [OF inv p, of a Runmap, simplified] and pos = cnt_pos [OF p, of a Runmap, simplified]
    show "life_inv (moves (Unmapping k a) [] (unmapAfterClose k a (lf_table s)) [] s)"
      by (rule life_step [OF inv p at(1) table_step_ends [OF ends_unmapAfterClose life_table [OF inv] at(1) busy]])
        (use busy pos at in \<open>simp_all add: simps\<close>) }
  { assume p: "Uncovering k a \<in># lf_tasks s"
    note at = life_at [OF inv p, of k a, simplified]
    note busy = owner_busy [OF inv p, of a Rcloser, simplified] and pos = cnt_pos [OF p, of a Rcloser, simplified]
    show "life_inv (moves (Uncovering k a) [] (unmapAfterClose k a (lf_table s)) [] s)"
      by (rule life_step [OF inv p at(1) table_step_ends [OF ends_unmapAfterClose life_table [OF inv] at(1) busy]])
        (use busy pos at in \<open>simp_all add: simps\<close>) }
  { assume p: "PanicEnding k a err \<in># lf_tasks s" and no: "\<not> hk_EnforceCloseBeforeOpen (hooks_at s a)"
    note at = life_at [OF inv p, of k a, simplified]
    note busy = owner_busy [OF inv p, of a Rpanic, simplified] and pos = cnt_pos [OF p, of a Rpanic, simplified]
    show "life_inv (moves (PanicEnding k a err) [LastClosing k a] (endBusySlot k a err (lf_table s)) [] s)"
      by (rule life_step [OF inv p at(1) table_step_ends [OF ends_endBusySlot life_table [OF inv] at(1) busy]])
        (use busy pos at no in \<open>simp_all add: simps\<close>) }
qed

lemma keeps_park:
  assumes inv: "life_inv s" and p: "Parking k a \<in># lf_tasks s" and c: "parkAsleep k a (tb_grace (lf_table s)) (lf_table s) = (m, t)"
  shows "life_inv (moves (Parking k a) (if m then [] else [Expiring k a]) t [] s)"
proof -
  note at = life_at [OF inv p, of k a, simplified]
  note busy = owner_busy [OF inv p, of a Rpark, simplified] and pos = cnt_pos [OF p, of a Rpark, simplified]
  have mapped: "mapped_at (lf_table s) k = Some a"
    using life_phase [OF inv at(1)] busy at(2) by (simp add: phase_ok_def)
  have step: "table_step a (lf_key s) (lf_table s) t"
    using table_step_parkAsleep [OF life_table [OF inv] at(1) busy mapped, of "tb_grace (lf_table s)"] by (simp add: c)
  show ?thesis
  proof (cases "tb_grace (lf_table s) \<le> 0")
    case True
    then have "m = False" "t = unmap_if k a (close_chan (st_ready (slot_at (lf_table s) a)) (set_state a slotAsleep (lf_table s)))"
      using c mapped by (simp_all add: parkAsleep_def Let_def unmap_if_def)
    with step show ?thesis
      by (intro life_step [OF inv p at(1)]) (use busy pos at mapped True in \<open>auto simp: task_ok_def phase_simps timers_of_def mapped_unmap_if\<close>)
  next
    case False
    then have "m = True" "t = arm_grace k a (close_chan (st_ready (slot_at (lf_table s) a)) (set_state a slotAsleep (lf_table s)))"
      using c mapped by (simp_all add: parkAsleep_def Let_def)
    with step show ?thesis
      by (intro life_step [OF inv p at(1)]) (use busy pos at mapped False in \<open>auto simp: task_ok_def phase_simps timers_of_def\<close>)
  qed
qed

lemma keeps_look_create:
  assumes inv: "life_inv s" and p: "Looking k \<in># lf_tasks s" and l: "lookupOpen k (lf_table s) = (Inr (openCreate a), t)"
  shows "life_inv ((moves (Looking k) [Creating k a] t [] s)\<lparr>lf_key := (lf_key s)(a := k)\<rparr>)"
proof -
  have eq: "t = installed k True (lf_table s)" "a = tb_nextSlot (lf_table s)" and none: "mapped_at (lf_table s) k = None"
    using lookup_create [OF l] by simp_all
  show ?thesis
  proof (rule life_inv_install [OF inv p eq(2), where A = "{}"])
    show "table_ok t ((lf_key s)(a := k))"
      unfolding eq by (rule table_ok_installed [OF life_table [OF inv]])
    show "phase_ok (slot_at t a) (mapped_at t k = Some a) 0 (\<lambda>r. has_role a r (Creating k a)) 0 False (0 < tb_grace t)"
      by (simp add: eq phase_simps update_conv)
    show "same_slot (slot_at (lf_table s) b) (slot_at t b) \<and> (mapped_at t (lf_key s b) = Some b \<longleftrightarrow> mapped_at (lf_table s) (lf_key s b) = Some b)"
      if "b < a" for b
      using that none by (auto simp: eq update_conv)
  qed (simp_all add: eq waits_def task_ok_def)
qed

lemma keeps_panic_swaps:
  assumes inv: "life_inv s" and p: "PanicEnding k a err \<in># lf_tasks s" and i: "installCloser k a err (lf_table s) = (c, old, t)"
    and enforce: "hk_EnforceCloseBeforeOpen (hooks_at s a)"
  shows "life_inv ((moves (PanicEnding k a err) [SwapClosing k a c] (close_chan old t) [] s)\<lparr>lf_key := (lf_key s)(c := k)\<rparr>)"
proof -
  let ?t = "installed k False (swapped a err (lf_table s))"
  have c: "c = tb_nextSlot (lf_table s)" and eq: "close_chan old t = ?t"
    using installCloser_eq [OF i] by simp_all
  note at = life_at [OF inv p, of k a, simplified]
  note busy = owner_busy [OF inv p, of a Rpanic, simplified] and pos = cnt_pos [OF p, of a Rpanic, simplified]
  have mapped: "mapped_at (lf_table s) k = Some a"
    using life_phase [OF inv at(1)] busy at(2) by (simp add: phase_ok_def)
  note step = table_step_swapped [OF life_table [OF inv] at(1) busy, of err]
  show ?thesis
    unfolding eq
  proof (rule life_inv_install [OF inv p c, where A = "{a}"])
    show "table_ok ?t ((lf_key s)(c := k))"
      using table_ok_installed [of "swapped a err (lf_table s)" "lf_key s" k False] step by (simp add: c table_step_def)
    show "phase_ok (slot_at ?t c) (mapped_at ?t k = Some c) 0 (\<lambda>r. has_role c r (SwapClosing k a c)) 0 False (0 < tb_grace ?t)"
      using at by (simp add: c phase_simps update_conv)
    show "same_slot (slot_at (lf_table s) b) (slot_at ?t b) \<and> (mapped_at ?t (lf_key s b) = Some b \<longleftrightarrow> mapped_at (lf_table s) (lf_key s b) = Some b)"
      if "b < c" "b \<notin> {a}" for b
      using that mapped by (auto simp: c update_conv)
    show "waits ?t b d" if "b < c" "waits (lf_table s) b d" for b d
    proof -
      have "waits (swapped a err (lf_table s)) b d"
        using only_waits step that(2) unfolding table_step_def by blast
      with that(1) show ?thesis
        by (simp add: c waits_def)
    qed
    show "phase_ok (slot_at ?t b) (mapped_at ?t (lf_key s b) = Some b) (timers_of ?t b)
      (\<lambda>r. cnt (lf_tasks s) b r - has_role b r (PanicEnding k a err) + has_role b r (SwapClosing k a c)) (closes (lf_log s) b) (created (lf_log s) b) (0 < tb_grace ?t)"
      if "b < c" "b \<in> {a}" for b
      using that life_phase [OF inv at(1)] busy pos at c enforce by (auto simp: phase_simps update_conv)
  qed (use at in \<open>auto simp: c task_ok_def\<close>)
qed

lemma task_ok_cong:
  assumes "tb_nextSlot t' = tb_nextSlot t" "\<And>a c. waits t' a c = waits t a c"
  shows "task_ok t' key p = task_ok t key p"
  using assms by (simp add: task_ok_def split: option.split)

lemma keeps_bare:
  assumes inv: "life_inv s" and b: "bare t = bare (lf_table s)"
  shows "life_inv (s\<lparr>lf_table := t\<rparr>)"
proof -
  note f = bare_fields [OF b]
  have "table_ok t (lf_key s)"
    using table_step_bare [OF b life_table [OF inv], of 0] by (simp add: table_step_def)
  moreover have "phase_ok (slot_at t a) m tm c n made keeps = phase_ok (slot_at (lf_table s) a) m tm c n made keeps" for a m tm c n made keeps
    by (rule phase_ok_same) (simp add: same_slot_def f)
  then have "slots_ok (s\<lparr>lf_table := t\<rparr>)"
    using inv by (simp add: slots_ok_def life_inv_def f timers_of_def)
  moreover have "task_ok t (lf_key s) p = task_ok (lf_table s) (lf_key s) p" for p
    by (rule task_ok_cong) (simp_all add: waits_def f)
  ultimately show ?thesis
    using inv by (simp add: life_inv_iff f)
qed

lemma keeps_fire:
  assumes inv: "life_inv s" and x: "(i, k, a) \<in> set (tb_timers (lf_table s))"
  shows "life_inv (s\<lparr>lf_table := (lf_table s)\<lparr>tb_timers := filter (\<lambda>x. fst x \<noteq> i) (tb_timers (lf_table s))\<rparr>, lf_tasks := add_mset (Expiring k a) (lf_tasks s)\<rparr>)"
    (is "life_inv ?s")
proof -
  let ?t = "(lf_table s)\<lparr>tb_timers := filter (\<lambda>x. fst x \<noteq> i) (tb_timers (lf_table s))\<rparr>"
  from inv have tm: "timers_ok (lf_table s) (lf_key s)"
    by (simp add: life_inv_def)
  have at: "a < tb_nextSlot (lf_table s)" "lf_key s a = k"
    using timers_okD(2) [OF tm x] by simp_all
  have only: "snd (snd y) = a" if "y \<in> set (tb_timers (lf_table s))" "fst y = i" for y
    using timers_okD(1) [OF tm] that x by (metis eq_key_imp_eq_value fst_conv prod.collapse snd_conv)
  have "timers_of ?t b = timers_of (lf_table s) b" if "b \<noteq> a" for b
    using only that by (auto simp: timers_of_def intro!: arg_cong [of _ _ length] filter_cong)
  moreover have "cnt (add_mset (Expiring k a) (lf_tasks s)) b = (\<lambda>r. cnt (lf_tasks s) b r + (if b = a \<and> r = Rexpire then 1 else 0))" for b
    by (auto simp: has_role_def)
  ultimately have other: "phase_at ?s b" if "b < tb_nextSlot (lf_table s)" "b \<noteq> a" for b
    using life_phase [OF inv that(1)] that(2) by simp
  have "phase_at ?s a"
    using life_phase [OF inv at(1)] by (simp add: phase_simps split: slotState.splits)
  with other have "phase_at ?s b" if "b < tb_nextSlot (lf_table s)" for b
    using that by (cases "b = a") blast+
  then have "slots_ok ?s"
    unfolding slots_ok_def by simp
  moreover have "maps_ok ?t (lf_key s) = maps_ok (lf_table s) (lf_key s)" "chans_ok ?t = chans_ok (lf_table s)" "ends_ok ?t = ends_ok (lf_table s)"
    by (intro maps_ok_cong chans_ok_cong ends_ok_cong; simp)+
  moreover have "timers_ok ?t (lf_key s)"
    by (rule timers_ok_less [OF tm]) simp_all
  moreover have "task_ok ?t (lf_key s) p = task_ok (lf_table s) (lf_key s) p" for p
    by (rule task_ok_cong) (simp_all add: waits_def)
  moreover have "task_ok (lf_table s) (lf_key s) (Expiring k a)"
    using at by (simp add: task_ok_def)
  ultimately show ?thesis
    using inv by (simp add: life_inv_def)
qed

lemma no_retry:
  assumes inv: "life_inv s" and l: "lookupOpen k (lf_table s) = (Inr openRetry, t)"
  shows False
proof -
  obtain a where a: "mapped_at (lf_table s) k = Some a" "st_state (slot_at (lf_table s) a) = slotGone"
    using lookup_retry [OF l] by blast
  then show False
    using life_mapped [OF inv a(1)] life_phase [OF inv, of a] by (simp add: phase_ok_def)
qed

lemmas keeps_all = keeps_open keeps_look_park keeps_unpark keeps_wake_panics keeps_bind keeps_holder_done keeps_claim_parks keeps_claim_stops
  keeps_drop_unpark keeps_sleep keeps_mapped_closed keeps_closed keeps_swap_closed keeps_expire_skips keeps_unbind keeps_look_bind keeps_look_wake
  keeps_create_works keeps_wake_works keeps_release keeps_claim_takes keeps_expire_enforces keeps_expire_disposes keeps_unmap keeps_park
  keeps_look_create keeps_panic_swaps keeps_fire

lemma lstep_keeps: "lstep s s' \<Longrightarrow> life_inv s \<Longrightarrow> life_inv s'"
proof (induction rule: lstep.induct)
  case (look_retry k s t)
  then show ?case
    using no_retry by blast
next
  case (bind_poll k a s)
  then have "finishedAtBind a (lf_table s)"
    using holder_awake(2) [of s "Binding k a" a k] by simp
  with bind_poll show ?case
    by (simp add: keeps_bind)
next
  case (watch_ends k a s)
  then have "a \<notin> set (tb_ended (lf_table s))"
    using holder_awake(3) [of s "Watching k a" a k] by simp
  with watch_ends show ?case
    by (simp add: keeps_watch_done)
next
  case (set_alias k n p g s r t)
  then show ?case
    by (intro keeps_bare bare_SetAlias)
next
  case (watch s n emp changed i)
  then show ?case
    by (intro keeps_bare) simp_all
next
  case (drop_watcher s n i)
  then show ?case
    by (intro keeps_bare) simp_all
next
  case (clear_publisher s p g)
  then show ?case
    by (intro keeps_bare) simp_all
qed (rule keeps_all; assumption)+

definition life_reach :: "duration \<Rightarrow> life \<Rightarrow> bool" where
  "life_reach grace s \<longleftrightarrow> lstep\<^sup>*\<^sup>* (life_start grace) s"

lemma start_inv: "life_inv (life_start grace)"
  by (simp add: life_inv_def slots_ok_def life_start_def Table_New_def maps_ok_def timers_ok_def chans_ok_def ends_ok_def)

lemma life_reach_inv: "life_reach grace s \<Longrightarrow> life_inv s"
  unfolding life_reach_def by (induction rule: rtranclp_induct) (auto intro: start_inv lstep_keeps)

section \<open>What the table promises\<close>

text \<open>A state where all goroutines are done but the holders, and no timer is armed; the holders of a slot; its owners.\<close>

definition at_rest :: "life \<Rightarrow> bool" where
  "at_rest s \<longleftrightarrow> tb_timers (lf_table s) = [] \<and> (\<forall>p \<in># lf_tasks s. (\<exists>k a. p = Holding k a) \<or> (\<exists>k a. p = Watching k a))"

definition holders_of :: "life \<Rightarrow> nat \<Rightarrow> nat" where
  "holders_of s a = size {#p \<in># lf_tasks s. \<exists>k. p = Holding k a \<or> p = Watching k a#}"

definition owns :: "nat \<Rightarrow> task \<Rightarrow> bool" where
  "owns a p \<longleftrightarrow> (\<exists>r \<in> {Rcreate, Rwake, Rsleep, Rpark, Rpanic, Rend, Runmap, Rcloser}. (a, r) \<in> set (roles p))"

lemma closes_count: "closes evs a = count_list evs (MsgDispose a)"
  by (induction evs) (auto simp: closes_def)

lemma closes_none: "closes evs a = 0 \<longleftrightarrow> MsgDispose a \<notin> set evs"
  by (simp add: closes_count count_list_0_iff)

lemma closes_le_one:
  assumes inv: "life_inv s"
  shows "closes (lf_log s) a \<le> 1"
proof (cases "a < tb_nextSlot (lf_table s)")
  case True
  show ?thesis
    using life_phase [OF inv True] by (cases "created (lf_log s) a") (auto simp: phase_ok_def owners_def split: slotState.splits)
next
  case False
  then have "closes (lf_log s) a = 0"
    using inv by (intro closes_fresh) (auto simp: life_inv_def)
  then show ?thesis
    by simp
qed

lemma rest_cnt:
  assumes "at_rest s"
  shows "cnt (lf_tasks s) a r = (if r = Rhold then holders_of s a else 0)"
proof -
  have "(a, r) \<in> set (roles p) \<longleftrightarrow> r = Rhold \<and> (\<exists>k. p = Holding k a \<or> p = Watching k a)" if "p \<in># lf_tasks s" for p
    using assms that by (cases p) (auto simp: at_rest_def)
  then have "{#p \<in># lf_tasks s. (a, r) \<in> set (roles p)#} = {#p \<in># lf_tasks s. r = Rhold \<and> (\<exists>k. p = Holding k a \<or> p = Watching k a)#}"
    by (rule filter_mset_cong [OF refl])
  then show ?thesis
    by (simp add: cnt_def holders_of_def)
qed

lemma owns_count: "size {#q \<in># M. owns a q#} = owners (cnt M a)"
proof (induction M)
  case (add p M)
  have "owners (cnt (add_mset p M) a) = (if owns a p then 1 else 0) + owners (cnt M a)"
    by (cases p) (auto simp: owners_def owns_def has_role_def)
  with add show ?case
    by (simp del: cnt_add)
qed (simp add: owners_def)

text \<open>Where an enforced value that has not been closed is: under its key, or behind the closer.\<close>

lemma enforced_place:
  assumes inv: "life_inv s" and a: "MsgPut a \<in> set (lf_log s)" "hk_EnforceCloseBeforeOpen (hooks_at s a)" "MsgDispose a \<notin> set (lf_log s)"
  obtains "mapped_at (lf_table s) (lf_key s a) = Some a"
  | c where "SwapClosing (lf_key s a) a c \<in># lf_tasks s" "mapped_at (lf_table s) (lf_key s a) = Some c"
proof -
  have lt: "a < tb_nextSlot (lf_table s)"
    using inv a(1) by (force simp: life_inv_def)
  have "mapped_at (lf_table s) (lf_key s a) = Some a \<or> 0 < cnt (lf_tasks s) a Rswap"
    using life_phase [OF inv lt] a closes_none [of "lf_log s" a]
    by (auto simp: phase_ok_def created_def ending_def split: slotState.splits)
  then show thesis
  proof
    assume "0 < cnt (lf_tasks s) a Rswap"
    then obtain p where p: "p \<in># lf_tasks s" "(a, Rswap) \<in> set (roles p)"
      using cnt_member by blast
    then obtain k c where eq: "p = SwapClosing k a c"
      by (cases p) auto
    note p = p(1) [unfolded eq]
    have "lf_key s a = k" "lf_key s c = k" "c < tb_nextSlot (lf_table s)"
      using life_at [OF inv p, of k a] life_at [OF inv p, of k c] by simp_all
    then show thesis
      using that(2) [of c] p owner_busy [OF inv p, of c Rcloser] life_phase [OF inv, of c] by (simp add: phase_ok_def)
  qed (rule that(1))
qed

lemma closer_unmade:
  assumes inv: "life_inv s" and p: "SwapClosing k a c \<in># lf_tasks s"
  shows "\<not> created (lf_log s) c" "cnt (lf_tasks s) c Rcreate = 0" "cnt (lf_tasks s) c Rcloser = 1"
  using life_phase [OF inv, of c] life_at [OF inv p, of k c] owner_busy [OF inv p, of c Rcloser] cnt_pos [OF p, of c Rcloser]
  by (simp_all add: phase_ok_def owners_def)

lemma one_closer:
  assumes inv: "life_inv s" and "SwapClosing k a c \<in># lf_tasks s" "SwapClosing j b c \<in># lf_tasks s"
  shows "a = b"
proof (rule ccontr)
  assume "a \<noteq> b"
  then obtain M where "lf_tasks s = add_mset (SwapClosing k a c) (add_mset (SwapClosing j b c) M)"
    using assms(2,3) by (metis insert_noteq_member mset_add task.inject(20))
  then have "1 < cnt (lf_tasks s) c Rcloser"
    by (simp add: has_role_def)
  then show False
    using closer_unmade(3) [OF inv assms(2)] by simp
qed

text \<open>C1: In every interleaving an incarnation's \<open>Close\<close> runs at most once, and never while a caller holds the value: a held
  value is awake, is what its key leads to, and has not been closed.\<close>

theorem closed_once_after_holders:
  assumes "life_reach grace s"
  shows "count_list (lf_log s) (MsgDispose a) \<le> 1 \<and> (Holding k a \<in># lf_tasks s \<or> Watching k a \<in># lf_tasks s \<longrightarrow>
      st_state (slot_at (lf_table s) a) = slotAwake \<and> mapped_at (lf_table s) k = Some a \<and> MsgDispose a \<notin> set (lf_log s))"
  using closes_le_one [OF life_reach_inv [OF assms], of a] holder_awake [OF life_reach_inv [OF assms], of "Holding k a" a k]
    holder_awake [OF life_reach_inv [OF assms], of "Watching k a" a k]
  by (auto simp: closes_none closes_count [symmetric])

text \<open>C2: When all goroutines are done but the holders, and no timer is armed, no value is left behind: every value ever put is
  either awake under its key with all its holders counted, or was closed exactly once and is not in the table.\<close>

theorem nothing_left_behind:
  assumes "life_reach grace s" and "at_rest s" and "MsgPut a \<in> set (lf_log s)"
  shows "st_state (slot_at (lf_table s) a) = slotAwake \<and> (\<exists>k. mapped_at (lf_table s) k = Some a) \<and> 0 < holders_of s a
      \<and> st_holders (slot_at (lf_table s) a) = int (holders_of s a) \<and> MsgDispose a \<notin> set (lf_log s)
    \<or> count_list (lf_log s) (MsgDispose a) = 1 \<and> holders_of s a = 0 \<and> (\<forall>k. mapped_at (lf_table s) k \<noteq> Some a)"
proof -
  have inv: "life_inv s"
    by (rule life_reach_inv [OF assms(1)])
  then have a: "a < tb_nextSlot (lf_table s)"
    using assms(3) by (force simp: life_inv_def)
  have "timers_of (lf_table s) a = 0" "cnt (lf_tasks s) a = (\<lambda>r. if r = Rhold then holders_of s a else 0)"
    using assms(2) rest_cnt [OF assms(2)] by (auto simp: at_rest_def timers_of_def)
  with life_phase [OF inv a] assms(3) life_mapped [OF inv, of _ a] show ?thesis
    by (auto simp: phase_ok_def owners_def ending_def created_def closes_none closes_count [symmetric] split: slotState.splits)
qed

text \<open>C10: Nobody waits for ever on a channel nobody will close: the channel a parked \<open>Open\<close> or drop waits for has been closed, or
  is the ready channel of a busy slot that exactly one goroutine owns. No channel is closed twice, which would panic.\<close>

theorem no_lost_wakeup:
  assumes "life_reach grace s" and "p \<in># lf_tasks s" and "parked_on p = Some (a, c)"
  shows "(c \<in> set (tb_closed (lf_table s)) \<or>
      st_state (slot_at (lf_table s) a) = slotBusy \<and> st_ready (slot_at (lf_table s) a) = c \<and> size {#q \<in># lf_tasks s. owns a q#} = 1)
    \<and> distinct (tb_closed (lf_table s)) \<and> distinct (tb_ended (lf_table s))"
proof -
  have inv: "life_inv s"
    by (rule life_reach_inv [OF assms(1)])
  obtain k where "(k, a) \<in> set (subjects p)"
    using parked_subjects [OF assms(3)] by blast
  then have "phase_at s a"
    using life_at [OF inv assms(2)] life_phase [OF inv] by blast
  moreover have "waits (lf_table s) a c"
    using inv assms(2,3) by (fastforce simp: life_inv_def task_ok_def)
  ultimately show ?thesis
    using inv by (auto simp: waits_def phase_ok_def owns_count life_inv_def chans_ok_def ends_ok_def)
qed

text \<open>C3: \<open>EnforceCloseBeforeOpen\<close> keeps incarnations of a key apart: while a value put with it has not been closed, no \<open>create\<close>
  runs for the key in another slot, and any other such value of the key has been closed. A panic of \<open>Sleep\<close> or \<open>Wake\<close> is no exception.\<close>

theorem enforced_values_do_not_overlap:
  assumes "life_reach grace s" and "MsgPut a \<in> set (lf_log s)" and "hk_EnforceCloseBeforeOpen (hooks_at s a)" and "MsgDispose a \<notin> set (lf_log s)"
    and "b \<noteq> a" and "lf_key s b = lf_key s a"
  shows "Creating k b \<notin># lf_tasks s \<and> (MsgPut b \<in> set (lf_log s) \<longrightarrow> hk_EnforceCloseBeforeOpen (hooks_at s b) \<longrightarrow> MsgDispose b \<in> set (lf_log s))"
proof -
  have inv: "life_inv s"
    by (rule life_reach_inv [OF assms(1)])
  have "Creating k b \<notin># lf_tasks s"
  proof
    assume p: "Creating k b \<in># lf_tasks s"
    then have "mapped_at (lf_table s) (lf_key s b) = Some b"
      using owner_busy [OF inv p, of b Rcreate] life_phase [OF inv, of b] life_at [OF inv p, of k b] by (simp add: phase_ok_def)
    with assms(5,6) closer_unmade(2) [OF inv, of _ a b] cnt_pos [OF p, of b Rcreate] show False
      by (cases rule: enforced_place [OF inv assms(2-4)]) auto
  qed
  moreover have "MsgDispose b \<in> set (lf_log s)" if b: "MsgPut b \<in> set (lf_log s)" "hk_EnforceCloseBeforeOpen (hooks_at s b)"
  proof (rule ccontr)
    assume "MsgDispose b \<notin> set (lf_log s)"
    note place = enforced_place [OF inv b this]
    have made: "created (lf_log s) a" "created (lf_log s) b"
      using assms(2) b(1) by (simp_all add: created_def)
    show False
    proof (cases rule: enforced_place [OF inv assms(2-4)])
      case 1
      with assms(5,6) made closer_unmade(1) [OF inv, of _ b a] show False
        by (cases rule: place) auto
    next
      case (2 c)
      with assms(5,6) made closer_unmade(1) [OF inv 2(1)] one_closer [OF inv 2(1), of _ b] show False
        by (cases rule: place) auto
    qed
  qed
  ultimately show ?thesis
    by blast
qed

section \<open>Schedules\<close>

lemma reach_start: "life_reach grace (life_start grace)"
  by (simp add: life_reach_def)

lemma reach_step: "life_reach grace s \<Longrightarrow> lstep s s' \<Longrightarrow> life_reach grace s'"
  unfolding life_reach_def by (rule rtranclp.rtrancl_into_rtrancl)

lemma step_lookup:
  assumes "Looking k \<in># lf_tasks s"
  shows "fst (lookupOpen k (lf_table s)) = Inr (openCreate a) \<Longrightarrow>
      lstep s ((moves (Looking k) [Creating k a] (snd (lookupOpen k (lf_table s))) [] s)\<lparr>lf_key := (lf_key s)(a := k)\<rparr>)"
    and "fst (lookupOpen k (lf_table s)) = Inr (openBind a v) \<Longrightarrow> lstep s (moves (Looking k) [Binding k a] (snd (lookupOpen k (lf_table s))) [MsgBind a] s)"
    and "fst (lookupOpen k (lf_table s)) = Inr (openPark a c) \<Longrightarrow> lstep s (moves (Looking k) [OpenParked k a c] (snd (lookupOpen k (lf_table s))) [] s)"
    and "tb_init (lf_table s) \<Longrightarrow> mapped_at (lf_table s) k = Some a \<Longrightarrow> st_state (slot_at (lf_table s) a) = slotAsleep \<Longrightarrow>
      lstep s (moves (Looking k) [Waking k a] (woken a (lf_table s)) [] s)"
proof -
  show "lstep s (moves (Looking k) [Waking k a] (woken a (lf_table s)) [] s)"
    if "tb_init (lf_table s)" "mapped_at (lf_table s) k = Some a" "st_state (slot_at (lf_table s) a) = slotAsleep"
    by (rule lstep.look_wake [OF assms]) (use that in \<open>simp add: lookupOpen_def Let_def woken_def\<close>)
qed (use assms in \<open>auto intro!: lstep.intros simp: prod_eq_iff\<close>)

lemma step_claim:
  assumes "Claiming k a \<in># lf_tasks s"
  shows "fst (claimDrop a (lf_table s)) = dropPark c \<Longrightarrow> lstep s (moves (Claiming k a) [DropParked k a c] (snd (claimDrop a (lf_table s))) [] s)"
    and "st_state (slot_at (lf_table s) a) = slotAwake \<Longrightarrow> st_holders (slot_at (lf_table s) a) = 0 \<Longrightarrow>
      lstep s (moves (Claiming k a) [Sleeping k a] (make_busy a (lf_table s)) [] s)"
  using assms by (auto intro!: lstep.intros simp: prod_eq_iff claimDrop_def)

lemma step_park:
  assumes "Parking k a \<in># lf_tasks s"
  shows "lstep s (moves (Parking k a) (if fst (parkAsleep k a (tb_grace (lf_table s)) (lf_table s)) then [] else [Expiring k a])
    (snd (parkAsleep k a (tb_grace (lf_table s)) (lf_table s))) [] s)"
  using assms by (rule lstep.park) simp

lemma step_expired:
  assumes "Expiring k a \<in># lf_tasks s" "st_state (slot_at (lf_table s) a) = slotAsleep" "st_holders (slot_at (lf_table s) a) = 0"
    "\<not> hk_EnforceCloseBeforeOpen (hooks_at s a)"
  shows "lstep s (moves (Expiring k a) [Disposing k a] (expired k a (lf_table s)) [] s)"
  by (rule lstep.expire_disposes [OF assms(1)]) (use assms in \<open>simp add: claimExpire_def expired_def Let_def\<close>)

definition plain_hooks :: "bool \<Rightarrow> Hooks" where
  "plain_hooks e = \<lparr>hk_Sleep = False, hk_Wake = False, hk_Close = False, hk_EnforceCloseBeforeOpen = e\<rparr>"

lemmas run_simps = life_start_def Table_New_def moves_def lookupOpen_def make_chan_def set_slot_def close_chan_def publishPut_def publishWake_def Let_def
  no_slot_def plain_hooks_def releaseHolder_def claimDrop_def make_busy_def after_sleep_def dispose_def runHook_def unmapAfterClose_def unmapLocked_def
  unmap_if_def set_state_def closeFinished_def unbindIncarnationLocked_def parkAsleep_def arm_grace_def stop_grace_def claimExpire_def
  expired_def woken_def

declare run_simps [simp]

text \<open>The first \<open>Open\<close> of a key, and a second one that comes while \<open>create\<close> runs.\<close>

lemmas run_create1 = reach_step [OF reach_start lstep.open_call [of _ "''k''"], simplified]
lemmas run_create = reach_step [OF run_create1 step_lookup(1) [of "''k''" _ 0], simplified]

lemmas run_wait1 = reach_step [OF run_create lstep.open_call [of _ "''k''"], simplified]
lemmas run_wait = reach_step [OF run_wait1 step_lookup(3) [of "''k''" _ 0 0], simplified]

lemmas run_hold1 = reach_step [OF run_create lstep.create_works [where k = "''k''" and a = 0 and v = "Plain ''v''" and hooks = "plain_hooks e" for e], simplified]
lemmas run_hold = reach_step [OF run_hold1 lstep.bind_live [where k = "''k''" and a = 0], simplified]

lemma held_once: "\<exists>s. life_reach 10 s \<and> at_rest s \<and> MsgPut 0 \<in> set (lf_log s) \<and> Holding ''k'' 0 \<in># lf_tasks s"
  by (rule exI, rule conjI [OF run_hold]) (simp add: at_rest_def)

lemma waits_once: "\<exists>s. life_reach 10 s \<and> OpenParked ''k'' 0 0 \<in># lf_tasks s"
  by (rule exI, rule conjI [OF run_wait]) simp

text \<open>Two holders are done before either looks again: the second finds the slot busy with the first one's \<open>Sleep\<close>.\<close>

lemmas run_two1 = reach_step [OF run_hold lstep.open_call [of _ "''k''"], simplified]
lemmas run_two2 = reach_step [OF run_two1 step_lookup(2) [of "''k''" _ 0 "Plain ''v''"], simplified]
lemmas run_two = reach_step [OF run_two2 lstep.bind_live [where k = "''k''" and a = 0], simplified]

lemmas run_drop1 = reach_step [OF run_two lstep.holder_done [where k = "''k''" and a = 0], simplified]
lemmas run_drop2 = reach_step [OF run_drop1 lstep.holder_done [where k = "''k''" and a = 0], simplified]
lemmas run_drop3 = reach_step [OF run_drop2 lstep.release [where k = "''k''" and a = 0], simplified]
lemmas run_drop4 = reach_step [OF run_drop3 lstep.release [where k = "''k''" and a = 0], simplified]
lemmas run_drop5 = reach_step [OF run_drop4 step_claim(2) [of "''k''" 0], simplified]
lemmas run_drop = reach_step [OF run_drop5 step_claim(1) [of "''k''" 0 _ 1], simplified]

text \<open>C35: A drop does find its slot busy: two holders that are both done before either claims the last drop get there, and the
  second waits for the \<open>Sleep\<close> of the first.\<close>

theorem drop_waits_for_sleep: "\<exists>s. life_reach 10 s \<and> {#DropParked ''k'' 0 1, Sleeping ''k'' 0#} \<subseteq># lf_tasks s"
  by (rule exI, rule conjI [OF run_drop]) simp

text \<open>An enforced value that is closed, and the next one of its key.\<close>

lemmas run_sleeping1 = reach_step [OF run_hold lstep.holder_done [where k = "''k''" and a = 0], simplified]
lemmas run_sleeping2 = reach_step [OF run_sleeping1 lstep.release [where k = "''k''" and a = 0], simplified]
lemmas run_sleeping = reach_step [OF run_sleeping2 step_claim(2) [of "''k''" 0], simplified]

lemmas run_enforced1 = reach_step [OF run_sleeping [of 0 True] lstep.sleep_works [where k = "''k''" and a = 0], simplified]
lemmas run_enforced2 = reach_step [OF run_enforced1 lstep.mapped_closed [where k = "''k''" and a = 0 and panics = False], simplified]
lemmas run_enforced = reach_step [OF run_enforced2 lstep.unmap [where k = "''k''" and a = 0], simplified]

lemmas run_again1 = reach_step [OF run_enforced lstep.open_call [of _ "''k''"], simplified]
lemmas run_again2 = reach_step [OF run_again1 step_lookup(1) [of "''k''" _ 1], simplified]
lemmas run_again = reach_step [OF run_again2 lstep.create_works [where k = "''k''" and a = 1 and v = "Plain ''w''" and hooks = "plain_hooks True"], simplified]

lemma enforced_again: "\<exists>s. life_reach 0 s \<and> MsgPut 1 \<in> set (lf_log s) \<and> hk_EnforceCloseBeforeOpen (hooks_at s 1) \<and> MsgDispose 1 \<notin> set (lf_log s)
    \<and> lf_key s 0 = lf_key s 1 \<and> MsgPut 0 \<in> set (lf_log s) \<and> hk_EnforceCloseBeforeOpen (hooks_at s 0)"
  by (rule exI, rule conjI [OF run_again]) simp

text \<open>A timer that has fired but has not got the mutex, and a second sleep of the same value.\<close>

lemmas run_fired1 = reach_step [OF run_sleeping [of 10 False] lstep.sleep_works [where k = "''k''" and a = 0], simplified]
lemmas run_fired2 = reach_step [OF run_fired1 step_park [of "''k''" 0], simplified]
lemmas run_fired = reach_step [OF run_fired2 lstep.fire [where i = 0 and k = "''k''" and a = 0], simplified]

lemmas run_woken1 = reach_step [OF run_fired lstep.open_call [of _ "''k''"], simplified]
lemmas run_woken2 = reach_step [OF run_woken1 step_lookup(4) [of "''k''" _ 0], simplified]
lemmas run_woken3 = reach_step [OF run_woken2 lstep.wake_works [where k = "''k''" and a = 0], simplified]
lemmas run_woken = reach_step [OF run_woken3 lstep.bind_live [where k = "''k''" and a = 0], simplified]

lemmas run_stale1 = reach_step [OF run_woken lstep.holder_done [where k = "''k''" and a = 0], simplified]
lemmas run_stale2 = reach_step [OF run_stale1 lstep.release [where k = "''k''" and a = 0], simplified]
lemmas run_stale3 = reach_step [OF run_stale2 step_claim(2) [of "''k''" 0], simplified]
lemmas run_stale4 = reach_step [OF run_stale3 lstep.sleep_works [where k = "''k''" and a = 0], simplified]
lemmas run_stale5 = reach_step [OF run_stale4 step_park [of "''k''" 0], simplified]
lemmas run_stale = reach_step [OF run_stale5 step_expired [of "''k''" 0], simplified]

text \<open>C36: A value can be closed before its grace is over: the timer of an earlier sleep, fired but late for the mutex, is not
  told from the timer of the current sleep, which is still armed.\<close>

theorem stale_timer_closes_early: "\<exists>s i. life_reach 10 s \<and> Disposing ''k'' 0 \<in># lf_tasks s \<and> st_graceTimer (slot_at (lf_table s) 0) = Some i
    \<and> (i, ''k'', 0) \<in> set (tb_timers (lf_table s))"
  by (rule exI, rule exI, rule conjI [OF run_stale]) simp

declare run_simps [simp del]

section \<open>Instances\<close>

theorem closed_once_after_holders_witness:
  "\<exists>s. life_reach 10 s \<and> Holding ''k'' 0 \<in># lf_tasks s \<and> st_state (slot_at (lf_table s) 0) = slotAwake"
  using held_once closed_once_after_holders [of 10 _ 0 "''k''"] by blast

theorem nothing_left_behind_witness: "\<exists>s. life_reach 10 s \<and> at_rest s \<and> MsgPut 0 \<in> set (lf_log s) \<and>
    (0 < holders_of s 0 \<or> count_list (lf_log s) (MsgDispose 0) = 1)"
  using held_once nothing_left_behind [of 10 _ 0] by blast

theorem no_lost_wakeup_witness: "\<exists>s. life_reach 10 s \<and> OpenParked ''k'' 0 0 \<in># lf_tasks s \<and> distinct (tb_closed (lf_table s))"
  using waits_once no_lost_wakeup [of 10 _ "OpenParked ''k'' 0 0" 0 0] by auto

theorem enforced_values_do_not_overlap_witness: "\<exists>s. life_reach 0 s \<and> MsgPut 0 \<in> set (lf_log s) \<and> MsgPut 1 \<in> set (lf_log s) \<and> MsgDispose 0 \<in> set (lf_log s)"
proof -
  obtain s where s: "life_reach 0 s" "MsgPut 1 \<in> set (lf_log s)" "hk_EnforceCloseBeforeOpen (hooks_at s 1)" "MsgDispose 1 \<notin> set (lf_log s)"
    "lf_key s 0 = lf_key s 1" "MsgPut 0 \<in> set (lf_log s)" "hk_EnforceCloseBeforeOpen (hooks_at s 0)"
    using enforced_again by blast
  then show ?thesis
    using enforced_values_do_not_overlap [OF s(1-4), of 0 "''k''"] by auto
qed

end
