(* ===== verification/Emulator.thy ===== *)
theory Emulator
  imports Prelude
begin

text \<open>
  The Traefik emulator (\<open>src/traefikemulator/emulator.go\<close>): one configuration generation at a time. A
  generation's context is a number; the emulator's record also carries how many were made and which were canceled. The plugin
  constructor is an argument. It may have effects, so it takes and returns a state of its own. A nil map reads
  like an empty one. The nil constructor, for which \<open>New\<close> panics, is None.
\<close>

section \<open>Routes and generations\<close>

record ('n, 'c) Route =
  rt_Name :: string
  rt_MiddlewareName :: string
  rt_Next :: 'n
  rt_Config :: 'c

datatype 'e route_err = DuplicateRoute string | ConstructorErr 'e

type_synonym ('n, 'c, 'h, 'e, 'w) Constructor = "nat \<Rightarrow> 'n \<Rightarrow> 'c \<Rightarrow> string \<Rightarrow> 'w \<Rightarrow> ('e + 'h) \<times> 'w"

record ('n, 'c, 'h, 'e, 'w) Emulator =
  em_newMiddleware :: "('n, 'c, 'h, 'e, 'w) Constructor"
  em_cancel :: "nat option"
  em_routes :: "(string, 'h) gomap"
  em_made :: nat
  em_canceled :: "nat list"

definition Emulator_New :: "('n, 'c, 'h, 'e, 'w) Constructor option \<Rightarrow> ('n, 'c, 'h, 'e, 'w) Emulator option" where
  "Emulator_New newMiddleware =
     map_option (\<lambda>mk. \<lparr>em_newMiddleware = mk, em_cancel = None, em_routes = [], em_made = 0, em_canceled = []\<rparr>) newMiddleware"

definition cancel_generation :: "('n, 'c, 'h, 'e, 'w) Emulator \<Rightarrow> ('n, 'c, 'h, 'e, 'w) Emulator" where
  "cancel_generation e = (case em_cancel e of None \<Rightarrow> e | Some g \<Rightarrow> e\<lparr>em_canceled := g # em_canceled e\<rparr>)"

definition recordFailure :: "(string, 'e route_err) gomap option \<Rightarrow> string \<Rightarrow> 'e route_err \<Rightarrow> (string, 'e route_err) gomap option" where
  "recordFailure failed routeName err = Some (go_set routeName err (case failed of None \<Rightarrow> [] | Some m \<Rightarrow> m))"

definition middleware_name :: "('n, 'c) Route \<Rightarrow> string" where
  "middleware_name r = (if rt_MiddlewareName r = [] then rt_Name r else rt_MiddlewareName r)"

text \<open>The loop of \<open>Apply\<close>, with what it has constructed, seen and failed so far.\<close>

fun construct_routes :: "('n, 'c, 'h, 'e, 'w) Constructor \<Rightarrow> nat \<Rightarrow> ('n, 'c) Route list \<Rightarrow>
    (string, 'h) gomap \<times> string list \<times> (string, 'e route_err) gomap option \<times> 'w \<Rightarrow>
    (string, 'h) gomap \<times> string list \<times> (string, 'e route_err) gomap option \<times> 'w" where
  "construct_routes mk g [] acc = acc"
| "construct_routes mk g (r # rs) (constructed, seen, failed, w) =
     (if rt_Name r \<in> set seen then construct_routes mk g rs (constructed, seen, recordFailure failed (rt_Name r) (DuplicateRoute (rt_Name r)), w)
      else case mk g (rt_Next r) (rt_Config r) (middleware_name r) w of
        (Inl err, w') \<Rightarrow> construct_routes mk g rs (constructed, rt_Name r # seen, recordFailure failed (rt_Name r) (ConstructorErr err), w')
      | (Inr handler, w') \<Rightarrow> construct_routes mk g rs (go_set (rt_Name r) handler constructed, rt_Name r # seen, failed, w'))"

definition Apply_routes :: "('n, 'c) Route list \<Rightarrow> ('n, 'c, 'h, 'e, 'w) Emulator \<Rightarrow> 'w \<Rightarrow>
    (string, 'e route_err) gomap option \<times> ('n, 'c, 'h, 'e, 'w) Emulator \<times> 'w" where
  "Apply_routes routes e w =
     (let e1 = cancel_generation e; g = em_made e1
      in case construct_routes (em_newMiddleware e) g routes ([], [], None, w) of
           (constructed, seen, failed, w') \<Rightarrow> (failed, e1\<lparr>em_cancel := Some g, em_made := Suc g, em_routes := constructed\<rparr>, w'))"

definition Stop :: "('n, 'c, 'h, 'e, 'w) Emulator \<Rightarrow> ('n, 'c, 'h, 'e, 'w) Emulator" where
  "Stop e = (cancel_generation e)\<lparr>em_cancel := None, em_routes := []\<rparr>"

definition Handler :: "string \<Rightarrow> ('n, 'c, 'h, 'e, 'w) Emulator \<Rightarrow> 'h option" where
  "Handler routeName e = go_get (em_routes e) routeName"

text \<open>\<open>Serve\<close> with the handler's \<open>ServeHTTP\<close> as an argument on the state of the world.\<close>

definition Serve :: "('h \<Rightarrow> 'w \<Rightarrow> 'w) \<Rightarrow> string \<Rightarrow> ('n, 'c, 'h, 'e, 'w) Emulator \<Rightarrow> 'w \<Rightarrow> bool \<times> 'w" where
  "Serve serveHTTP routeName e w = (case go_get (em_routes e) routeName of None \<Rightarrow> (False, w) | Some h \<Rightarrow> (True, serveHTTP h w))"

datatype ('n, 'c) emulator_op = OpApply "('n, 'c) Route list" | OpStop

fun emulator_do :: "('n, 'c) emulator_op \<Rightarrow> ('n, 'c, 'h, 'e, 'w) Emulator \<times> 'w \<Rightarrow> ('n, 'c, 'h, 'e, 'w) Emulator \<times> 'w" where
  "emulator_do (OpApply routes) (e, w) = snd (Apply_routes routes e w)"
| "emulator_do OpStop (e, w) = (Stop e, w)"

section \<open>Reference\<close>

text \<open>The first route of each name, in order; the routes that name one again; a constructor that records its calls.\<close>

fun first_routes :: "string set \<Rightarrow> ('n, 'c) Route list \<Rightarrow> ('n, 'c) Route list" where
  "first_routes seen [] = []"
| "first_routes seen (r # rs) = (if rt_Name r \<in> seen then first_routes seen rs else r # first_routes (insert (rt_Name r) seen) rs)"

definition again :: "('n, 'c) Route list \<Rightarrow> string \<Rightarrow> bool" where
  "again rs n \<longleftrightarrow> 2 \<le> length (filter (\<lambda>r. rt_Name r = n) rs)"

definition recording :: "(nat \<Rightarrow> 'n \<Rightarrow> 'c \<Rightarrow> string \<Rightarrow> 'e + 'h) \<Rightarrow> ('n, 'c, 'h, 'e, (nat \<times> 'n \<times> 'c \<times> string) list) Constructor" where
  "recording f g nx cfg nm w = (f g nx cfg nm, w @ [(g, nx, cfg, nm)])"

definition outcome_of :: "(nat \<Rightarrow> 'n \<Rightarrow> 'c \<Rightarrow> string \<Rightarrow> 'e + 'h) \<Rightarrow> nat \<Rightarrow> ('n, 'c) Route \<Rightarrow> 'e + 'h" where
  "outcome_of f g r = f g (rt_Next r) (rt_Config r) (middleware_name r)"

definition call_of :: "nat \<Rightarrow> ('n, 'c) Route \<Rightarrow> nat \<times> 'n \<times> 'c \<times> string" where
  "call_of g r = (g, rt_Next r, rt_Config r, middleware_name r)"

text \<open>What is said of a name: the handler of its first route, and why it failed. A name given again counts as a failure whatever its first route did.\<close>

definition handler_spec :: "(nat \<Rightarrow> 'n \<Rightarrow> 'c \<Rightarrow> string \<Rightarrow> 'e + 'h) \<Rightarrow> nat \<Rightarrow> ('n, 'c) Route list \<Rightarrow> string \<Rightarrow> 'h option" where
  "handler_spec f g rs n = (case find (\<lambda>r. rt_Name r = n) rs of None \<Rightarrow> None | Some r \<Rightarrow> (case outcome_of f g r of Inl _ \<Rightarrow> None | Inr h \<Rightarrow> Some h))"

definition failure_spec :: "(nat \<Rightarrow> 'n \<Rightarrow> 'c \<Rightarrow> string \<Rightarrow> 'e + 'h) \<Rightarrow> nat \<Rightarrow> ('n, 'c) Route list \<Rightarrow> string \<Rightarrow> 'e route_err option" where
  "failure_spec f g rs n =
     (if again rs n then Some (DuplicateRoute n)
      else case find (\<lambda>r. rt_Name r = n) rs of None \<Rightarrow> None | Some r \<Rightarrow> (case outcome_of f g r of Inl err \<Rightarrow> Some (ConstructorErr err) | Inr _ \<Rightarrow> None))"

definition failures :: "(string, 'e route_err) gomap option \<Rightarrow> string \<Rightarrow> 'e route_err option" where
  "failures failed n = (case failed of None \<Rightarrow> None | Some m \<Rightarrow> go_get m n)"

section \<open>Proofs\<close>

lemma failures_record: "failures (recordFailure failed k err) n = (if n = k then Some err else failures failed n)"
  by (simp add: failures_def recordFailure_def update_conv split: option.split)

lemma loop_calls:
  "snd (snd (snd (construct_routes (recording f) g rs (con, seen, failed, w)))) = w @ map (call_of g) (first_routes (set seen) rs)"
  by (induction rs arbitrary: con seen failed w) (auto simp: recording_def call_of_def split: sum.split)

lemma loop_handlers:
  assumes "\<forall>n. n \<notin> set seen \<longrightarrow> go_get con n = None"
  shows "go_get (fst (construct_routes (recording f) g rs (con, seen, failed, w))) n = (if n \<in> set seen then go_get con n else handler_spec f g rs n)"
  using assms
  by (induction rs arbitrary: con seen failed w) (auto simp: recording_def handler_spec_def outcome_of_def update_conv split: sum.split)

lemma loop_failures:
  assumes "\<forall>n. n \<notin> set seen \<longrightarrow> failures failed n = None"
  shows "failures (fst (snd (snd (construct_routes (recording f) g rs (con, seen, failed, w))))) n =
    (if n \<in> set seen then if n \<in> rt_Name ` set rs then Some (DuplicateRoute n) else failures failed n else failure_spec f g rs n)"
  using assms
proof (induction rs arbitrary: con seen failed w)
  case Nil
  then show ?case
    by (simp add: failure_spec_def again_def)
next
  case (Cons r rs)
  have more: "again (r # rs) n \<longleftrightarrow> (if rt_Name r = n then n \<in> rt_Name ` set rs else again rs n)" for n
    by (auto simp: again_def Suc_le_eq filter_empty_conv intro: rev_image_eqI)
  show ?case
  proof (cases "rt_Name r \<in> set seen")
    case True
    with Cons.prems have "\<forall>n. n \<notin> set seen \<longrightarrow> failures (recordFailure failed (rt_Name r) (DuplicateRoute (rt_Name r))) n = None"
      by (auto simp: failures_record)
    from Cons.IH [OF this, of con w] True show ?thesis
      by (auto simp: failures_record failure_spec_def more)
  next
    case False
    let ?failed = "case outcome_of f g r of Inl err \<Rightarrow> recordFailure failed (rt_Name r) (ConstructorErr err) | Inr h \<Rightarrow> failed"
    let ?con = "case outcome_of f g r of Inl err \<Rightarrow> con | Inr h \<Rightarrow> go_set (rt_Name r) h con"
    have "\<forall>n. n \<notin> set (rt_Name r # seen) \<longrightarrow> failures ?failed n = None"
      using Cons.prems by (auto simp: failures_record split: sum.split)
    note ih = Cons.IH [OF this, of ?con "w @ [call_of g r]"]
    have step: "construct_routes (recording f) g (r # rs) (con, seen, failed, w) =
        construct_routes (recording f) g rs (?con, rt_Name r # seen, ?failed, w @ [call_of g r])"
      using False by (simp add: recording_def outcome_of_def call_of_def split: sum.split)
    have "failures failed (rt_Name r) = None"
      using Cons.prems False by blast
    then show ?thesis
      unfolding step ih using False
      by (cases "outcome_of f g r") (auto simp: failures_record failure_spec_def more)
  qed
qed

definition given :: "(string, 'e route_err) gomap option \<Rightarrow> bool" where
  "given failed \<longleftrightarrow> failed = None \<or> failures failed \<noteq> Map.empty"

lemma given_record: "given (recordFailure failed k err)"
  using failures_record [of failed k err k] by (auto simp: given_def)

lemma failed_given: "given failed \<Longrightarrow> given (fst (snd (snd (construct_routes mk g rs (con, seen, failed, w)))))"
  by (induction rs arbitrary: con seen failed w) (simp_all add: given_record split: prod.split sum.split)

text \<open>C39: \<open>Apply\<close> calls the constructor once for the first route of each name, in order and on the new generation; afterwards a
  name is served by what its first route constructed, the failures are exactly the constructor errors and the repeated names,
  and the returned map is nil exactly when there are none.\<close>

theorem apply_builds_generation:
  assumes "em_newMiddleware e = recording f"
  shows "case Apply_routes routes e w of (failed, e', w') \<Rightarrow>
    w' = w @ map (call_of (em_made e)) (first_routes {} routes)
    \<and> (\<forall>n. Handler n e' = handler_spec f (em_made e) routes n)
    \<and> (\<forall>n. failures failed n = failure_spec f (em_made e) routes n)
    \<and> (failed = None \<longleftrightarrow> (\<forall>n. failure_spec f (em_made e) routes n = None))"
proof -
  obtain con seen failed w' where run: "construct_routes (recording f) (em_made e) routes ([], [], None, w) = (con, seen, failed, w')"
    by (metis prod_cases4)
  have made: "em_made (cancel_generation e) = em_made e"
    by (simp add: cancel_generation_def split: option.split)
  have fails: "failures failed n = failure_spec f (em_made e) routes n" for n
    using loop_failures [of "[]" None f "em_made e" routes "[]" w n] by (simp add: run failures_def)
  moreover have "failed = None \<longleftrightarrow> (\<forall>n. failures failed n = None)"
    using failed_given [of None "recording f" "em_made e" routes "[]" "[]" w] by (auto simp: run given_def failures_def)
  moreover have "w' = w @ map (call_of (em_made e)) (first_routes {} routes)"
    using loop_calls [of f "em_made e" routes "[]" "[]" None w] by (simp add: run)
  moreover have "go_get con n = handler_spec f (em_made e) routes n" for n
    using loop_handlers [of "[]" "[]" f "em_made e" routes None w n] by (simp add: run)
  ultimately show ?thesis
    using assms by (simp add: Apply_routes_def Let_def made run Handler_def)
qed

definition generations_ok :: "('n, 'c, 'h, 'e, 'w) Emulator \<Rightarrow> bool" where
  "generations_ok e \<longleftrightarrow> {g. g < em_made e \<and> g \<notin> set (em_canceled e)} = set_option (em_cancel e) \<and> distinct (em_canceled e)
     \<and> (\<forall>g \<in> set (em_canceled e). g < em_made e) \<and> (em_cancel e = None \<longrightarrow> em_routes e = [])"

lemma cancel_all:
  assumes "generations_ok e"
  shows "set (em_canceled (cancel_generation e)) = {..< em_made e}" "distinct (em_canceled (cancel_generation e))"
    "em_made (cancel_generation e) = em_made e"
  using assms by (auto simp: generations_ok_def cancel_generation_def split: option.splits)

lemma emulator_do_ok:
  assumes "generations_ok e"
  shows "generations_ok (fst (emulator_do x (e, w)))"
proof -
  note all = cancel_all [OF assms]
  have "{g. g < Suc m \<and> g \<notin> {..< m}} = {m}" "{g. g < m \<and> g \<notin> {..< m}} = {}" for m :: nat
    by auto
  with all show ?thesis
    by (cases x) (simp_all add: Apply_routes_def Stop_def Let_def generations_ok_def split: prod.split)
qed

lemma emulator_run_ok: "generations_ok e \<Longrightarrow> generations_ok (fst (fold emulator_do xs (e, w)))"
proof (induction xs arbitrary: e w)
  case (Cons x xs)
  then show ?case
    using emulator_do_ok [of e x w] by (cases "emulator_do x (e, w)") simp
qed simp

text \<open>C40: After any sequence of \<open>Apply\<close> and \<open>Stop\<close> the only live context is that of the current generation, every earlier one was
  canceled exactly once, and without a current generation no route is served.\<close>

theorem one_live_generation:
  assumes "Emulator_New (Some newMiddleware) = Some e" and "fold emulator_do xs (e, w) = (e', w')"
  shows "{g. g < em_made e' \<and> g \<notin> set (em_canceled e')} = set_option (em_cancel e') \<and> distinct (em_canceled e')
    \<and> (em_cancel e' = None \<longrightarrow> Handler n e' = None \<and> Serve serveHTTP n e' v = (False, v))"
proof -
  have "generations_ok e"
    using assms(1) by (auto simp: Emulator_New_def generations_ok_def)
  then have "generations_ok e'"
    using emulator_run_ok [of e xs w] assms(2) by simp
  then show ?thesis
    by (simp add: generations_ok_def Handler_def Serve_def)
qed

section \<open>Instances\<close>

definition sample_constructor :: "nat \<Rightarrow> unit \<Rightarrow> nat \<Rightarrow> string \<Rightarrow> string + string" where
  "sample_constructor g nx cfg nm = (if cfg = 0 then Inl ''bad config'' else Inr nm)"

definition sample_routes :: "(unit, nat) Route list" where
  "sample_routes = [\<lparr>rt_Name = ''a'', rt_MiddlewareName = [], rt_Next = (), rt_Config = 1\<rparr>,
     \<lparr>rt_Name = ''b'', rt_MiddlewareName = ''m'', rt_Next = (), rt_Config = 0\<rparr>,
     \<lparr>rt_Name = ''a'', rt_MiddlewareName = [], rt_Next = (), rt_Config = 2\<rparr>]"

definition sample_emulator :: "(unit, nat, string, string, (nat \<times> unit \<times> nat \<times> string) list) Emulator" where
  "sample_emulator = \<lparr>em_newMiddleware = recording sample_constructor, em_cancel = None, em_routes = [], em_made = 0, em_canceled = []\<rparr>"

theorem apply_builds_generation_witness:
  "case Apply_routes sample_routes sample_emulator [] of (failed, e', w') \<Rightarrow>
     w' = [(0, (), 1, ''a''), (0, (), 0, ''m'')] \<and> Handler ''a'' e' = Some ''a'' \<and> Handler ''b'' e' = None
     \<and> failures failed ''a'' = Some (DuplicateRoute ''a'') \<and> failures failed ''b'' = Some (ConstructorErr ''bad config'')"
  using apply_builds_generation [where e = sample_emulator and f = sample_constructor and routes = sample_routes and w = "[]"]
  by (auto simp: sample_emulator_def sample_routes_def sample_constructor_def call_of_def middleware_name_def handler_spec_def failure_spec_def
      again_def outcome_of_def split: prod.splits)

theorem one_live_generation_witness:
  "case fold emulator_do [OpApply sample_routes, OpApply sample_routes, OpStop] (sample_emulator, []) of (e', w') \<Rightarrow>
     {g. g < em_made e' \<and> g \<notin> set (em_canceled e')} = {} \<and> em_made e' = 2 \<and> Handler ''a'' e' = None"
proof -
  obtain e' w' where run: "fold emulator_do [OpApply sample_routes, OpApply sample_routes, OpStop] (sample_emulator, []) = (e', w')"
    by fastforce
  have "Emulator_New (Some (recording sample_constructor)) = Some sample_emulator"
    by (simp add: Emulator_New_def sample_emulator_def)
  note live = one_live_generation [OF this run]
  have "em_cancel e' = None \<and> em_made e' = 2"
    using run by (auto simp: sample_emulator_def Apply_routes_def Stop_def cancel_generation_def Let_def split: prod.splits)
  with live run show ?thesis
    by simp
qed

end
