(* ===== verification/Spec2Isabelle.thy ===== *)
theory Spec2Isabelle
  imports Prelude GoNet IPLookup Float64 TTLMap Backoff TokenBucket Resp Client Session Commands Pool WindowCounter Flush Ticker Alias Reclaim Lifecycle Emulator
begin

text \<open>
  A verification library for the Traefik middleware utilities.
\<close>

end
